(* ===== verification/Go_Prelude.thy ===== *)
theory Go_Prelude
  imports Main "HOL-Library.Word"
begin

text \<open>
  Shared vocabulary of the development: Go's fixed-width integers and byte strings, the outcome
  of a Go call (a value, an error or a panic), reads of a Go map, and the generic lemmas on
  words and lists the components use.
\<close>

unbundle bit_operations_syntax

section \<open>Integers, byte strings, outcomes\<close>

type_synonym byte = "8 word"
type_synonym u8 = "8 word"
type_synonym u16 = "16 word"
type_synonym u32 = "32 word"
type_synonym u64 = "64 word"
type_synonym bytes = "byte list"

text \<open>A Go string literal as its bytes.\<close>

definition bytes_of :: "string \<Rightarrow> bytes" where
  "bytes_of s = map of_char s"

text \<open>
  The outcome of a Go call: it returns normally, returns a non-nil error, or panics (an
  explicit \<open>panic\<close>, an index out of range, an overflow check that panics).
\<close>

datatype ('e, 'a) go = Ret 'a | Fail 'e | Panic

fun go_bind :: "('e, 'a) go \<Rightarrow> ('a \<Rightarrow> ('e, 'b) go) \<Rightarrow> ('e, 'b) go" where
  "go_bind (Ret a) f = f a"
| "go_bind (Fail e) f = Fail e"
| "go_bind Panic f = Panic"

text \<open>
  A method that keeps its receiver on an error: \<open>if err != nil { return err }\<close> returns the
  receiver \<open>d\<close> as it is at that point.
\<close>

fun go_try :: "'d \<Rightarrow> ('e, 'a) go \<Rightarrow> ('a \<Rightarrow> ('e, 'd \<times> 'e option) go) \<Rightarrow> ('e, 'd \<times> 'e option) go" where
  "go_try d (Ret a) f = f a"
| "go_try d (Fail e) f = Ret (d, Some e)"
| "go_try d Panic f = Panic"

text \<open>
  An \<open>io.Writer\<close> is given by what its \<open>Write\<close> returns: a count and possibly an error. Callers turn
  a short count without an error into \<open>io.ErrShortWrite\<close>.
\<close>

type_synonym 'w writer = "bytes \<Rightarrow> int \<times> 'w option"

datatype 'w write_error = WriterErr 'w | ErrShortWrite

definition write_all :: "'w writer \<Rightarrow> bytes \<Rightarrow> 'w write_error option" where
  "write_all w b =
     (case w b of
        (n, None) \<Rightarrow> if n \<noteq> int (length b) then Some ErrShortWrite else None
      | (n, Some err) \<Rightarrow> Some (WriterErr err))"

text \<open>Go's map read \<open>m[k]\<close>: the zero value for a missing key.\<close>

definition map_get :: "('k \<rightharpoonup> 'v::zero) \<Rightarrow> 'k \<Rightarrow> 'v" where
  "map_get m k = (case m k of None \<Rightarrow> 0 | Some v \<Rightarrow> v)"

text \<open>The in-place \<open>dst[k] |= b\<close>; an index out of range is left to the callers to exclude.\<close>

definition or_at :: "nat \<Rightarrow> byte \<Rightarrow> bytes \<Rightarrow> bytes" where
  "or_at k b dst = dst[k := dst ! k OR b]"

named_theorems go_defs "definitional unfoldings used by the component proofs"

declare map_get_def [go_defs]

section \<open>Outcome lemmas\<close>

lemma go_try_eq_None:
  "go_try d m f = Ret (d', None) \<longleftrightarrow> (\<exists>a. m = Ret a \<and> f a = Ret (d', None))"
  by (cases m) simp_all

lemma go_try_eq_Some:
  "go_try d m f = Ret (d', Some e) \<longleftrightarrow> m = Fail e \<and> d' = d \<or> (\<exists>a. m = Ret a \<and> f a = Ret (d', Some e))"
  by (cases m) auto

lemma go_try_eq_Panic: "go_try d m f = Panic \<longleftrightarrow> m = Panic \<or> (\<exists>a. m = Ret a \<and> f a = Panic)"
  by (cases m) simp_all

lemma go_try_eq_Fail: "go_try d m f = Fail e \<longleftrightarrow> (\<exists>a. m = Ret a \<and> f a = Fail e)"
  by (cases m) simp_all

lemma go_try_cong [fundef_cong]:
  "m = m' \<Longrightarrow> (\<And>a. m' = Ret a \<Longrightarrow> f a = f' a) \<Longrightarrow> go_try d m f = go_try d m' f'"
  by (cases m') simp_all

lemma go_bind_assoc [simp]: "go_bind (go_bind m f) g = go_bind m (\<lambda>x. go_bind (f x) g)"
  by (cases m) simp_all

lemma go_bind_Ret_right [simp]: "go_bind m Ret = m"
  by (cases m) simp_all

lemma go_bind_eq_Ret: "go_bind m f = Ret b \<longleftrightarrow> (\<exists>a. m = Ret a \<and> f a = Ret b)"
  by (cases m) simp_all

lemma go_bind_eq_Fail: "go_bind m f = Fail e \<longleftrightarrow> m = Fail e \<or> (\<exists>a. m = Ret a \<and> f a = Fail e)"
  by (cases m) simp_all

lemma go_bind_eq_Panic: "go_bind m f = Panic \<longleftrightarrow> m = Panic \<or> (\<exists>a. m = Ret a \<and> f a = Panic)"
  by (cases m) simp_all

lemmas go_bind_iffs = go_bind_eq_Ret go_bind_eq_Fail go_bind_eq_Panic

lemma go_bind_cong [fundef_cong]:
  "m = m' \<Longrightarrow> (\<And>x. m' = Ret x \<Longrightarrow> f x = f' x) \<Longrightarrow> go_bind m f = go_bind m' f'"
  by (cases m') simp_all

section \<open>Words and bits\<close>

lemma or_at_append [simp]: "or_at (length dst) b (dst @ x # xs) = dst @ (x OR b) # xs"
  by (simp add: or_at_def nth_append list_update_append)

lemma bit_127_int [simp]: "bit (127 :: int) n \<longleftrightarrow> n < 7"
proof -
  have "(127 :: int) = mask 7" by (simp add: mask_eq_exp_minus_1)
  then show ?thesis by (simp only: bit_mask_iff possible_bit_int simp_thms)
qed

lemma bit_128_int [simp]: "bit (128 :: int) n \<longleftrightarrow> n = 7"
proof -
  have "(128 :: int) = 2 ^ 7" by simp
  then show ?thesis by (simp only: bit_exp_iff possible_bit_int) auto
qed

lemma bit_nonzero: "bit w n \<Longrightarrow> (w :: 'a::len word) \<noteq> 0"
  by auto

lemma push_bit_add: "push_bit m a + push_bit m b = push_bit m (a + b :: 'a::len word)"
  by (simp add: push_bit_eq_mult algebra_simps)

lemma push_bit_1_minus_1: "push_bit n 1 - 1 = (mask n :: 'a::len word)"
  by (simp add: mask_eq_exp_minus_1 push_bit_eq_mult)

lemma take_bit_word_self: "unat (v :: 'a::len word) < 2 ^ n \<Longrightarrow> take_bit n v = v"
  by (simp only: word_unat_eq_iff unsigned_take_bit_eq take_bit_nat_eq_self)

lemma unat_drop_bit: "unat (drop_bit n (v :: 'a::len word)) = unat v div 2 ^ n"
proof -
  have "take_bit LENGTH('a) (unat v) = unat v" by (simp add: take_bit_nat_eq_self)
  then show ?thesis by (simp only: unsigned_drop_bit_eq drop_bit_nat_def)
qed

lemma unat_u32_less: "unat (v :: u32) < 4294967296"
  by (rule order_less_le_trans [OF unsigned_less]) simp

lemma unat_ucast_u32_u64: "unat (ucast (v :: u32) :: u64) = unat v"
  using unat_u32_less [of v] by (simp add: unsigned_ucast_eq take_bit_nat_eq_self)

end
