(* ===== verification/Go_Strings.thy ===== *)
theory Go_Strings
  imports Go_Prelude
begin

text \<open>
  Ranging over a Go string. \<open>for i, r := range s\<close> visits the UTF-8 runes of the bytes \<open>s\<close> with their
  byte offsets; an invalid or incomplete sequence is visited as \<open>utf8.RuneError\<close> and skips one byte.
  The lemmas say what a loop that only accepts ASCII runes sees: the bytes themselves.
\<close>

definition RuneError :: nat where
  "RuneError = 0xFFFD"

text \<open>The value and the width of the first rune, as \<open>utf8.DecodeRuneInString\<close> computes them.\<close>

fun decodeRune :: "bytes \<Rightarrow> nat \<times> nat" where
  "decodeRune [] = (RuneError, 0)"
| "decodeRune (b # bs) =
     (let b0 = unat b
      in if b0 < 0x80 then (b0, 1)
         else if b0 < 0xC2 \<or> b0 > 0xF4 then (RuneError, 1)
         else let sz = (if b0 < 0xE0 then 1 else if b0 < 0xF0 then 2 else 3);
                  lo = (if b0 = 0xE0 then 0xA0 else if b0 = 0xF0 then 0x90 else 0x80);
                  hi = (if b0 = 0xED then 0x9F else if b0 = 0xF4 then 0x8F else 0xBF);
                  cs = map unat (take sz bs)
              in if length cs < sz \<or> hd cs < lo \<or> hd cs > hi \<or> list_ex (\<lambda>c. c < 0x80 \<or> c > 0xBF) (tl cs)
                 then (RuneError, 1)
                 else (foldl (\<lambda>v c. v * 64 + (c - 0x80)) (b0 mod 2 ^ (6 - sz)) cs, Suc sz))"

lemma decodeRune_width: "s \<noteq> [] \<Longrightarrow> 0 < snd (decodeRune s)"
  by (cases s) (simp_all add: Let_def)

function runes_from :: "nat \<Rightarrow> bytes \<Rightarrow> (nat \<times> nat) list" where
  "runes_from i s =
     (if s = [] then []
      else case decodeRune s of (r, n) \<Rightarrow> (i, r) # runes_from (i + n) (drop n s))"
  by pat_completeness auto

termination
  by (relation "measure (length \<circ> snd)") (simp, metis comp_apply decodeRune_width diff_less in_measure length_drop length_greater_0_conv snd_conv)

declare runes_from.simps [simp del]

abbreviation runes :: "bytes \<Rightarrow> (nat \<times> nat) list" where
  "runes \<equiv> runes_from 0"

lemma decodeRune_ascii: "unat b < 0x80 \<Longrightarrow> decodeRune (b # s) = (unat b, 1)"
  by simp

lemma decodeRune_other:
  assumes "0x80 \<le> unat b"
  shows "0x80 \<le> fst (decodeRune (b # s))"
proof -
  have mods: "0xC2 \<le> n \<Longrightarrow> n < 0xE0 \<Longrightarrow> 2 \<le> n mod 32" "0xE0 < n \<Longrightarrow> n < 0xF0 \<Longrightarrow> 1 \<le> n mod 16"
    "0xF0 < n \<Longrightarrow> n \<le> 0xF4 \<Longrightarrow> 1 \<le> n mod 8" for n :: nat
    by presburger+
  consider "s = []" | c1 where "s = [c1]" | c1 c2 where "s = [c1, c2]" | c1 c2 c3 s' where "s = c1 # c2 # c3 # s'"
    by (metis list.exhaust)
  then show ?thesis
    using assms mods [of "unat b"]
    by cases (auto simp: Let_def RuneError_def)
qed

lemma runes_from_Nil [simp]: "runes_from i [] = []"
  by (simp add: runes_from.simps)

lemma runes_from_ascii: "unat b < 0x80 \<Longrightarrow> runes_from i (b # s) = (i, unat b) # runes_from (Suc i) s"
  by (subst runes_from.simps) simp

lemma runes_from_other:
  assumes "0x80 \<le> unat b"
  shows "\<exists>r rs. runes_from i (b # s) = (i, r) # rs \<and> 0x80 \<le> r"
  using decodeRune_other [OF assms, of s] by (subst runes_from.simps) (auto simp del: decodeRune.simps split: prod.split)

lemma runes_ascii:
  assumes "\<And>r. P r \<Longrightarrow> r < 0x80"
  shows "list_all (\<lambda>(i, r). P r) (runes_from i s) \<longleftrightarrow> (\<forall>b \<in> set s. P (unat b))"
proof (induction s arbitrary: i)
  case (Cons b s)
  show ?case
  proof (cases "unat b < 0x80")
    case True
    then show ?thesis using Cons by (simp add: runes_from_ascii)
  next
    case False
    then obtain r rs where r: "runes_from i (b # s) = (i, r) # rs" "0x80 \<le> r" using runes_from_other by (metis linorder_not_less)
    have "\<not> P r" "\<not> P (unat b)" using assms [of r] assms [of "unat b"] r(2) False by auto
    then show ?thesis using r(1) by simp
  qed
qed simp

end
