(* ===== verification/Httplex.thy ===== *)
theory Httplex
  imports Go_Strings
begin

text \<open>
  The lexical rules of HTTP (golang.org/x/net/lex/httplex/httplex.go) and the stricter rule for names
  on the wire (http2.go), with the grammar of RFC 7230 they implement.
\<close>

abbreviation chr :: "char \<Rightarrow> byte" where
  "chr \<equiv> of_char"

section \<open>The code\<close>

text \<open>The entries that are true; the array of 127 has no others.\<close>

definition isTokenTable :: string where
  "isTokenTable =
     ''!#$%&'' @ [CHR 0x27] @ ''*+-.0123456789ABCDEFGHIJKLMNOPQRSTUWVXYZ^_'' @ [CHR 0x60] @ ''abcdefghijklmnopqrstuvwxyz|~''"

definition IsTokenRune :: "nat \<Rightarrow> bool" where
  "IsTokenRune r \<longleftrightarrow> r < 127 \<and> r \<in> set (map of_char isTokenTable)"

definition isNotToken :: "nat \<Rightarrow> bool" where
  "isNotToken r \<longleftrightarrow> \<not> IsTokenRune r"

definition isOWS :: "byte \<Rightarrow> bool" where
  "isOWS b \<longleftrightarrow> b = chr CHR '' '' \<or> b = chr CHR 0x09"

fun trim_left :: "bytes \<Rightarrow> bytes" where
  "trim_left [] = []"
| "trim_left (b # x) = (if isOWS b then trim_left x else b # x)"

function trim_right :: "bytes \<Rightarrow> bytes" where
  "trim_right x = (if length x > 0 \<and> isOWS (x ! (length x - 1)) then trim_right (take (length x - 1) x) else x)"
  by pat_completeness auto

termination
  by (relation "measure length") auto

declare trim_right.simps [simp del]

definition trimOWS :: "bytes \<Rightarrow> bytes" where
  "trimOWS x = trim_right (trim_left x)"

definition lowerASCII :: "byte \<Rightarrow> byte" where
  "lowerASCII b = (if chr CHR ''A'' \<le> b \<and> b \<le> chr CHR ''Z'' then b + (chr CHR ''a'' - chr CHR ''A'') else b)"

text \<open>\<open>t2[i]\<close> panics when the index is out of range.\<close>

fun token_loop :: "(nat \<times> nat) list \<Rightarrow> bytes \<Rightarrow> (unit, bool) go" where
  "token_loop [] t2 = Ret True"
| "token_loop ((i, b) # rs) t2 =
     (if b \<ge> 0x80 then Ret False
      else if i \<ge> length t2 then Panic
      else if lowerASCII (of_nat b) \<noteq> lowerASCII (t2 ! i) then Ret False
      else token_loop rs t2)"

definition tokenEqual :: "bytes \<Rightarrow> bytes \<Rightarrow> (unit, bool) go" where
  "tokenEqual t1 t2 = (if length t1 \<noteq> length t2 then Ret False else token_loop (runes t1) t2)"

text \<open>\<open>strings.IndexByte\<close>, with \<open>None\<close> for -1.\<close>

fun IndexByte :: "bytes \<Rightarrow> byte \<Rightarrow> nat option" where
  "IndexByte [] c = None"
| "IndexByte (b # s) c = (if b = c then Some 0 else map_option Suc (IndexByte s c))"

lemma IndexByte_less: "IndexByte s c = Some i \<Longrightarrow> i < length s"
  by (induction s arbitrary: i) (auto split: if_splits)

lemma trim_left_length: "length (trim_left x) \<le> length x"
  by (induction x) auto

lemma trim_right_length: "length (trim_right x) \<le> length x"
  by (induction x rule: trim_right.induct) (subst trim_right.simps, auto)

lemma trimOWS_length: "length (trimOWS x) \<le> length x"
  using trim_left_length [of x] trim_right_length [of "trim_left x"] by (simp add: trimOWS_def)

function headerValueContainsToken :: "bytes \<Rightarrow> bytes \<Rightarrow> (unit, bool) go" where
  "headerValueContainsToken v0 token =
     (let v = trimOWS v0
      in case IndexByte v (chr CHR '','') of
           Some comma \<Rightarrow>
             go_bind (tokenEqual (trimOWS (take comma v)) token) (\<lambda>eq.
               if eq then Ret True else headerValueContainsToken (drop (comma + 1) v) token)
         | None \<Rightarrow> tokenEqual v token)"
  by pat_completeness auto

termination
proof (relation "measure (length \<circ> fst)")
  fix v0 token v comma and eq :: bool
  assume "v = trimOWS v0" "IndexByte v (chr CHR '','') = Some comma"
  then show "((drop (comma + 1) v, token), v0, token) \<in> measure (length \<circ> fst)"
    using trimOWS_length [of v0] IndexByte_less [of v "chr CHR '',''" comma] by simp
qed simp

declare headerValueContainsToken.simps [simp del]

fun HeaderValuesContainsToken :: "bytes list \<Rightarrow> bytes \<Rightarrow> (unit, bool) go" where
  "HeaderValuesContainsToken [] token = Ret False"
| "HeaderValuesContainsToken (v # vs) token =
     go_bind (headerValueContainsToken v token) (\<lambda>found. if found then Ret True else HeaderValuesContainsToken vs token)"

definition isLWS :: "byte \<Rightarrow> bool" where
  "isLWS b \<longleftrightarrow> b = chr CHR '' '' \<or> b = chr CHR 0x09"

definition isCTL :: "byte \<Rightarrow> bool" where
  "isCTL b \<longleftrightarrow> b < chr CHR '' '' \<or> b = 0x7f"

definition ValidHeaderFieldName :: "bytes \<Rightarrow> bool" where
  "ValidHeaderFieldName v \<longleftrightarrow> length v \<noteq> 0 \<and> list_all (\<lambda>(i, r). IsTokenRune r) (runes v)"

definition validHostByte :: string where
  "validHostByte =
     ''0123456789'' @ ''abcdefghijklmnopqrstuvwxyz'' @ ''ABCDEFGHIJKLMNOPQRSTUVWXYZ'' @
     ''!$%&()*+,-.:;=['' @ [CHR 0x27] @ '']_~''"

definition ValidHostHeader :: "bytes \<Rightarrow> bool" where
  "ValidHostHeader h \<longleftrightarrow> list_all (\<lambda>b. b \<in> set (map of_char validHostByte)) h"

definition ValidHeaderFieldValue :: "bytes \<Rightarrow> bool" where
  "ValidHeaderFieldValue v \<longleftrightarrow> list_all (\<lambda>b. \<not> (isCTL b \<and> \<not> isLWS b)) v"

definition isASCII :: "bytes \<Rightarrow> bool" where
  "isASCII s \<longleftrightarrow> list_all (\<lambda>b. \<not> b \<ge> 0x80) s"

definition validWireHeaderFieldName :: "bytes \<Rightarrow> bool" where
  "validWireHeaderFieldName v \<longleftrightarrow>
     length v \<noteq> 0 \<and> list_all (\<lambda>(i, r). IsTokenRune r \<and> \<not> (of_char CHR ''A'' \<le> r \<and> r \<le> of_char CHR ''Z'')) (runes v)"

section \<open>The grammar\<close>

text \<open>\<open>tchar\<close>, \<open>VCHAR\<close> and \<open>obs-text\<close> of RFC 7230, by character code.\<close>

definition DIGIT :: "nat \<Rightarrow> bool" where "DIGIT c \<longleftrightarrow> 0x30 \<le> c \<and> c \<le> 0x39"
definition UPPER :: "nat \<Rightarrow> bool" where "UPPER c \<longleftrightarrow> 0x41 \<le> c \<and> c \<le> 0x5a"
definition LOWER :: "nat \<Rightarrow> bool" where "LOWER c \<longleftrightarrow> 0x61 \<le> c \<and> c \<le> 0x7a"

definition tchar :: "nat \<Rightarrow> bool" where
  "tchar c \<longleftrightarrow> DIGIT c \<or> UPPER c \<or> LOWER c \<or>
     c \<in> {0x21, 0x23, 0x24, 0x25, 0x26, 0x27, 0x2a, 0x2b, 0x2d, 0x2e, 0x5e, 0x5f, 0x60, 0x7c, 0x7e}"

definition field_char :: "nat \<Rightarrow> bool" where
  "field_char c \<longleftrightarrow> 0x21 \<le> c \<and> c \<le> 0x7e \<or> 0x80 \<le> c \<or> c = 0x20 \<or> c = 0x09"

definition host_char :: "nat \<Rightarrow> bool" where
  "host_char c \<longleftrightarrow> DIGIT c \<or> UPPER c \<or> LOWER c \<or>
     c \<in> {0x21, 0x24, 0x25, 0x26, 0x27, 0x28, 0x29, 0x2a, 0x2b, 0x2c, 0x2d, 0x2e, 0x3a, 0x3b, 0x3d, 0x5b, 0x5d, 0x5f, 0x7e}"

lemma tchar_ascii: "tchar c \<Longrightarrow> c < 0x80"
  by (auto simp: tchar_def DIGIT_def UPPER_def LOWER_def)

lemma token_codes:
  "map of_char isTokenTable =
     ([0x21, 0x23, 0x24, 0x25, 0x26, 0x27, 0x2a, 0x2b, 0x2d, 0x2e] @ [0x30..<0x3a] @ [0x41..<0x56] @ [0x57, 0x56] @
      [0x58..<0x5b] @ [0x5e, 0x5f, 0x60] @ [0x61..<0x7b] @ [0x7c, 0x7e] :: nat list)"
  by (simp add: isTokenTable_def)

lemma IsTokenRune_tchar: "IsTokenRune r = tchar r"
proof
  assume "IsTokenRune r"
  then show "tchar r"
    unfolding IsTokenRune_def token_codes set_append set_upt list.set Un_iff insert_iff atLeastLessThan_iff empty_iff
    by (elim conjE disjE) (simp_all add: tchar_def DIGIT_def UPPER_def LOWER_def)
next
  assume "tchar r"
  then show "IsTokenRune r"
    unfolding IsTokenRune_def token_codes set_append set_upt list.set Un_iff insert_iff atLeastLessThan_iff empty_iff
      tchar_def DIGIT_def UPPER_def LOWER_def
    by (elim conjE disjE) (simp_all, linarith+)
qed

lemma host_codes:
  "map of_char validHostByte =
     ([0x30..<0x3a] @ [0x61..<0x7b] @ [0x41..<0x5b] @
      [0x21, 0x24, 0x25, 0x26, 0x28, 0x29, 0x2a, 0x2b, 0x2c, 0x2d, 0x2e, 0x3a, 0x3b, 0x3d, 0x5b, 0x27, 0x5d, 0x5f, 0x7e] :: nat list)"
  by (simp add: validHostByte_def)

lemma validHostByte_char: "b \<in> set (map of_char validHostByte) \<longleftrightarrow> host_char (unat b)" for b :: byte
proof -
  have "b \<in> set (map of_char validHostByte) \<longleftrightarrow> unat b \<in> set (map unat (map of_char validHostByte :: byte list))"
    by (auto simp: word_unat_eq_iff)
  also have "map unat (map of_char validHostByte :: byte list) = map of_char validHostByte"
    by (simp add: validHostByte_def)
  also have "n \<in> set (map of_char validHostByte) \<longleftrightarrow> host_char n" for n
  proof
    assume "n \<in> set (map of_char validHostByte)"
    then show "host_char n"
      unfolding host_codes set_append set_upt list.set Un_iff insert_iff atLeastLessThan_iff empty_iff
      by (elim conjE disjE) (simp_all add: host_char_def DIGIT_def UPPER_def LOWER_def)
  next
    assume "host_char n"
    then show "n \<in> set (map of_char validHostByte)"
      unfolding host_codes set_append set_upt list.set Un_iff insert_iff atLeastLessThan_iff empty_iff
        host_char_def DIGIT_def UPPER_def LOWER_def
      by (elim conjE disjE) simp_all
  qed
  finally show ?thesis .
qed

section \<open>Tokens in a list\<close>

text \<open>The elements of a comma-separated list, and what is left of one without the white space around it.\<close>

fun elements :: "bytes \<Rightarrow> bytes list" where
  "elements [] = [[]]"
| "elements (c # s) =
     (if c = chr CHR '','' then [] # elements s
      else (case elements s of e # es \<Rightarrow> (c # e) # es | [] \<Rightarrow> [[c]]))"

definition strip :: "bytes \<Rightarrow> bytes" where
  "strip s = rev (dropWhile isOWS (rev (dropWhile isOWS s)))"

definition same_token :: "bytes \<Rightarrow> bytes \<Rightarrow> bool" where
  "same_token t1 t2 \<longleftrightarrow> (\<forall>b \<in> set t1. b < 0x80) \<and> map lowerASCII t1 = map lowerASCII t2"

lemma trim_left_dropWhile: "trim_left x = dropWhile isOWS x"
  by (induction x) simp_all

lemma trim_right_dropWhile: "trim_right x = rev (dropWhile isOWS (rev x))"
proof (induction x rule: rev_induct)
  case (snoc a x)
  then show ?case by (subst trim_right.simps) simp
qed (simp add: trim_right.simps)

lemma trimOWS_strip: "trimOWS x = strip x"
  by (simp add: trimOWS_def strip_def trim_left_dropWhile trim_right_dropWhile)

lemma token_loop_from:
  "length t2 = i + length t1 \<Longrightarrow>
   token_loop (runes_from i t1) t2 = Ret ((\<forall>b \<in> set t1. b < 0x80) \<and> map lowerASCII t1 = map lowerASCII (drop i t2))"
proof (induction t1 arbitrary: i)
  case (Cons b t1)
  show ?case
  proof (cases "unat b < 0x80")
    case True
    then have "b < 0x80" by (simp add: word_less_nat_alt)
    moreover have "drop i t2 = t2 ! i # drop (Suc i) t2" using Cons.prems by (simp add: Cons_nth_drop_Suc)
    ultimately show ?thesis using True Cons by (simp add: runes_from_ascii)
  next
    case False
    then obtain r rs where "runes_from i (b # t1) = (i, r) # rs" "0x80 \<le> r" using runes_from_other by (metis linorder_not_less)
    moreover have "\<not> b < 0x80" using False by (simp add: word_less_nat_alt)
    ultimately show ?thesis by simp
  qed
qed simp

lemma tokenEqual_same: "tokenEqual t1 t2 = Ret (same_token t1 t2)"
proof (cases "length t1 = length t2")
  case True
  then show ?thesis using token_loop_from [of t2 0 t1] by (simp add: tokenEqual_def same_token_def)
next
  case False
  then have "map lowerASCII t1 \<noteq> map lowerASCII t2" using map_eq_imp_length_eq by blast
  then show ?thesis using False by (simp add: tokenEqual_def same_token_def)
qed

lemma elements_not_Nil [simp]: "elements s \<noteq> []"
  by (induction s) (auto split: list.splits)

lemma elements_no_comma: "chr CHR '','' \<notin> set s \<Longrightarrow> elements s = [s]"
  by (induction s) auto

lemma elements_comma: "chr CHR '','' \<notin> set a \<Longrightarrow> elements (a @ chr CHR '','' # s) = a # elements s"
  by (induction a) auto

lemma comma_not_OWS [simp]: "isOWS c \<Longrightarrow> c \<noteq> 44"
  by (auto simp: isOWS_def)

lemma strip_Cons: "isOWS c \<Longrightarrow> strip (c # s) = strip s"
  by (simp add: strip_def)

lemma strip_snoc: "isOWS c \<Longrightarrow> strip (s @ [c]) = strip s"
  by (cases "\<forall>x \<in> set s. isOWS x") (auto simp: strip_def dropWhile_append dropWhile_eq_Nil_conv [symmetric] simp del: dropWhile_eq_Nil_conv)

lemma dropWhile_twice: "dropWhile P (dropWhile P xs) = dropWhile P xs"
  by (induction xs) simp_all

lemma strip_strip: "strip (strip s) = strip s"
proof -
  let ?t = "dropWhile isOWS s"
  let ?u = "rev (dropWhile isOWS (rev ?t))"
  have "?t = ?u @ rev (takeWhile isOWS (rev ?t))" by (metis rev_append rev_rev_ident takeWhile_dropWhile_id)
  then have "?u = [] \<or> \<not> isOWS (hd ?u)" by (metis append_is_Nil_conv hd_append2 hd_dropWhile)
  moreover have "u = [] \<or> \<not> isOWS (hd u) \<Longrightarrow> dropWhile isOWS u = u" for u by (cases u) auto
  ultimately have "dropWhile isOWS ?u = ?u" by blast
  then show ?thesis by (simp add: strip_def dropWhile_twice)
qed

lemma IndexByte_None: "IndexByte s c = None \<longleftrightarrow> c \<notin> set s"
  by (induction s) auto

lemma IndexByte_Some: "IndexByte s c = Some i \<Longrightarrow> \<exists>a z. s = a @ c # z \<and> length a = i \<and> c \<notin> set a"
proof (induction s arbitrary: i)
  case (Cons b s)
  show ?case
  proof (cases "b = c")
    case True
    then show ?thesis using Cons.prems by auto
  next
    case False
    then obtain j where j: "IndexByte s c = Some j" "i = Suc j" using Cons.prems by auto
    then obtain a z where "s = a @ c # z" "length a = j" "c \<notin> set a" using Cons.IH by blast
    then have "b # s = (b # a) @ c # z" "length (b # a) = i" "c \<notin> set (b # a)" using j False by auto
    then show ?thesis by blast
  qed
qed simp

definition listed :: "bytes \<Rightarrow> bytes \<Rightarrow> bool" where
  "listed token v \<longleftrightarrow> (\<exists>e \<in> set (elements v). same_token (strip e) token)"

lemma listed_Cons: "isOWS c \<Longrightarrow> listed token (c # v) = listed token v"
  by (cases "elements v") (auto simp: listed_def strip_Cons)

lemma elements_snoc:
  "c \<noteq> chr CHR '','' \<Longrightarrow> \<exists>es e. elements v = es @ [e] \<and> elements (v @ [c]) = es @ [e @ [c]]"
proof (induction v)
  case (Cons b v)
  then obtain es e where ih: "elements v = es @ [e]" "elements (v @ [c]) = es @ [e @ [c]]" by blast
  show ?case
  proof (cases "b = chr CHR '',''")
    case True
    then show ?thesis using ih by (intro exI [of _ "[] # es"] exI [of _ e]) simp
  next
    case False
    then show ?thesis using ih by (cases es) auto
  qed
qed simp

lemma listed_snoc: "isOWS c \<Longrightarrow> listed token (v @ [c]) = listed token v"
  using elements_snoc [of c v] strip_snoc [of c] by (auto simp: listed_def)

lemma listed_trim: "listed token (trimOWS v) = listed token v"
proof -
  have "listed token (dropWhile isOWS v) = listed token v" for v by (induction v) (simp_all add: listed_Cons)
  moreover have "listed token (rev (dropWhile isOWS (rev v))) = listed token v" for v
    by (induction v rule: rev_induct) (simp_all add: listed_snoc)
  ultimately show ?thesis by (simp add: trimOWS_strip strip_def)
qed

lemma headerValueContainsToken_listed: "headerValueContainsToken v token = Ret (listed token v)"
proof (induction v token rule: headerValueContainsToken.induct)
  case (1 v token)
  show ?case
  proof (cases "IndexByte (trimOWS v) (chr CHR '','')")
    case None
    then have "elements (trimOWS v) = [trimOWS v]" using IndexByte_None elements_no_comma by blast
    then have "listed token v = same_token (trimOWS v) token" using listed_trim [of token v] strip_strip by (simp add: listed_def trimOWS_strip)
    then show ?thesis using None by (subst headerValueContainsToken.simps) (simp add: tokenEqual_same)
  next
    case (Some i)
    then obtain a z where a: "trimOWS v = a @ chr CHR '','' # z" "length a = i" "chr CHR '','' \<notin> set a" using IndexByte_Some by blast
    have "listed token v \<longleftrightarrow> same_token (strip a) token \<or> listed token z"
      using listed_trim [of token v] elements_comma [OF a(3), of z] by (simp add: listed_def a(1))
    moreover have "\<not> same_token (strip a) token \<Longrightarrow> headerValueContainsToken z token = Ret (listed token z)"
      using 1 [OF refl Some, of False] a by (simp add: tokenEqual_same trimOWS_strip)
    ultimately show ?thesis using Some a
      by (subst headerValueContainsToken.simps) (simp add: tokenEqual_same trimOWS_strip)
  qed
qed

section \<open>Properties\<close>

lemma field_byte: "\<not> (isCTL b \<and> \<not> isLWS b) \<longleftrightarrow> field_char (unat b)"
proof -
  have "unat b < 256" using unsigned_less [of b] by simp
  then show ?thesis by (auto simp: isCTL_def isLWS_def field_char_def word_less_nat_alt word_unat_eq_iff)
qed

lemma all_token_runes:
  assumes "\<And>r. P r \<Longrightarrow> IsTokenRune r"
  shows "list_all (\<lambda>(i, r). P r) (runes v) \<longleftrightarrow> list_all (\<lambda>b. P (unat b)) v"
proof -
  have "P r \<Longrightarrow> r < 0x80" for r using assms tchar_ascii IsTokenRune_tchar by blast
  then show ?thesis using runes_ascii [of P 0 v] by (simp add: list_all_iff)
qed

lemma wire_name_chars: "validWireHeaderFieldName v \<longleftrightarrow> v \<noteq> [] \<and> list_all (\<lambda>b. tchar (unat b) \<and> \<not> UPPER (unat b)) v"
  unfolding validWireHeaderFieldName_def by (subst all_token_runes) (simp_all add: IsTokenRune_tchar UPPER_def)


text \<open>C27: \<open>HeaderValuesContainsToken\<close> returns, without an index out of range, whether some element of some
  comma-separated value, without the blanks around it, is the token up to ASCII case. Empty elements,
  blanks next to the commas and non-ASCII bytes (which never match) make no difference to that.\<close>

theorem header_values_listed:
  "HeaderValuesContainsToken vals token =
     Ret (list_ex (\<lambda>v. list_ex (\<lambda>e. same_token (strip e) token) (elements v)) vals)"
proof (induction vals)
  case (Cons v vs)
  then show ?case by (simp add: headerValueContainsToken_listed listed_def list_ex_iff)
qed simp

end
