(* ===== verification/Hpack_Varint.thy ===== *)
theory Hpack_Varint
  imports Go_Prelude
begin

text \<open>
  HPACK's prefixed variable-length integers (golang.org/x/net/http2/hpack): \<open>appendVarInt\<close> of
  encode.go and \<open>readVarInt\<close> of hpack.go, with the errors of the whole package.
\<close>

section \<open>Model\<close>

datatype hpack_error =
    ErrNeedMore
  | ErrVarintOverflow
  | ErrStringLength
  | ErrInvalidHuffman
  | ErrInvalidEncoding
  | InvalidIndexError u64
  | ErrTableSizeTooLarge
  | ErrTruncatedHeaders

text \<open>The loop \<open>for ; i >= 128; i >>= 7\<close> and the final append of \<open>appendVarInt\<close>.\<close>

function appendVarInt_loop :: "bytes \<Rightarrow> u64 \<Rightarrow> bytes" where
  "appendVarInt_loop dst i =
     (if 128 \<le> i then appendVarInt_loop (dst @ [ucast (0x80 OR (i AND 0x7f))]) (drop_bit 7 i)
      else dst @ [ucast i])"
  by pat_completeness auto
termination
  by (relation "measure (unat \<circ> snd)") (auto simp: drop_bit_eq_div unat_div word_le_nat_alt)

definition appendVarInt :: "bytes \<Rightarrow> nat \<Rightarrow> u64 \<Rightarrow> bytes" where
  "appendVarInt dst n i =
     (let k = push_bit n 1 - 1
      in if i < k then dst @ [ucast i] else appendVarInt_loop (dst @ [ucast k]) (i - k))"

text \<open>The loop of \<open>readVarInt\<close> over the bytes after the prefix; \<open>m\<close> is the shift.\<close>

fun readVarInt_loop :: "u64 \<Rightarrow> nat \<Rightarrow> bytes \<Rightarrow> (hpack_error, u64 \<times> bytes) go" where
  "readVarInt_loop i m [] = Fail ErrNeedMore"
| "readVarInt_loop i m (b # p) =
     (let i' = i + push_bit m (ucast (b AND 127))
      in if b AND 128 = 0 then Ret (i', p)
         else if m + 7 \<ge> 63 then Fail ErrVarintOverflow
         else readVarInt_loop i' (m + 7) p)"

definition readVarInt :: "nat \<Rightarrow> bytes \<Rightarrow> (hpack_error, u64 \<times> bytes) go" where
  "readVarInt n p =
     (if n < 1 \<or> n > 8 then Panic
      else case p of
        [] \<Rightarrow> Fail ErrNeedMore
      | b # p' \<Rightarrow>
          (let i = (if n < 8 then ucast b AND (push_bit n 1 - 1) else ucast b)
           in if i < push_bit n 1 - 1 then Ret (i, p') else readVarInt_loop i 0 p'))"

section \<open>Lemmas\<close>

declare appendVarInt_loop.simps [simp del]

lemma appendVarInt_loop_append: "appendVarInt_loop (d @ dst) i = d @ appendVarInt_loop dst i"
proof (induction dst i rule: appendVarInt_loop.induct)
  case (1 dst i)
  then show ?case
    by (cases "128 \<le> i") (simp_all add: appendVarInt_loop.simps [of _ i])
qed

lemma appendVarInt_loop_cont:
  "128 \<le> v \<Longrightarrow>
   appendVarInt_loop [] v = ucast (0x80 OR (v AND 0x7f)) # appendVarInt_loop [] (drop_bit 7 v)"
  using appendVarInt_loop_append [of "[_]" "[]"] by (simp add: appendVarInt_loop.simps [of _ v])

lemma appendVarInt_append: "appendVarInt dst n i = dst @ appendVarInt [] n i"
  using appendVarInt_loop_append [of dst "[_]"] by (simp add: appendVarInt_def Let_def)

lemma cont_byte_low: "(ucast ((0x80 :: u64) OR (v AND 0x7f)) :: byte) AND 127 = ucast (v AND 0x7f)"
  by (rule bit_word_eqI) (auto simp: bit_simps)

lemma cont_byte_high: "(ucast ((0x80 :: u64) OR (v AND 0x7f)) :: byte) AND 128 \<noteq> 0"
  by (rule bit_nonzero [of _ 7]) (simp add: bit_simps)

lemma and_127_eq_take_bit: "v AND 127 = take_bit 7 (v :: 'a::len word)"
  by (simp add: take_bit_eq_mask mask_eq_exp_minus_1)

lemma and_127_self: "(v :: u64) < 128 \<Longrightarrow> v AND 127 = v"
  by (simp add: and_127_eq_take_bit take_bit_word_self word_less_nat_alt)

lemma low_byte:
  "(ucast (v AND 127) :: byte) AND 128 = 0"
  "(ucast (v AND 127) :: byte) AND 127 = ucast (v AND 127)"
  "ucast (ucast (v AND 127) :: byte) = (v :: u64) AND 127" for v :: u64
  by (rule bit_word_eqI; auto simp: bit_simps)+

lemma last_byte:
  assumes "(v :: u64) < 128"
  shows "(ucast v :: byte) AND 128 = 0" "ucast ((ucast v :: byte) AND 127) = v"
  using low_byte [of v] by (simp_all add: and_127_self [OF assms])

lemma split7: "(v AND 127) + push_bit 7 (drop_bit 7 v) = (v :: u64)"
  using bits_ident [of 7 v] by (simp only: and_127_eq_take_bit add.commute)

text \<open>The decoding loop inverts the encoding loop while 63 bits are enough ...\<close>

lemma readVarInt_loop_append:
  "unat v < 2 ^ (63 - m) \<Longrightarrow> m < 63 \<Longrightarrow>
   readVarInt_loop i m (appendVarInt_loop [] v @ rest) = Ret (i + push_bit m v, rest)"
proof (induction "unat v" arbitrary: v m i rule: less_induct)
  case less
  show ?case
  proof (cases "128 \<le> v")
    case True
    then have "2 ^ 7 \<le> unat v" by (simp add: word_le_nat_alt)
    with less.prems have "(2::nat) ^ 7 < 2 ^ (63 - m)" by linarith
    then have "7 < 63 - m" using power_less_imp_less_exp [of 2 7 "63 - m"] by simp
    then have m: "m + 7 < 63" by simp
    have lt: "unat (drop_bit 7 v) < unat v"
      using True by (simp add: unat_drop_bit word_le_nat_alt)
    have "(2::nat) ^ (63 - m) = 2 ^ (63 - (m + 7)) * 2 ^ 7"
      using m by (subst power_add [symmetric]) (rule arg_cong, simp)
    with less.prems(1) have "unat (drop_bit 7 v) < 2 ^ (63 - (m + 7))"
      by (simp add: unat_drop_bit less_mult_imp_div_less)
    note IH = less.hyps [OF lt this m]
    have "push_bit m (v AND 127) + push_bit (m + 7) (drop_bit 7 v) = push_bit m v"
      by (simp only: push_bit_add push_bit_push_bit [symmetric] split7)
    with True m IH show ?thesis
      by (simp add: appendVarInt_loop_cont cont_byte_low cont_byte_high low_byte add.assoc)
  next
    case False
    then show ?thesis by (simp add: appendVarInt_loop.simps last_byte)
  qed
qed

text \<open>... and reports an overflow beyond them.\<close>

lemma readVarInt_loop_overflow:
  "2 ^ (63 - 7 * j) \<le> unat v \<Longrightarrow> j \<le> 8 \<Longrightarrow>
   readVarInt_loop i (7 * j) (appendVarInt_loop [] v @ rest) = Fail ErrVarintOverflow"
proof (induction "8 - j" arbitrary: v j i)
  case 0
  then have "j = 8" by simp
  with 0 have "128 \<le> v" by (simp add: word_le_nat_alt)
  with \<open>j = 8\<close> show ?case by (simp add: appendVarInt_loop_cont cont_byte_high)
next
  case (Suc n)
  have le: "7 * j + 7 \<le> 56" using Suc.hyps(2) by simp
  have "(2::nat) ^ 7 \<le> 2 ^ (63 - 7 * j)" using le by (intro power_increasing) auto
  then have v: "128 \<le> v" using Suc.prems by (simp add: word_le_nat_alt)
  have "(2::nat) ^ (63 - 7 * j) = 2 ^ (63 - 7 * Suc j) * 2 ^ 7"
    using le by (subst power_add [symmetric]) (rule arg_cong, simp)
  with Suc.prems(1) have "2 ^ (63 - 7 * Suc j) \<le> unat (drop_bit 7 v)"
    by (simp add: unat_drop_bit less_eq_div_iff_mult_less_eq)
  from Suc.hyps(1) [OF _ this] Suc.hyps(2) le v show ?case
    by (simp add: appendVarInt_loop_cont cont_byte_high add.commute)
qed

text \<open>What the first byte of an encoding carries, under any flag above the prefix.\<close>

lemma prefix_byte:
  assumes "n \<le> 8" "unat (x :: u64) < 2 ^ n" "take_bit n (flag :: byte) = 0"
  shows "(if n < 8 then ucast (ucast x OR flag :: byte) AND mask n else ucast (ucast x OR flag :: byte)) = x"
proof -
  have x: "take_bit n x = x" by (rule take_bit_word_self [OF assms(2)])
  have flag: "\<not> bit flag j" if "j < n" for j
    using assms(3) that by (metis bit_0_eq bit_take_bit_iff bot_apply bot_bool_def)
  have xb: "j < n" if "bit x j" for j
    using x that by (metis bit_take_bit_iff)
  have "n = 8 \<Longrightarrow> flag = 0" using assms(3) by (simp add: take_bit_word_beyond_length_eq)
  with assms(1) show ?thesis
    by (cases "n = 8"; intro bit_word_eqI) (use assms(1) in \<open>auto simp: bit_simps flag dest: xb\<close>)
qed

lemma mask_lt: "unat (mask n :: u64) < 2 ^ n"
  by (metis take_bit_minus_one_eq_mask unsigned_take_bit_eq take_bit_nat_less_exp)

lemma readVarInt_Cons:
  "1 \<le> n \<Longrightarrow> n \<le> 8 \<Longrightarrow> unat x < 2 ^ n \<Longrightarrow> take_bit n flag = 0 \<Longrightarrow>
   readVarInt n ((ucast x OR flag) # p) = (if x < mask n then Ret (x, p) else readVarInt_loop x 0 p)"
  unfolding readVarInt_def push_bit_1_minus_1 list.case Let_def
  by (subst (1 2 3) prefix_byte) auto

text \<open>What is decoded depends on a non-empty prefix of the input only, and errors other than
  \<open>errNeedMore\<close> stay when more bytes arrive.\<close>

lemma readVarInt_loop_split:
  "readVarInt_loop i m p = Ret (v, r) \<Longrightarrow>
   \<exists>c. p = c @ r \<and> (\<forall>r'. readVarInt_loop i m (c @ r') = Ret (v, r'))"
proof (induction i m p rule: readVarInt_loop.induct)
  case (1 i m)
  then show ?case by simp
next
  case (2 i m b p)
  show ?case
  proof (cases "b AND 128 = 0")
    case True
    with "2.prems" show ?thesis by (intro exI [of _ "[b]"]) (simp add: Let_def)
  next
    case False
    with 2 obtain c where "p = c @ r"
      "\<forall>r'. readVarInt_loop (i + push_bit m (ucast (b AND 127))) (m + 7) (c @ r') = Ret (v, r')"
      by (auto simp: Let_def split: if_splits)
    with False "2.prems" show ?thesis by (intro exI [of _ "b # c"]) (auto simp: Let_def split: if_splits)
  qed
qed

lemma readVarInt_split:
  assumes "readVarInt n p = Ret (v, r)"
  shows "\<exists>c. c \<noteq> [] \<and> p = c @ r \<and> (\<forall>r'. readVarInt n (c @ r') = Ret (v, r'))"
proof (cases p)
  case Nil
  with assms show ?thesis by (simp add: readVarInt_def split: if_splits)
next
  case (Cons b p')
  let ?i = "if n < 8 then ucast b AND (push_bit n 1 - 1) else ucast b :: u64"
  show ?thesis
  proof (cases "?i < push_bit n 1 - 1")
    case True
    with assms Cons show ?thesis
      by (intro exI [of _ "[b]"]) (auto simp: readVarInt_def Let_def split: if_splits)
  next
    case False
    with assms Cons have "readVarInt_loop ?i 0 p' = Ret (v, r)"
      by (auto simp: readVarInt_def Let_def split: if_splits)
    from readVarInt_loop_split [OF this] obtain c where
      "p' = c @ r" "\<forall>r'. readVarInt_loop ?i 0 (c @ r') = Ret (v, r')" by blast
    with False assms Cons show ?thesis
      by (intro exI [of _ "b # c"]) (auto simp: readVarInt_def Let_def split: if_splits)
  qed
qed

lemma readVarInt_loop_Fail_append:
  "readVarInt_loop i m p = Fail e \<Longrightarrow> e \<noteq> ErrNeedMore \<Longrightarrow> readVarInt_loop i m (p @ q) = Fail e"
  by (induction i m p rule: readVarInt_loop.induct) (auto simp: Let_def split: if_splits)

lemma readVarInt_Fail_append:
  "readVarInt n p = Fail e \<Longrightarrow> e \<noteq> ErrNeedMore \<Longrightarrow> readVarInt n (p @ q) = Fail e"
  by (cases p)
    (auto simp: readVarInt_def Let_def readVarInt_loop_Fail_append split: if_splits)

lemma readVarInt_loop_no_panic [simp]: "readVarInt_loop i m p \<noteq> Panic"
  by (induction i m p rule: readVarInt_loop.induct) (auto simp: Let_def)

lemma readVarInt_no_panic: "1 \<le> n \<Longrightarrow> n \<le> 8 \<Longrightarrow> readVarInt n p \<noteq> Panic"
  by (auto simp: readVarInt_def Let_def split: list.splits)

lemma readVarInt_Fail_cases:
  "readVarInt n p = Fail e \<Longrightarrow> e = ErrNeedMore \<or> e = ErrVarintOverflow"
proof -
  have "readVarInt_loop i m p = Fail e \<Longrightarrow> e = ErrNeedMore \<or> e = ErrVarintOverflow" for i m p
    by (induction i m p rule: readVarInt_loop.induct) (auto simp: Let_def split: if_splits)
  then show "readVarInt n p = Fail e \<Longrightarrow> e = ErrNeedMore \<or> e = ErrVarintOverflow"
    by (auto simp: readVarInt_def Let_def split: if_splits list.splits)
qed

lemma readVarInt_of_append:
  assumes "1 \<le> n" "n \<le> 8" "take_bit n flag = 0"
  shows "readVarInt n (or_at 0 flag (appendVarInt [] n i) @ rest) =
    (if push_bit n 1 - 1 \<le> i \<and> 2 ^ 63 \<le> unat (i - (push_bit n 1 - 1))
     then Fail ErrVarintOverflow else Ret (i, rest))"
proof (cases "i < mask n")
  case True
  with assms mask_lt [of n] have "unat i < 2 ^ n" by (simp add: word_less_nat_alt)
  moreover have "or_at 0 flag (appendVarInt [] n i) = [ucast i OR flag]"
    using True by (simp only: appendVarInt_def push_bit_1_minus_1 Let_def) (simp add: or_at_def)
  ultimately show ?thesis
    using True assms readVarInt_Cons [of n i flag] by (auto simp: push_bit_1_minus_1 simp del: push_bit_of_1)
next
  case False
  define k :: u64 where "k = mask n"
  have k: "unat k < 2 ^ n" using assms mask_lt [of n] by (simp add: k_def)
  have "or_at 0 flag (appendVarInt [] n i) = (ucast k OR flag) # appendVarInt_loop [] (i - k)"
    using False appendVarInt_loop_append [of "[ucast k]" "[]" "i - k"]
    by (simp only: appendVarInt_def push_bit_1_minus_1 k_def Let_def) (simp add: or_at_def)
  then have "readVarInt n (or_at 0 flag (appendVarInt [] n i) @ rest) =
      readVarInt_loop k 0 (appendVarInt_loop [] (i - k) @ rest)"
    using assms k readVarInt_Cons [of n k flag] by (simp add: k_def)
  then show ?thesis
    using False readVarInt_loop_append [of "i - k" 0] readVarInt_loop_overflow [of 0 "i - k"]
    by (auto simp: push_bit_1_minus_1 k_def [symmetric] simp del: push_bit_of_1)
qed

lemma appendVarInt_first:
  assumes "n \<le> 8"
  shows "\<exists>x t. appendVarInt [] n i = ucast x # t \<and> unat (x :: u64) < 2 ^ n"
proof (cases "i < mask n")
  case True
  then have "appendVarInt [] n i = [ucast i]"
    by (simp only: appendVarInt_def push_bit_1_minus_1 Let_def) simp
  moreover have "unat i < 2 ^ n" using True assms mask_lt [of n] by (simp add: word_less_nat_alt)
  ultimately show ?thesis by auto
next
  case False
  then have "appendVarInt [] n i = ucast (mask n :: u64) # appendVarInt_loop [] (i - mask n)"
    using appendVarInt_loop_append [of "[ucast (mask n :: u64)]" "[]" "i - mask n"]
    by (simp only: appendVarInt_def push_bit_1_minus_1 Let_def) simp
  moreover have "unat (mask n :: u64) < 2 ^ n" using assms mask_lt [of n] by simp
  ultimately show ?thesis by auto
qed

section \<open>Properties\<close>

text \<open>C25: reading back an integer written by \<open>appendVarInt\<close> with any prefix length 1 to 8, any flag
  bits above the prefix and any bytes after it, gives the integer and the bytes after it; the
  only integers that do not come back are those whose excess over the prefix needs more than
  63 bits, which are reported as an overflow.\<close>

theorem readVarInt_appendVarInt:
  assumes "1 \<le> n" "n \<le> 8" "take_bit n flag = 0"
  shows "readVarInt n (or_at 0 flag (appendVarInt [] n i) @ rest) =
    (if push_bit n 1 - 1 \<le> i \<and> 2 ^ 63 \<le> unat (i - (push_bit n 1 - 1))
     then Fail ErrVarintOverflow else Ret (i, rest))"
  using assms by (rule readVarInt_of_append)

text \<open>The example of RFC 7541 C.1.2, under the flag of a table size update.\<close>

theorem readVarInt_appendVarInt_witness:
  "appendVarInt [] 5 1337 = [31, 154, 10] \<and>
   readVarInt 5 (or_at 0 0x20 (appendVarInt [] 5 1337) @ [7]) = Ret (1337, [7])"
proof
  show "appendVarInt [] 5 1337 = [31, 154, 10]"
    by (simp add: appendVarInt_def appendVarInt_loop.simps)
  show "readVarInt 5 (or_at 0 0x20 (appendVarInt [] 5 1337) @ [7]) = Ret (1337, [7])"
    using readVarInt_appendVarInt [of 5 "0x20" 1337 "[7]"] by simp
qed

end
