(* ===== verification/Hpack_Table.thy ===== *)
theory Hpack_Table
  imports Hpack_Varint
begin

text \<open>
  The header tables of HPACK: \<open>headerFieldTable\<close> with its two name indexes and the static table
  (tables.go), header fields and the size-bounded dynamic table (hpack.go).
\<close>

section \<open>Model\<close>

record HeaderField =
  Name :: bytes
  Value :: bytes
  Sensitive :: bool

definition IsPseudo :: "HeaderField \<Rightarrow> bool" where
  "IsPseudo hf \<longleftrightarrow> (case Name hf of [] \<Rightarrow> False | c # _ \<Rightarrow> c = of_char (CHR '':''))"

text \<open>\<open>uint32(len(hf.Name) + len(hf.Value) + 32)\<close>, wrapping as the source says it may.\<close>

definition Size :: "HeaderField \<Rightarrow> u32" where
  "Size hf = word_of_nat (length (Name hf) + length (Value hf) + 32)"

record headerFieldTable =
  ents :: "HeaderField list"
  evictCount :: u64
  byName :: "bytes \<rightharpoonup> u64"
  byNameValue :: "bytes \<times> bytes \<rightharpoonup> u64"

definition table_init :: headerFieldTable where
  "table_init = \<lparr>ents = [], evictCount = 0, byName = Map.empty, byNameValue = Map.empty\<rparr>"

definition table_len :: "headerFieldTable \<Rightarrow> nat" where
  "table_len t = length (ents t)"

definition addEntry :: "headerFieldTable \<Rightarrow> HeaderField \<Rightarrow> headerFieldTable" where
  "addEntry t f =
     (let uid = word_of_nat (table_len t) + evictCount t + 1
      in t\<lparr>byName := (byName t)(Name f \<mapsto> uid),
           byNameValue := (byNameValue t)((Name f, Value f) \<mapsto> uid),
           ents := ents t @ [f]\<rparr>)"

text \<open>The loop of \<open>evictOldest\<close> that forgets the evicted entries in both indexes.\<close>

fun evict_index :: "nat \<Rightarrow> HeaderField list \<Rightarrow> headerFieldTable \<Rightarrow> headerFieldTable" where
  "evict_index k [] t = t"
| "evict_index k (f # fs) t =
     (let uid = evictCount t + word_of_nat k + 1;
          t1 = (if map_get (byName t) (Name f) = uid then t\<lparr>byName := (byName t)(Name f := None)\<rparr> else t);
          p = (Name f, Value f);
          t2 = (if map_get (byNameValue t1) p = uid then t1\<lparr>byNameValue := (byNameValue t1)(p := None)\<rparr> else t1)
      in evict_index (Suc k) fs t2)"

definition evictOldest :: "headerFieldTable \<Rightarrow> nat \<Rightarrow> (hpack_error, headerFieldTable) go" where
  "evictOldest t n =
     (if n > table_len t then Panic
      else let t1 = evict_index 0 (take n (ents t)) t;
               t2 = t1\<lparr>ents := drop n (ents t1)\<rparr>
           in if evictCount t2 + word_of_nat n < evictCount t2 then Panic
              else Ret (t2\<lparr>evictCount := evictCount t2 + word_of_nat n\<rparr>))"

text \<open>\<open>idToIndex\<close> compares its receiver with the global \<open>staticTable\<close>: \<open>static\<close> is that comparison.\<close>

definition idToIndex :: "bool \<Rightarrow> headerFieldTable \<Rightarrow> u64 \<Rightarrow> (hpack_error, u64) go" where
  "idToIndex static t uid =
     (if uid \<le> evictCount t then Panic
      else let k = uid - evictCount t - 1
           in Ret (if \<not> static then word_of_nat (table_len t) - k else k + 1))"

definition search :: "bool \<Rightarrow> headerFieldTable \<Rightarrow> HeaderField \<Rightarrow> (hpack_error, u64 \<times> bool) go" where
  "search static t f =
     (let uid = map_get (byNameValue t) (Name f, Value f)
      in if \<not> Sensitive f \<and> uid \<noteq> 0 then go_bind (idToIndex static t uid) (\<lambda>i. Ret (i, True))
         else let uid = map_get (byName t) (Name f)
              in if uid \<noteq> 0 then go_bind (idToIndex static t uid) (\<lambda>i. Ret (i, False))
                 else Ret (0, False))"

definition static_entry :: "string \<Rightarrow> string \<Rightarrow> HeaderField" where
  "static_entry n v = \<lparr>Name = bytes_of n, Value = bytes_of v, Sensitive = False\<rparr>"

definition staticTableEntries :: "HeaderField list" where
  "staticTableEntries =
    [static_entry '':authority'' '''',
     static_entry '':method'' ''GET'',
     static_entry '':method'' ''POST'',
     static_entry '':path'' ''/'',
     static_entry '':path'' ''/index.html'',
     static_entry '':scheme'' ''http'',
     static_entry '':scheme'' ''https'',
     static_entry '':status'' ''200'',
     static_entry '':status'' ''204'',
     static_entry '':status'' ''206'',
     static_entry '':status'' ''304'',
     static_entry '':status'' ''400'',
     static_entry '':status'' ''404'',
     static_entry '':status'' ''500'',
     static_entry ''accept-charset'' '''',
     static_entry ''accept-encoding'' ''gzip, deflate'',
     static_entry ''accept-language'' '''',
     static_entry ''accept-ranges'' '''',
     static_entry ''accept'' '''',
     static_entry ''access-control-allow-origin'' '''',
     static_entry ''age'' '''',
     static_entry ''allow'' '''',
     static_entry ''authorization'' '''',
     static_entry ''cache-control'' '''',
     static_entry ''content-disposition'' '''',
     static_entry ''content-encoding'' '''',
     static_entry ''content-language'' '''',
     static_entry ''content-length'' '''',
     static_entry ''content-location'' '''',
     static_entry ''content-range'' '''',
     static_entry ''content-type'' '''',
     static_entry ''cookie'' '''',
     static_entry ''date'' '''',
     static_entry ''etag'' '''',
     static_entry ''expect'' '''',
     static_entry ''expires'' '''',
     static_entry ''from'' '''',
     static_entry ''host'' '''',
     static_entry ''if-match'' '''',
     static_entry ''if-modified-since'' '''',
     static_entry ''if-none-match'' '''',
     static_entry ''if-range'' '''',
     static_entry ''if-unmodified-since'' '''',
     static_entry ''last-modified'' '''',
     static_entry ''link'' '''',
     static_entry ''location'' '''',
     static_entry ''max-forwards'' '''',
     static_entry ''proxy-authenticate'' '''',
     static_entry ''proxy-authorization'' '''',
     static_entry ''range'' '''',
     static_entry ''referer'' '''',
     static_entry ''refresh'' '''',
     static_entry ''retry-after'' '''',
     static_entry ''server'' '''',
     static_entry ''set-cookie'' '''',
     static_entry ''strict-transport-security'' '''',
     static_entry ''transfer-encoding'' '''',
     static_entry ''user-agent'' '''',
     static_entry ''vary'' '''',
     static_entry ''via'' '''',
     static_entry ''www-authenticate'' '''']"

definition newStaticTable :: headerFieldTable where
  "newStaticTable = foldl addEntry table_init staticTableEntries"

definition staticTable :: headerFieldTable where
  "staticTable = newStaticTable"

record dynamicTable =
  table :: headerFieldTable
  dsize :: u32
  maxSize :: u32
  allowedMaxSize :: u32

text \<open>The loop of \<open>evict\<close>: the entries it walks over, the size, and the count \<open>n\<close> of evicted ones.\<close>

fun evict_loop :: "HeaderField list \<Rightarrow> u32 \<Rightarrow> u32 \<Rightarrow> nat \<Rightarrow> u32 \<times> nat" where
  "evict_loop [] mx sz n = (sz, n)"
| "evict_loop (f # fs) mx sz n =
     (if mx < sz then evict_loop fs mx (sz - Size f) (Suc n) else (sz, n))"

definition evict :: "dynamicTable \<Rightarrow> (hpack_error, dynamicTable) go" where
  "evict dt =
     (let (sz, n) = evict_loop (ents (table dt)) (maxSize dt) (dsize dt) 0
      in go_bind (evictOldest (table dt) n) (\<lambda>t. Ret (dt\<lparr>dsize := sz, table := t\<rparr>)))"

definition setMaxSize :: "dynamicTable \<Rightarrow> u32 \<Rightarrow> (hpack_error, dynamicTable) go" where
  "setMaxSize dt v = evict (dt\<lparr>maxSize := v\<rparr>)"

definition dyn_add :: "dynamicTable \<Rightarrow> HeaderField \<Rightarrow> (hpack_error, dynamicTable) go" where
  "dyn_add dt f =
     evict (dt\<lparr>table := addEntry (table dt) f, dsize := dsize dt + Size f\<rparr>)"

section \<open>Indexes of the newest entry with a key\<close>

text \<open>The position of the last element satisfying \<open>P\<close>: what both indexes record.\<close>

fun last_index :: "('a \<Rightarrow> bool) \<Rightarrow> 'a list \<Rightarrow> nat option" where
  "last_index P [] = None"
| "last_index P (x # xs) =
     (case last_index P xs of Some k \<Rightarrow> Some (Suc k) | None \<Rightarrow> if P x then Some 0 else None)"

lemma last_index_snoc [simp]:
  "last_index P (xs @ [x]) = (if P x then Some (length xs) else last_index P xs)"
  by (induction xs) (auto split: option.splits)

lemma last_index_None: "last_index P xs = None \<longleftrightarrow> (\<forall>x \<in> set xs. \<not> P x)"
  by (induction xs) (auto split: option.splits)

lemma last_index_Some: "last_index P xs = Some k \<Longrightarrow> k < length xs \<and> P (xs ! k)"
  by (induction xs arbitrary: k) (auto split: option.splits if_splits)

lemma last_index_drop:
  "last_index P (drop n xs) =
     (case last_index P xs of None \<Rightarrow> None | Some k \<Rightarrow> if k < n then None else Some (k - n))"
proof (induction xs arbitrary: n)
  case (Cons x xs)
  then show ?case by (cases n) (auto split: option.splits)
qed simp

lemma last_index_newest:
  assumes "last_index P xs = Some k" "k < j" "j < length xs"
  shows "\<not> P (xs ! j)"
proof -
  have "last_index P (drop (Suc k) xs) = None" using assms(1) by (simp add: last_index_drop)
  moreover have "xs ! j \<in> set (drop (Suc k) xs)"
    using assms(2,3) by (auto simp: in_set_conv_nth intro!: exI [of _ "j - Suc k"])
  ultimately show ?thesis by (auto simp: last_index_None)
qed

section \<open>The two indexes stay exact\<close>

text \<open>Entry \<open>k\<close> of a table whose \<open>evictCount\<close> is \<open>base\<close> has the unique id \<open>base + k + 1\<close>; an index is
  exact when it maps every key to the id of the newest entry with that key.\<close>

abbreviation uid_of :: "u64 \<Rightarrow> nat \<Rightarrow> u64" where
  "uid_of base k \<equiv> base + word_of_nat k + 1"

definition index_ok :: "('f \<Rightarrow> 'k) \<Rightarrow> u64 \<Rightarrow> 'f list \<Rightarrow> ('k \<rightharpoonup> u64) \<Rightarrow> bool" where
  "index_ok key base xs m \<longleftrightarrow> (\<forall>n. m n = map_option (uid_of base) (last_index (\<lambda>f. key f = n) xs))"

abbreviation name_value :: "HeaderField \<Rightarrow> bytes \<times> bytes" where
  "name_value f \<equiv> (Name f, Value f)"

definition table_wf :: "headerFieldTable \<Rightarrow> bool" where
  "table_wf t \<longleftrightarrow> index_ok Name (evictCount t) (ents t) (byName t) \<and>
     index_ok name_value (evictCount t) (ents t) (byNameValue t)"

text \<open>The number of entries ever added, which the source argues cannot overflow.\<close>

definition table_count :: "headerFieldTable \<Rightarrow> nat" where
  "table_count t = unat (evictCount t) + length (ents t)"

lemma unat_uid_of:
  assumes "unat base + k + 1 < 2 ^ 64"
  shows "unat (uid_of base k) = unat base + k + 1"
proof -
  have "uid_of base k = word_of_nat (unat base + k + 1)" by simp
  then show ?thesis using assms by (simp only: unat_of_nat) simp
qed

lemma uid_of_inj:
  "unat base + k + 1 < 2 ^ 64 \<Longrightarrow> unat base + j + 1 < 2 ^ 64 \<Longrightarrow> uid_of base k = uid_of base j \<longleftrightarrow> k = j"
  by (metis add_left_cancel add_right_cancel unat_uid_of)

lemma uid_of_nonzero: "unat base + k + 1 < 2 ^ 64 \<Longrightarrow> uid_of base k \<noteq> 0"
  using unat_uid_of [of base k] by auto

lemma index_ok_init: "index_ok key base [] Map.empty"
  by (simp add: index_ok_def)

lemma index_ok_add: "index_ok key base xs m \<Longrightarrow>
    index_ok key base (xs @ [f]) (m(key f \<mapsto> word_of_nat (length xs) + base + 1))"
  by (auto simp: index_ok_def)

lemma table_wf_init: "table_wf table_init"
  by (simp add: table_wf_def table_init_def index_ok_init)

lemma table_wf_addEntry: "table_wf t \<Longrightarrow> table_wf (addEntry t f)"
  using index_ok_add [of Name "evictCount t" "ents t" "byName t" f]
    index_ok_add [of name_value "evictCount t" "ents t" "byNameValue t" f]
  by (simp add: table_wf_def addEntry_def table_len_def Let_def)

text \<open>One index under the forgetting loop of \<open>evictOldest\<close>.\<close>

fun evict_map :: "('f \<Rightarrow> 'k) \<Rightarrow> u64 \<Rightarrow> nat \<Rightarrow> 'f list \<Rightarrow> ('k \<rightharpoonup> u64) \<Rightarrow> ('k \<rightharpoonup> u64)" where
  "evict_map key base k [] m = m"
| "evict_map key base k (f # fs) m =
     evict_map key base (Suc k) fs (if map_get m (key f) = uid_of base k then m(key f := None) else m)"

lemma evict_index_fields [simp]:
  "byName (evict_index k fs t) = evict_map Name (evictCount t) k fs (byName t)"
  "byNameValue (evict_index k fs t) = evict_map name_value (evictCount t) k fs (byNameValue t)"
  "ents (evict_index k fs t) = ents t"
  "evictCount (evict_index k fs t) = evictCount t"
  by (induction k fs t rule: evict_index.induct) (simp_all add: Let_def)

text \<open>What is left of an exact index when the ids of the first \<open>j\<close> entries are forgotten.\<close>

definition index_from :: "('f \<Rightarrow> 'k) \<Rightarrow> u64 \<Rightarrow> 'f list \<Rightarrow> nat \<Rightarrow> 'k \<rightharpoonup> u64" where
  "index_from key base xs j n =
     (case last_index (\<lambda>f. key f = n) xs of
        None \<Rightarrow> None | Some k \<Rightarrow> if k < j then None else Some (uid_of base k))"

lemma index_from_step:
  assumes "j < length xs" "unat base + length xs < 2 ^ 64"
  shows "(if map_get (index_from key base xs j) (key (xs ! j)) = uid_of base j
          then (index_from key base xs j)(key (xs ! j) := None) else index_from key base xs j) =
         index_from key base xs (Suc j)"
proof -
  let ?P = "\<lambda>f. key f = key (xs ! j)"
  have "last_index ?P xs \<noteq> None" using assms(1) by (auto simp: last_index_None)
  then obtain k where k: "last_index ?P xs = Some k" by auto
  with last_index_newest [of ?P xs k j] assms(1) have jk: "j \<le> k" by (intro leI) auto
  have b: "unat base + k + 1 < 2 ^ 64" "unat base + j + 1 < 2 ^ 64"
    using last_index_Some [OF k] assms by auto
  have get: "map_get (index_from key base xs j) (key (xs ! j)) = uid_of base k"
    using k jk by (simp add: map_get_def index_from_def)
  have other: "index_from key base xs (Suc j) n = index_from key base xs j n"
    if "n = key (xs ! j) \<longrightarrow> k \<noteq> j" for n
    using that last_index_Some [of "\<lambda>f. key f = n" xs j] k
    by (auto simp: index_from_def less_Suc_eq split: option.splits)
  show ?thesis
    using get b uid_of_inj [OF b] k other by (auto simp: fun_eq_iff index_from_def)
qed

lemma evict_map_index_from:
  "j + length fs \<le> length xs \<Longrightarrow> fs = take (length fs) (drop j xs) \<Longrightarrow> unat base + length xs < 2 ^ 64 \<Longrightarrow>
   evict_map key base j fs (index_from key base xs j) = index_from key base xs (j + length fs)"
proof (induction fs arbitrary: j)
  case (Cons f fs)
  have j: "j < length xs" using Cons.prems by simp
  from Cons.prems(2) have f: "f = xs ! j" "fs = take (length fs) (drop (Suc j) xs)"
    using Cons_nth_drop_Suc [OF j] by (metis length_Cons list.inject take_Suc_Cons)+
  from Cons.IH [of "Suc j"] Cons.prems f(2)
  have "evict_map key base (Suc j) fs (index_from key base xs (Suc j)) = index_from key base xs (j + length (f # fs))"
    by simp
  then show ?case using index_from_step [OF j Cons.prems(3), of key] f(1) by simp
qed simp

lemma index_ok_evict:
  assumes "index_ok key base xs m" "n \<le> length xs" "unat base + length xs < 2 ^ 64"
  shows "index_ok key (base + word_of_nat n) (drop n xs) (evict_map key base 0 (take n xs) m)"
proof -
  have "m = index_from key base xs 0"
    using assms(1) by (auto simp: index_ok_def index_from_def fun_eq_iff split: option.splits)
  then have "evict_map key base 0 (take n xs) m = index_from key base xs n"
    using evict_map_index_from [of 0 "take n xs" xs base key] assms(2,3) by simp
  moreover have "uid_of base k = uid_of (base + word_of_nat n) (k - n)" if "\<not> k < n" for k
    using that by (simp add: of_nat_diff)
  ultimately show ?thesis
    by (auto simp: index_ok_def index_from_def last_index_drop split: option.splits)
qed

lemma evictOldest_ok:
  assumes "table_wf t" "table_count t < 2 ^ 64" "n \<le> length (ents t)"
  shows "\<exists>t'. evictOldest t n = Ret t' \<and> table_wf t' \<and> ents t' = drop n (ents t) \<and>
    table_count t' = table_count t"
proof -
  have "unat (evictCount t) + n < 2 ^ 64" using assms by (simp add: table_count_def)
  then have c: "unat (evictCount t + word_of_nat n) = unat (evictCount t) + n"
    by (simp add: unat_word_ariths unat_of_nat)
  then have "\<not> evictCount t + word_of_nat n < evictCount t"
    by (simp add: word_less_nat_alt)
  with assms c show ?thesis
    by (simp add: evictOldest_def table_len_def table_wf_def table_count_def Let_def index_ok_evict)
qed

section \<open>Search refines a scan of the entries\<close>

text \<open>The specification of \<open>search\<close>, without indexes: the newest entry with the same name and value
  (unless the field is sensitive), else the newest with the same name, as a 1-based HPACK
  position counted from the front of the static table and from the back of a dynamic one.\<close>

definition search_spec :: "bool \<Rightarrow> HeaderField list \<Rightarrow> HeaderField \<Rightarrow> nat \<times> bool" where
  "search_spec static xs f =
     (let pos = (\<lambda>k. if static then k + 1 else length xs - k)
      in case (if Sensitive f then None else last_index (\<lambda>g. name_value g = name_value f) xs) of
           Some k \<Rightarrow> (pos k, True)
         | None \<Rightarrow> (case last_index (\<lambda>g. Name g = Name f) xs of
                      Some k \<Rightarrow> (pos k, False) | None \<Rightarrow> (0, False)))"

lemma idToIndex_uid_of:
  assumes "table_count t < 2 ^ 64" "k < length (ents t)"
  shows "idToIndex static t (uid_of (evictCount t) k) =
    Ret (word_of_nat (if static then k + 1 else length (ents t) - k))"
proof -
  have "unat (uid_of (evictCount t) k) = unat (evictCount t) + k + 1"
    using assms by (intro unat_uid_of) (auto simp: table_count_def)
  then have "\<not> uid_of (evictCount t) k \<le> evictCount t" by (simp add: word_le_nat_alt)
  then show ?thesis using assms(2) by (simp add: idToIndex_def table_len_def of_nat_diff Let_def)
qed

lemma map_get_index_ok:
  assumes "index_ok key base xs m" "unat base + length xs < 2 ^ 64"
  shows "case last_index (\<lambda>f. key f = n) xs of
           None \<Rightarrow> map_get m n = 0
         | Some k \<Rightarrow> map_get m n = uid_of base k \<and> map_get m n \<noteq> 0 \<and> k < length xs"
proof (cases "last_index (\<lambda>f. key f = n) xs")
  case None
  with assms(1) show ?thesis by (simp add: index_ok_def map_get_def)
next
  case (Some k)
  have "k < length xs" using last_index_Some [OF Some] by simp
  with assms Some uid_of_nonzero [of base k] show ?thesis
    by (simp add: index_ok_def map_get_def)
qed

lemma search_eq_spec:
  assumes "table_wf t" "table_count t < 2 ^ 64"
  shows "search static t f = Ret (map_prod word_of_nat id (search_spec static (ents t) f))"
proof -
  have b: "unat (evictCount t) + length (ents t) < 2 ^ 64" using assms(2) by (simp add: table_count_def)
  have nv: "index_ok name_value (evictCount t) (ents t) (byNameValue t)"
    and nm: "index_ok Name (evictCount t) (ents t) (byName t)" using assms(1) by (auto simp: table_wf_def)
  show ?thesis
    using map_get_index_ok [OF nv b, of "name_value f"] map_get_index_ok [OF nm b, of "Name f"]
    by (auto simp: search_def search_spec_def Let_def idToIndex_uid_of [OF assms(2)] split: option.splits)
qed

text \<open>What the positions mean: \<open>dyn_nth\<close> counts from the newest entry of a dynamic table.\<close>

lemma search_spec_True:
  assumes "search_spec static xs f = (i, True)"
  shows "0 < i \<and> i \<le> length xs \<and> \<not> Sensitive f \<and>
    name_value (xs ! (if static then i - 1 else length xs - i)) = name_value f"
proof -
  obtain k where k: "last_index (\<lambda>g. name_value g = name_value f) xs = Some k"
      "i = (if static then k + 1 else length xs - k)" "\<not> Sensitive f"
    using assms by (auto simp: search_spec_def Let_def split: option.splits if_splits)
  then show ?thesis using last_index_Some [OF k(1)] by auto
qed

lemma search_spec_False:
  assumes "search_spec static xs f = (i, False)" "i \<noteq> 0"
  shows "i \<le> length xs \<and> Name (xs ! (if static then i - 1 else length xs - i)) = Name f"
proof -
  obtain k where k: "last_index (\<lambda>g. Name g = Name f) xs = Some k"
      "i = (if static then k + 1 else length xs - k)"
    using assms by (auto simp: search_spec_def Let_def split: option.splits if_splits)
  then show ?thesis using last_index_Some [OF k(1)] by auto
qed

section \<open>The dynamic table is a size-bounded queue\<close>

text \<open>How many of the oldest entries must go before the size fits, from size \<open>sz\<close>.\<close>

fun evict_n :: "u32 \<Rightarrow> u32 \<Rightarrow> HeaderField list \<Rightarrow> nat" where
  "evict_n mx sz [] = 0"
| "evict_n mx sz (f # fs) = (if mx < sz then Suc (evict_n mx (sz - Size f) fs) else 0)"

definition total_size :: "HeaderField list \<Rightarrow> u32" where
  "total_size fs = sum_list (map Size fs)"

lemma total_size_simps [simp]:
  "total_size [] = 0" "total_size (f # fs) = Size f + total_size fs"
  "total_size (fs @ gs) = total_size fs + total_size gs"
  by (simp_all add: total_size_def)

lemma evict_n_le: "evict_n mx sz fs \<le> length fs"
  by (induction mx sz fs rule: evict_n.induct) auto

lemma evict_loop_eq:
  "evict_loop fs mx sz k = (sz - total_size (take (evict_n mx sz fs) fs), k + evict_n mx sz fs)"
  by (induction fs arbitrary: sz k) (simp_all add: algebra_simps)

lemma total_size_take_drop: "total_size fs - total_size (take n fs) = total_size (drop n fs)"
  by (metis add_diff_cancel_left' append_take_drop_id total_size_simps(3))

lemma evict_n_fits: "total_size (drop (evict_n mx (total_size fs) fs) fs) \<le> mx"
  by (induction fs) (auto simp: not_less)

lemma evict_n_minimal: "j < evict_n mx (total_size fs) fs \<Longrightarrow> mx < total_size (drop j fs)"
proof (induction fs arbitrary: j)
  case (Cons f fs)
  then show ?case by (cases j) (auto split: if_splits)
qed simp

definition dyn_wf :: "dynamicTable \<Rightarrow> bool" where
  "dyn_wf dt \<longleftrightarrow> table_wf (table dt) \<and> dsize dt = total_size (ents (table dt))"

abbreviation dyn_ents :: "dynamicTable \<Rightarrow> HeaderField list" where
  "dyn_ents dt \<equiv> ents (table dt)"

text \<open>The queue without bookkeeping: the longest suffix (newest entries) that fits.\<close>

fun evict_spec :: "u32 \<Rightarrow> HeaderField list \<Rightarrow> HeaderField list" where
  "evict_spec mx [] = []"
| "evict_spec mx (f # fs) = (if mx < total_size (f # fs) then evict_spec mx fs else f # fs)"

lemma evict_spec_drop: "evict_spec mx fs = drop (evict_n mx (total_size fs) fs) fs"
  by (induction fs) simp_all

lemma evict_spec_longest:
  "j < length fs - length (evict_spec mx fs) \<Longrightarrow> mx < total_size (drop j fs)"
  using evict_n_le [of mx "total_size fs" fs]
  by (intro evict_n_minimal) (simp add: evict_spec_drop)

lemma evict_eq_spec:
  assumes "dyn_wf dt" "table_count (table dt) < 2 ^ 64"
  shows "\<exists>dt'. evict dt = Ret dt' \<and> dyn_wf dt' \<and> dyn_ents dt' = evict_spec (maxSize dt) (dyn_ents dt) \<and>
    dsize dt' \<le> maxSize dt' \<and> maxSize dt' = maxSize dt \<and> allowedMaxSize dt' = allowedMaxSize dt \<and>
    table_count (table dt') = table_count (table dt)"
proof -
  let ?n = "evict_n (maxSize dt) (dsize dt) (dyn_ents dt)"
  from evictOldest_ok [of "table dt" ?n] assms evict_n_le
  obtain t' where "evictOldest (table dt) ?n = Ret t'" "table_wf t'" "ents t' = drop ?n (dyn_ents dt)"
      "table_count t' = table_count (table dt)"
    by (auto simp: dyn_wf_def)
  with assms(1) show ?thesis
    by (auto simp: evict_def evict_loop_eq dyn_wf_def evict_spec_drop total_size_take_drop evict_n_fits)
qed

lemma setMaxSize_eq_spec:
  assumes "dyn_wf dt" "table_count (table dt) < 2 ^ 64"
  shows "\<exists>dt'. setMaxSize dt v = Ret dt' \<and> dyn_wf dt' \<and> dyn_ents dt' = evict_spec v (dyn_ents dt) \<and>
    dsize dt' \<le> maxSize dt' \<and> maxSize dt' = v \<and> allowedMaxSize dt' = allowedMaxSize dt \<and>
    table_count (table dt') = table_count (table dt)"
  using evict_eq_spec [of "dt\<lparr>maxSize := v\<rparr>"] assms by (simp add: setMaxSize_def dyn_wf_def)

lemma addEntry_fields [simp]:
  "ents (addEntry t f) = ents t @ [f]" "evictCount (addEntry t f) = evictCount t"
  "table_count (addEntry t f) = Suc (table_count t)"
  by (simp_all add: addEntry_def table_count_def Let_def)

lemma dyn_add_eq_spec:
  assumes "dyn_wf dt" "Suc (table_count (table dt)) < 2 ^ 64"
  shows "\<exists>dt'. dyn_add dt f = Ret dt' \<and> dyn_wf dt' \<and>
    dyn_ents dt' = evict_spec (maxSize dt) (dyn_ents dt @ [f]) \<and>
    dsize dt' \<le> maxSize dt' \<and> maxSize dt' = maxSize dt \<and> allowedMaxSize dt' = allowedMaxSize dt \<and>
    table_count (table dt') = Suc (table_count (table dt))"
  using evict_eq_spec [of "dt\<lparr>table := addEntry (table dt) f, dsize := dsize dt + Size f\<rparr>"] assms
  by (simp add: dyn_add_def dyn_wf_def table_wf_addEntry)

text \<open>Evicting to a bound and then to another: the smaller bound decides.\<close>

lemma evict_spec_fits: "total_size fs \<le> mx \<Longrightarrow> evict_spec mx fs = fs"
  by (cases fs) auto

lemma evict_spec_size: "total_size (evict_spec mx fs) \<le> mx"
  by (simp add: evict_spec_drop evict_n_fits)

lemma evict_spec_grow: "a \<le> b \<Longrightarrow> evict_spec b (evict_spec a fs) = evict_spec a fs"
  by (rule evict_spec_fits) (rule order_trans [OF evict_spec_size])

lemma evict_spec_shrink: "a \<le> b \<Longrightarrow> evict_spec a (evict_spec b fs) = evict_spec a fs"
proof (induction fs)
  case (Cons f fs)
  then show ?case by (cases "b < total_size (f # fs)") auto
qed simp

lemma evict_spec_min: "evict_spec a (evict_spec b fs) = evict_spec (min a b) fs"
  by (cases "a \<le> b") (simp_all add: evict_spec_shrink evict_spec_grow min_def)

text \<open>The static table.\<close>

lemma foldl_addEntry:
  "table_wf t \<Longrightarrow> table_wf (foldl addEntry t fs) \<and> ents (foldl addEntry t fs) = ents t @ fs \<and>
     evictCount (foldl addEntry t fs) = evictCount t"
  by (induction fs arbitrary: t) (simp_all add: table_wf_addEntry)

lemma length_staticTableEntries [simp]: "length staticTableEntries = 61"
  by (simp add: staticTableEntries_def)

lemma staticTable_facts [simp]:
  "table_wf staticTable" "ents staticTable = staticTableEntries" "table_len staticTable = 61"
  "table_count staticTable = 61"
  using foldl_addEntry [OF table_wf_init, of staticTableEntries]
  by (simp_all add: staticTable_def newStaticTable_def table_len_def table_count_def) (simp_all add: table_init_def)

section \<open>Runs of the dynamic table\<close>

datatype dyn_op = OpAdd HeaderField | OpSetMax u32

fun dyn_exec :: "dyn_op list \<Rightarrow> dynamicTable \<Rightarrow> (hpack_error, dynamicTable) go" where
  "dyn_exec [] dt = Ret dt"
| "dyn_exec (OpAdd f # ops) dt = go_bind (dyn_add dt f) (dyn_exec ops)"
| "dyn_exec (OpSetMax v # ops) dt = go_bind (setMaxSize dt v) (dyn_exec ops)"

fun queue_exec :: "dyn_op list \<Rightarrow> u32 \<times> HeaderField list \<Rightarrow> u32 \<times> HeaderField list" where
  "queue_exec [] q = q"
| "queue_exec (OpAdd f # ops) (mx, fs) = queue_exec ops (mx, evict_spec mx (fs @ [f]))"
| "queue_exec (OpSetMax v # ops) (mx, fs) = queue_exec ops (v, evict_spec v fs)"

lemma dyn_exec_queue:
  "dyn_wf dt \<Longrightarrow> table_count (table dt) + length ops < 2 ^ 64 \<Longrightarrow> dsize dt \<le> maxSize dt \<Longrightarrow>
   \<exists>dt'. dyn_exec ops dt = Ret dt' \<and> dyn_wf dt' \<and> dsize dt' \<le> maxSize dt' \<and>
     (maxSize dt', dyn_ents dt') = queue_exec ops (maxSize dt, dyn_ents dt)"
proof (induction ops arbitrary: dt)
  case (Cons op ops)
  have c: "Suc (table_count (table dt)) < 2 ^ 64" "table_count (table dt) < 2 ^ 64" using Cons.prems(2) by auto
  show ?case
  proof (cases op)
    case (OpAdd f)
    with dyn_add_eq_spec [OF Cons.prems(1) c(1), of f] Cons show ?thesis by fastforce
  next
    case (OpSetMax v)
    with setMaxSize_eq_spec [OF Cons.prems(1) c(2), of v] Cons show ?thesis by fastforce
  qed
qed simp

section \<open>Properties\<close>

text \<open>C24: searching a header table through its two hash indexes gives exactly what a scan of its
  entries gives: the newest entry with the same name and value, else the newest with the same
  name, else nothing, as the 1-based HPACK index; a sensitive field never matches its value,
  and the id arithmetic never panics.\<close>

theorem search_refines_scan:
  assumes "table_wf t" "table_count t < 2 ^ 64"
  shows "search static t f = Ret (map_prod word_of_nat id (search_spec static (ents t) f))"
  using assms by (rule search_eq_spec)

theorem search_refines_scan_witness:
  "search True staticTable (static_entry '':method'' ''PUT'') = Ret (3, False)"
  using search_refines_scan [of staticTable True "static_entry '':method'' ''PUT''"]
  by (simp add: search_spec_def staticTableEntries_def static_entry_def bytes_of_def)

text \<open>C23: any sequence of additions and maximum-size changes of a dynamic table runs without panic,
  keeps both indexes exact and the recorded size equal to the sum of the entry sizes and at
  most the maximum, and leaves exactly the entries of a queue that drops its oldest entries,
  and no more than needed, whenever it is too big.\<close>

theorem dynamicTable_refines_queue:
  assumes "dyn_wf dt" "dsize dt \<le> maxSize dt" "table_count (table dt) + length ops < 2 ^ 64"
  shows "\<exists>dt'. dyn_exec ops dt = Ret dt' \<and> dyn_wf dt' \<and> dsize dt' \<le> maxSize dt' \<and>
     (maxSize dt', dyn_ents dt') = queue_exec ops (maxSize dt, dyn_ents dt)"
  using dyn_exec_queue [of dt ops] assms by blast

definition example_dyn :: dynamicTable where
  "example_dyn = \<lparr>table = table_init, dsize = 0, maxSize = 100, allowedMaxSize = 4096\<rparr>"

theorem dynamicTable_refines_queue_witness:
  "\<exists>dt'. dyn_exec [OpAdd (static_entry ''a'' ''1''), OpAdd (static_entry ''b'' ''2''),
      OpAdd (static_entry ''cookie'' ''x''), OpSetMax 40] example_dyn = Ret dt' \<and>
    dyn_ents dt' = [static_entry ''cookie'' ''x''] \<and> dsize dt' = 39"
proof -
  have "dyn_wf example_dyn" by (simp add: example_dyn_def dyn_wf_def table_wf_init) (simp add: table_init_def)
  from dynamicTable_refines_queue [OF this, of "[OpAdd (static_entry ''a'' ''1''),
      OpAdd (static_entry ''b'' ''2''), OpAdd (static_entry ''cookie'' ''x''), OpSetMax 40]"]
  show ?thesis
    by (auto simp: example_dyn_def table_init_def table_count_def static_entry_def bytes_of_def
        Size_def dyn_wf_def)
qed

end
