(* ===== verification/Bit_Lists.thy ===== *)
theory Bit_Lists
  imports Go_Prelude
begin

text \<open>
  Words read as lists of bits, most significant first: the reading of byte streams the Huffman
  coder of HPACK is proved against.
\<close>

definition msb_bits :: "nat \<Rightarrow> 'a::len word \<Rightarrow> bool list" where
  "msb_bits n w = map (bit w) (rev [0..<n])"

definition byte_bits :: "byte \<Rightarrow> bool list" where
  "byte_bits b = msb_bits 8 b"

definition stream_bits :: "bytes \<Rightarrow> bool list" where
  "stream_bits bs = concat (map byte_bits bs)"

text \<open>The byte whose bits are given.\<close>

definition bits_byte :: "bool list \<Rightarrow> byte" where
  "bits_byte bs = horner_sum of_bool 2 (rev bs)"

lemma length_msb_bits [simp]: "length (msb_bits n w) = n"
  by (simp add: msb_bits_def)

lemma length_byte_bits [simp]: "length (byte_bits b) = 8"
  by (simp add: byte_bits_def)

lemma msb_bits_0 [simp]: "msb_bits 0 w = []"
  by (simp add: msb_bits_def)

lemma nth_msb_bits [simp]: "i < n \<Longrightarrow> msb_bits n w ! i = bit w (n - 1 - i)"
  by (simp add: msb_bits_def rev_nth)

lemma msb_bits_eq_iff: "msb_bits n v = msb_bits n w \<longleftrightarrow> (\<forall>i < n. bit v i = bit w i)"
proof
  assume eq: "msb_bits n v = msb_bits n w"
  show "\<forall>i < n. bit v i = bit w i"
  proof (intro allI impI)
    fix i assume "i < n"
    then have "msb_bits n v ! (n - 1 - i) = bit v i" "msb_bits n w ! (n - 1 - i) = bit w i" by simp_all
    with eq show "bit v i = bit w i" by simp
  qed
qed (auto intro: nth_equalityI)

lemma stream_bits_simps [simp]:
  "stream_bits [] = []" "stream_bits (b # bs) = byte_bits b @ stream_bits bs"
  "stream_bits (bs @ cs) = stream_bits bs @ stream_bits cs"
  "length (stream_bits bs) = 8 * length bs"
  by (induction bs) (simp_all add: stream_bits_def)

lemma take_msb_bits: "l \<le> n \<Longrightarrow> take l (msb_bits n w) = msb_bits l (drop_bit (n - l) w)"
  by (rule nth_equalityI) (auto simp: bit_simps)

lemma drop_msb_bits: "drop l (msb_bits n w) = msb_bits (n - l) w"
  by (rule nth_equalityI) auto

lemma take_drop_bits: "l \<le> n \<Longrightarrow> take l (msb_bits n w) @ msb_bits (n - l) w = msb_bits n w"
  by (metis append_take_drop_id drop_msb_bits)

lemma msb_bits_zero [simp]: "msb_bits n 0 = replicate n False"
  by (rule nth_equalityI) simp_all

lemma msb_bits_split: "msb_bits (m + n) w = msb_bits m (drop_bit n w) @ msb_bits n w"
  using take_msb_bits [of m "m + n" w] drop_msb_bits [of m "m + n" w]
  by (metis add_diff_cancel_left' append_take_drop_id le_add1)

lemma msb_bits_ucast:
  "n \<le> LENGTH('b) \<Longrightarrow> msb_bits n (ucast (w :: 'a::len word) :: 'b::len word) = msb_bits n w"
  by (rule nth_equalityI) (auto simp: bit_simps)

lemma msb_bits_shift_in:
  assumes "n + 8 \<le> 64"
  shows "msb_bits (n + 8) (push_bit 8 (cur :: u64) OR ucast (b :: byte)) = msb_bits n cur @ byte_bits b"
proof (rule nth_equalityI)
  fix i assume i: "i < length (msb_bits (n + 8) (push_bit 8 cur OR ucast b))"
  show "msb_bits (n + 8) (push_bit 8 cur OR ucast b) ! i = (msb_bits n cur @ byte_bits b) ! i"
    using i assms by (auto simp: nth_append byte_bits_def bit_simps dest: bit_imp_le_length)
qed (simp add: byte_bits_def)

lemma byte_bits_window:
  "8 \<le> n \<Longrightarrow> byte_bits (ucast (drop_bit (n - 8) (cur :: u64))) = take 8 (msb_bits n cur)"
  by (simp add: byte_bits_def msb_bits_ucast take_msb_bits)

lemma byte_bits_padded:
  assumes "n \<le> 8"
  shows "byte_bits (ucast (push_bit (8 - n) (cur :: u64))) = msb_bits n cur @ replicate (8 - n) False"
  by (rule nth_equalityI) (use assms in \<open>auto simp: byte_bits_def nth_append bit_simps\<close>)

lemma bit_mask_le: "bit (mask n :: 'a::len word) i \<longleftrightarrow> i < n \<and> i < LENGTH('a)"
  by (simp add: bit_mask_iff possible_bit_word conj_commute)

lemma and_mask_eq_mask:
  assumes "n \<le> LENGTH('a)"
  shows "(w :: 'a::len word) AND mask n = mask n \<longleftrightarrow> msb_bits n w = replicate n True"
proof
  assume eq: "w AND mask n = mask n"
  have "bit w i" if "i < n" for i
    using eq that assms by (metis bit_and_iff bit_mask_le less_le_trans)
  then show "msb_bits n w = replicate n True" by (intro nth_equalityI) auto
next
  assume eq: "msb_bits n w = replicate n True"
  have "bit w i" if "i < n" for i
  proof -
    have "msb_bits n w ! (n - 1 - i)" using eq that by simp
    then show ?thesis using that by simp
  qed
  then show "w AND mask n = mask n" by (intro bit_word_eqI) (auto simp: bit_simps bit_mask_le)
qed

lemma byte_bits_inject: "byte_bits a = byte_bits b \<longleftrightarrow> a = b"
  by (auto simp: byte_bits_def msb_bits_eq_iff intro: bit_word_eqI)

lemma stream_bits_inject: "stream_bits as = stream_bits bs \<longleftrightarrow> as = bs"
proof
  assume eq: "stream_bits as = stream_bits bs"
  have "length as = length bs" using arg_cong [OF eq, of length] by simp
  then show "as = bs" using eq by (induction as bs rule: list_induct2) (simp_all add: byte_bits_inject)
qed simp

lemma byte_bits_bits_byte: "length bs = 8 \<Longrightarrow> byte_bits (bits_byte bs) = bs"
  by (rule nth_equalityI)
    (auto simp: byte_bits_def bits_byte_def bit_horner_sum_bit_word_iff rev_nth)

lemma bits_byte_byte_bits [simp]: "bits_byte (byte_bits b) = b"
  by (metis byte_bits_bits_byte byte_bits_inject length_byte_bits)

end
