(* ===== verification/Hpack_Huffman.thy ===== *)
theory Hpack_Huffman
  imports Hpack_Varint Bit_Lists "HOL-Library.Sublist"
begin

text \<open>
  The Huffman coder of HPACK: the code tables (tables.go), the byte-indexed decoding tree built
  from them, the encoder and the decoder (huffman.go). Bit counts, which the source keeps in
  \<open>uint8\<close> variables, are natural numbers; every subtraction on them is guarded in the source.
\<close>

section \<open>Model\<close>

definition huffmanCodes :: "u32 list" where
  "huffmanCodes =
    [
     0x1ff8, 0x7fffd8, 0xfffffe2, 0xfffffe3, 0xfffffe4, 0xfffffe5, 0xfffffe6, 0xfffffe7,
     0xfffffe8, 0xffffea, 0x3ffffffc, 0xfffffe9, 0xfffffea, 0x3ffffffd, 0xfffffeb, 0xfffffec,
     0xfffffed, 0xfffffee, 0xfffffef, 0xffffff0, 0xffffff1, 0xffffff2, 0x3ffffffe, 0xffffff3,
     0xffffff4, 0xffffff5, 0xffffff6, 0xffffff7, 0xffffff8, 0xffffff9, 0xffffffa, 0xffffffb,
     0x14, 0x3f8, 0x3f9, 0xffa, 0x1ff9, 0x15, 0xf8, 0x7fa, 0x3fa, 0x3fb, 0xf9, 0x7fb, 0xfa, 0x16,
     0x17, 0x18, 0x0, 0x1, 0x2, 0x19, 0x1a, 0x1b, 0x1c, 0x1d, 0x1e, 0x1f, 0x5c, 0xfb, 0x7ffc,
     0x20, 0xffb, 0x3fc, 0x1ffa, 0x21, 0x5d, 0x5e, 0x5f, 0x60, 0x61, 0x62, 0x63, 0x64, 0x65,
     0x66, 0x67, 0x68, 0x69, 0x6a, 0x6b, 0x6c, 0x6d, 0x6e, 0x6f, 0x70, 0x71, 0x72, 0xfc, 0x73,
     0xfd, 0x1ffb, 0x7fff0, 0x1ffc, 0x3ffc, 0x22, 0x7ffd, 0x3, 0x23, 0x4, 0x24, 0x5, 0x25, 0x26,
     0x27, 0x6, 0x74, 0x75, 0x28, 0x29, 0x2a, 0x7, 0x2b, 0x76, 0x2c, 0x8, 0x9, 0x2d, 0x77, 0x78,
     0x79, 0x7a, 0x7b, 0x7ffe, 0x7fc, 0x3ffd, 0x1ffd, 0xffffffc, 0xfffe6, 0x3fffd2, 0xfffe7,
     0xfffe8, 0x3fffd3, 0x3fffd4, 0x3fffd5, 0x7fffd9, 0x3fffd6, 0x7fffda, 0x7fffdb, 0x7fffdc,
     0x7fffdd, 0x7fffde, 0xffffeb, 0x7fffdf, 0xffffec, 0xffffed, 0x3fffd7, 0x7fffe0, 0xffffee,
     0x7fffe1, 0x7fffe2, 0x7fffe3, 0x7fffe4, 0x1fffdc, 0x3fffd8, 0x7fffe5, 0x3fffd9, 0x7fffe6,
     0x7fffe7, 0xffffef, 0x3fffda, 0x1fffdd, 0xfffe9, 0x3fffdb, 0x3fffdc, 0x7fffe8, 0x7fffe9,
     0x1fffde, 0x7fffea, 0x3fffdd, 0x3fffde, 0xfffff0, 0x1fffdf, 0x3fffdf, 0x7fffeb, 0x7fffec,
     0x1fffe0, 0x1fffe1, 0x3fffe0, 0x1fffe2, 0x7fffed, 0x3fffe1, 0x7fffee, 0x7fffef, 0xfffea,
     0x3fffe2, 0x3fffe3, 0x3fffe4, 0x7ffff0, 0x3fffe5, 0x3fffe6, 0x7ffff1, 0x3ffffe0, 0x3ffffe1,
     0xfffeb, 0x7fff1, 0x3fffe7, 0x7ffff2, 0x3fffe8, 0x1ffffec, 0x3ffffe2, 0x3ffffe3, 0x3ffffe4,
     0x7ffffde, 0x7ffffdf, 0x3ffffe5, 0xfffff1, 0x1ffffed, 0x7fff2, 0x1fffe3, 0x3ffffe6,
     0x7ffffe0, 0x7ffffe1, 0x3ffffe7, 0x7ffffe2, 0xfffff2, 0x1fffe4, 0x1fffe5, 0x3ffffe8,
     0x3ffffe9, 0xffffffd, 0x7ffffe3, 0x7ffffe4, 0x7ffffe5, 0xfffec, 0xfffff3, 0xfffed, 0x1fffe6,
     0x3fffe9, 0x1fffe7, 0x1fffe8, 0x7ffff3, 0x3fffea, 0x3fffeb, 0x1ffffee, 0x1ffffef, 0xfffff4,
     0xfffff5, 0x3ffffea, 0x7ffff4, 0x3ffffeb, 0x7ffffe6, 0x3ffffec, 0x3ffffed, 0x7ffffe7,
     0x7ffffe8, 0x7ffffe9, 0x7ffffea, 0x7ffffeb, 0xffffffe, 0x7ffffec, 0x7ffffed, 0x7ffffee,
     0x7ffffef, 0x7fffff0, 0x3ffffee]"

definition huffmanCodeLen :: "nat list" where
  "huffmanCodeLen =
    [
     13, 23, 28, 28, 28, 28, 28, 28, 28, 24, 30, 28, 28, 30, 28, 28, 28, 28, 28, 28, 28, 28, 30,
     28, 28, 28, 28, 28, 28, 28, 28, 28, 6, 10, 10, 12, 13, 6, 8, 11, 10, 10, 8, 11, 8, 6, 6, 6,
     5, 5, 5, 6, 6, 6, 6, 6, 6, 6, 7, 8, 15, 6, 12, 10, 13, 6, 7, 7, 7, 7, 7, 7, 7, 7, 7, 7, 7,
     7, 7, 7, 7, 7, 7, 7, 7, 7, 7, 7, 8, 7, 8, 13, 19, 13, 14, 6, 15, 5, 6, 5, 6, 5, 6, 6, 6, 5,
     7, 7, 6, 6, 6, 5, 6, 7, 6, 5, 5, 6, 7, 7, 7, 7, 7, 15, 11, 14, 13, 28, 20, 22, 20, 20, 22,
     22, 22, 23, 22, 23, 23, 23, 23, 23, 24, 23, 24, 24, 22, 23, 24, 23, 23, 23, 23, 21, 22, 23,
     22, 23, 23, 24, 22, 21, 20, 22, 22, 23, 23, 21, 23, 22, 22, 24, 21, 22, 23, 23, 21, 21, 22,
     21, 23, 22, 23, 23, 20, 22, 22, 22, 23, 22, 22, 23, 26, 26, 20, 19, 22, 23, 22, 25, 26, 26,
     26, 27, 27, 26, 24, 25, 19, 21, 26, 27, 27, 26, 27, 24, 21, 21, 26, 26, 28, 27, 27, 27, 20,
     24, 20, 21, 22, 21, 21, 23, 22, 22, 25, 25, 24, 24, 26, 23, 26, 27, 26, 26, 27, 27, 27, 27,
     27, 28, 27, 27, 27, 27, 27, 26]"

text \<open>\<open>children\<close> is nil exactly at the leaves; an index into it panics there.\<close>

datatype node = Internal "node option list" | Leaf nat byte

definition newInternalNode :: node where
  "newInternalNode = Internal (replicate 256 None)"

function addDecoderNode :: "byte \<Rightarrow> u32 \<Rightarrow> nat \<Rightarrow> node \<Rightarrow> (hpack_error, node) go" where
  "addDecoderNode sy code codeLen (Leaf l s) = Panic"
| "addDecoderNode sy code codeLen (Internal children) =
     (if codeLen > 8
      then let codeLen' = codeLen - 8;
               i = unat (ucast (drop_bit codeLen' code) :: byte);
               cur = (case children ! i of None \<Rightarrow> newInternalNode | Some c \<Rightarrow> c)
           in go_bind (addDecoderNode sy code codeLen' cur)
                (\<lambda>c. Ret (Internal (children[i := Some c])))
      else let shift = 8 - codeLen;
               start = unat (ucast (push_bit shift code) :: byte);
               end = 2 ^ shift
           in if start + end > length children then Panic
              else Ret (Internal (foldl (\<lambda>ch i. ch[i := Some (Leaf codeLen sy)]) children [start..<start + end])))"
  by pat_completeness auto
termination
  by (relation "measure (\<lambda>(sy, code, codeLen, cur). codeLen)") auto

fun init_loop :: "nat \<Rightarrow> u32 list \<Rightarrow> node \<Rightarrow> (hpack_error, node) go" where
  "init_loop i [] root = Ret root"
| "init_loop i (code # codes) root =
     go_bind (addDecoderNode (word_of_nat i) code (huffmanCodeLen ! i) root) (init_loop (Suc i) codes)"

text \<open>\<open>rootHuffmanNode\<close> after \<open>init\<close>.\<close>

definition rootHuffmanNode :: "(hpack_error, node) go" where
  "rootHuffmanNode =
     (if length huffmanCodes \<noteq> 256 then Panic else init_loop 0 huffmanCodes newInternalNode)"

text \<open>The child of a node under an index byte: indexing the nil children of a leaf panics.\<close>

fun child :: "node \<Rightarrow> byte \<Rightarrow> (hpack_error, node option) go" where
  "child (Leaf l s) idx = Panic"
| "child (Internal ch) idx = (if unat idx < length ch then Ret (ch ! unat idx) else Panic)"

record huff_state =
  hnode :: node
  cur :: u64
  cbits :: nat
  sbits :: nat
  hbuf :: bytes

text \<open>The inner loop \<open>for cbits >= 8\<close> of \<open>huffmanDecode\<close>. A leaf uses up \<open>codeLen\<close> bits, which is
  positive for every node of the tree; a zero would make the source loop forever, which the
  model reports as a panic.\<close>

function decode_inner :: "node \<Rightarrow> int \<Rightarrow> huff_state \<Rightarrow> (hpack_error, huff_state) go" where
  "decode_inner root maxLen st =
     (if cbits st < 8 then Ret st
      else go_bind (child (hnode st) (ucast (drop_bit (cbits st - 8) (cur st)))) (\<lambda>c.
        case c of
          None \<Rightarrow> Fail ErrInvalidHuffman
        | Some (Leaf codeLen sy) \<Rightarrow>
            if maxLen \<noteq> 0 \<and> int (length (hbuf st)) = maxLen then Fail ErrStringLength
            else if codeLen = 0 then Panic
            else let cb = cbits st - codeLen
                 in decode_inner root maxLen
                      (st\<lparr>hbuf := hbuf st @ [sy], cbits := cb, hnode := root, sbits := cb\<rparr>)
        | Some (Internal ch) \<Rightarrow>
            decode_inner root maxLen (st\<lparr>hnode := Internal ch, cbits := cbits st - 8\<rparr>)))"
  by pat_completeness auto
termination
  by (relation "measure (\<lambda>(root, maxLen, st). cbits st)") auto

fun decode_bytes :: "node \<Rightarrow> int \<Rightarrow> bytes \<Rightarrow> huff_state \<Rightarrow> (hpack_error, huff_state) go" where
  "decode_bytes root maxLen [] st = Ret st"
| "decode_bytes root maxLen (b # v) st =
     go_bind (decode_inner root maxLen
         (st\<lparr>cur := push_bit 8 (cur st) OR ucast b, cbits := cbits st + 8, sbits := sbits st + 8\<rparr>))
       (decode_bytes root maxLen v)"

text \<open>The final loop \<open>for cbits > 0\<close>.\<close>

function decode_tail :: "node \<Rightarrow> int \<Rightarrow> huff_state \<Rightarrow> (hpack_error, huff_state) go" where
  "decode_tail root maxLen st =
     (if cbits st = 0 then Ret st
      else go_bind (child (hnode st) (ucast (push_bit (8 - cbits st) (cur st)))) (\<lambda>c.
        case c of
          None \<Rightarrow> Fail ErrInvalidHuffman
        | Some (Internal ch) \<Rightarrow> Ret (st\<lparr>hnode := Internal ch\<rparr>)
        | Some (Leaf codeLen sy) \<Rightarrow>
            if codeLen > cbits st then Ret (st\<lparr>hnode := Leaf codeLen sy\<rparr>)
            else if maxLen \<noteq> 0 \<and> int (length (hbuf st)) = maxLen then Fail ErrStringLength
            else if codeLen = 0 then Panic
            else let cb = cbits st - codeLen
                 in decode_tail root maxLen
                      (st\<lparr>hbuf := hbuf st @ [sy], cbits := cb, hnode := root, sbits := cb\<rparr>)))"
  by pat_completeness auto
termination
  by (relation "measure (\<lambda>(root, maxLen, st). cbits st)") auto

text \<open>\<open>huffmanDecode\<close>, over the tree \<open>root\<close>: the decoded bytes, written to an empty buffer.\<close>

definition huffmanDecode_with :: "node \<Rightarrow> int \<Rightarrow> bytes \<Rightarrow> (hpack_error, bytes) go" where
  "huffmanDecode_with root maxLen v =
     go_bind (decode_bytes root maxLen v
         \<lparr>hnode = root, cur = 0, cbits = 0, sbits = 0, hbuf = []\<rparr>) (\<lambda>st.
     go_bind (decode_tail root maxLen st) (\<lambda>st.
       if sbits st > 7 then Fail ErrInvalidHuffman
       else let msk = push_bit (cbits st) 1 - 1
            in if cur st AND msk \<noteq> msk then Fail ErrInvalidHuffman
               else Ret (hbuf st)))"

definition huffmanDecode :: "int \<Rightarrow> bytes \<Rightarrow> (hpack_error, bytes) go" where
  "huffmanDecode maxLen v = go_bind rootHuffmanNode (\<lambda>root. huffmanDecode_with root maxLen v)"

definition HuffmanDecodeToString :: "bytes \<Rightarrow> (hpack_error, bytes) go" where
  "HuffmanDecodeToString v = huffmanDecode 0 v"

text \<open>The endless loop of \<open>appendByteToHuffmanCode\<close>, left by its two breaks; \<open>rembits\<close> is at least 1
  whenever it is entered, and a zero would make no progress.\<close>

function append_code_loop :: "bytes \<Rightarrow> nat \<Rightarrow> u32 \<Rightarrow> nat \<Rightarrow> (hpack_error, bytes \<times> nat) go" where
  "append_code_loop dst rembits code nbits =
     (if rembits > nbits
      then Ret (or_at (length dst - 1) (ucast (push_bit (rembits - nbits) code)) dst, rembits - nbits)
      else let dst = or_at (length dst - 1) (ucast (drop_bit (nbits - rembits) code)) dst;
               nbits' = nbits - rembits
           in if nbits' = 0 then Ret (dst, 8)
              else if rembits = 0 then Panic
              else append_code_loop (dst @ [0]) 8 code nbits')"
  by pat_completeness auto
termination
  by (relation "measure (\<lambda>(dst, rembits, code, nbits). nbits)") auto

definition appendByteToHuffmanCode :: "bytes \<Rightarrow> nat \<Rightarrow> byte \<Rightarrow> (hpack_error, bytes \<times> nat) go" where
  "appendByteToHuffmanCode dst rembits c =
     append_code_loop dst rembits (huffmanCodes ! unat c) (huffmanCodeLen ! unat c)"

fun append_string_loop :: "bytes \<Rightarrow> nat \<Rightarrow> bytes \<Rightarrow> (hpack_error, bytes \<times> nat) go" where
  "append_string_loop dst rembits [] = Ret (dst, rembits)"
| "append_string_loop dst rembits (c # s) =
     go_bind (appendByteToHuffmanCode (if rembits = 8 then dst @ [0] else dst) rembits c)
       (\<lambda>(dst, rembits). append_string_loop dst rembits s)"

definition AppendHuffmanString :: "bytes \<Rightarrow> bytes \<Rightarrow> (hpack_error, bytes) go" where
  "AppendHuffmanString dst s =
     go_bind (append_string_loop dst 8 s) (\<lambda>(dst, rembits).
       if rembits < 8
       then let code = 0x3fffffff :: u32; nbits = 30; t = ucast (drop_bit (nbits - rembits) code) :: byte
            in Ret (or_at (length dst - 1) t dst)
       else Ret dst)"

definition HuffmanEncodeLength :: "bytes \<Rightarrow> u64" where
  "HuffmanEncodeLength s = (foldl (\<lambda>n c. n + word_of_nat (huffmanCodeLen ! unat c)) 0 s + 7) div 8"

end
