(* ===== verification/Huffman_Tree.thy ===== *)
theory Huffman_Tree
  imports Hpack_Huffman
begin

text \<open>
  The decoding tree of huffman.go: what walking it along a bit stream finds, and that
  \<open>addDecoderNode\<close> adds exactly one code to it.
\<close>

declare addDecoderNode.simps [simp del]

section \<open>Walking the tree\<close>

text \<open>The leaf reached along a bit stream, eight bits a level: the number of bits of its code and
  its symbol. \<open>None\<close> for a missing child or a stream that ends before a leaf.\<close>

function tree_lookup :: "node \<Rightarrow> bool list \<Rightarrow> (nat \<times> byte) option" where
  "tree_lookup (Leaf l s) bs = None"
| "tree_lookup (Internal ch) bs =
     (if length bs < 8 then None
      else case ch ! unat (bits_byte (take 8 bs)) of
        None \<Rightarrow> None
      | Some (Leaf l s) \<Rightarrow> Some (l, s)
      | Some (Internal ch') \<Rightarrow> map_option (map_prod ((+) 8) id) (tree_lookup (Internal ch') (drop 8 bs)))"
  by pat_completeness auto
termination
  by (relation "measure (\<lambda>(n, bs). length bs)") auto

declare tree_lookup.simps [simp del]

inductive node_wf :: "node \<Rightarrow> bool" where
  leaf: "0 < l \<Longrightarrow> l \<le> 8 \<Longrightarrow> node_wf (Leaf l s)"
| internal: "length ch = 256 \<Longrightarrow> (\<And>n. Some n \<in> set ch \<Longrightarrow> node_wf n) \<Longrightarrow> node_wf (Internal ch)"

inductive_simps node_wf_simps: "node_wf (Leaf l s)" "node_wf (Internal ch)"

lemma node_wf_new: "node_wf newInternalNode"
  by (auto simp: newInternalNode_def node_wf_simps)

lemma unat_byte_less [simp]: "unat (b :: byte) < 256"
  using unsigned_less [of b] by simp

lemma node_wf_child: "node_wf (Internal ch) \<Longrightarrow> ch ! unat (b :: byte) = Some n \<Longrightarrow> node_wf n"
  by (metis node_wf_simps(2) nth_mem unat_byte_less)

lemma tree_lookup_new: "tree_lookup newInternalNode bs = None"
  by (simp add: newInternalNode_def tree_lookup.simps)

lemma tree_lookup_append: "tree_lookup n bs = Some r \<Longrightarrow> tree_lookup n (bs @ ext) = Some r"
proof (induction n bs arbitrary: r rule: tree_lookup.induct)
  case (1 l s bs)
  then show ?case by (simp add: tree_lookup.simps)
next
  case (2 ch bs)
  then show ?case
    by (auto simp: tree_lookup.simps(2) [of ch] split: if_splits option.splits node.splits)
qed

section \<open>Filling a range of children\<close>

lemma foldl_update:
  "length (foldl (\<lambda>ch i. ch[i := x]) ch [a..<b]) = length ch \<and>
   (\<forall>j < length ch. foldl (\<lambda>ch i. ch[i := x]) ch [a..<b] ! j = (if a \<le> j \<and> j < b then x else ch ! j))"
proof (induction b)
  case (Suc b)
  show ?case
  proof (cases "a \<le> b")
    case True
    with Suc show ?thesis by (auto simp: nth_list_update less_Suc_eq)
  next
    case False
    then show ?thesis by (simp add: not_le less_Suc_eq_le) (metis leD le_less_trans)
  qed
qed simp

lemma unat_shifted_code:
  assumes "l \<le> 8"
  shows "unat (ucast (push_bit (8 - l) (code :: u32)) :: byte) = unat code mod 2 ^ l * 2 ^ (8 - l)"
proof -
  have "(2 :: nat) ^ (8 - l) \<le> 2 ^ 8" by (intro power_increasing) auto
  moreover have "(2 :: u32) ^ (8 - l) = word_of_nat (2 ^ (8 - l))" by simp
  ultimately have "unat ((2 :: u32) ^ (8 - l)) = 2 ^ (8 - l)" by (simp only: unat_of_nat) simp
  then have "unat (push_bit (8 - l) code) = (unat code * 2 ^ (8 - l)) mod 2 ^ 32"
    by (simp add: push_bit_eq_mult unat_word_ariths)
  then have "unat (ucast (push_bit (8 - l) code) :: byte) = (unat code * 2 ^ (8 - l)) mod 2 ^ 32 mod 2 ^ 8"
    by (simp only: unsigned_ucast_eq take_bit_eq_mod) simp
  also have "\<dots> = (unat code * 2 ^ (8 - l)) mod (2 ^ l * 2 ^ (8 - l))"
    using assms by (simp add: mod_mod_cancel flip: power_add)
  also have "\<dots> = unat code mod 2 ^ l * 2 ^ (8 - l)" by (rule mod_mult_mult2)
  finally show ?thesis .
qed

lemma take_bit_eq_iff_bits:
  "take_bit l (m :: nat) = take_bit l n \<longleftrightarrow> (\<forall>i < l. bit m i = bit n i)"
  by (auto simp: bit_eq_iff bit_take_bit_iff)

lemma take_byte_bits_eq:
  assumes "l \<le> 8"
  shows "take l (byte_bits b) = msb_bits l (code :: u32) \<longleftrightarrow> unat b div 2 ^ (8 - l) = unat code mod 2 ^ l"
proof -
  let ?m = "unat (drop_bit (8 - l) b)"
  have "msb_bits l (drop_bit (8 - l) b) = msb_bits l code \<longleftrightarrow> (\<forall>i < l. bit (drop_bit (8 - l) b) i = bit code i)"
    by (rule msb_bits_eq_iff)
  also have "\<dots> \<longleftrightarrow> take_bit l ?m = take_bit l (unat code)"
    unfolding take_bit_eq_iff_bits by (simp add: bit_unsigned_iff)
  also have "take_bit l ?m = ?m"
  proof (rule take_bit_nat_eq_self)
    have "unat b < 2 ^ l * 2 ^ (8 - l)" using assms by (simp flip: power_add)
    then show "?m < 2 ^ l" by (simp add: unat_drop_bit less_mult_imp_div_less)
  qed
  finally show ?thesis
    using assms by (simp add: byte_bits_def take_msb_bits unat_drop_bit take_bit_eq_mod)
qed

lemma byte_in_range:
  assumes "l \<le> 8"
  shows "unat (ucast (push_bit (8 - l) (code :: u32)) :: byte) \<le> unat b \<and>
      unat b < unat (ucast (push_bit (8 - l) code) :: byte) + 2 ^ (8 - l) \<longleftrightarrow>
    take l (byte_bits b) = msb_bits l code"
proof -
  have "q * s \<le> x \<and> x < q * s + s \<longleftrightarrow> x div s = q" if "0 < s" for q s x :: nat
    using that by (auto simp: div_nat_eqI mult.commute) (metis add.commute dividend_less_div_times mult.commute)
  from this [of "2 ^ (8 - l)"] show ?thesis
    using assms by (simp add: unat_shifted_code take_byte_bits_eq)
qed

lemma range_bound:
  assumes "l \<le> 8"
  shows "unat (ucast (push_bit (8 - l) (code :: u32)) :: byte) + 2 ^ (8 - l) \<le> 256"
proof -
  have "unat code mod 2 ^ l + 1 \<le> 2 ^ l" by (simp add: Suc_leI)
  then have "(unat code mod 2 ^ l + 1) * 2 ^ (8 - l) \<le> 2 ^ l * 2 ^ (8 - l)" by (rule mult_le_mono1)
  also have "(2 :: nat) ^ l * 2 ^ (8 - l) = 256" using assms by (simp flip: power_add)
  finally show ?thesis using assms by (simp add: unat_shifted_code)
qed

section \<open>Adding a code\<close>

lemma prefix_byte_split:
  assumes "8 < l" "8 \<le> length bs"
  shows "prefix (msb_bits l code) bs \<longleftrightarrow>
    take 8 bs = byte_bits (ucast (drop_bit (l - 8) (code :: u32))) \<and> prefix (msb_bits (l - 8) code) (drop 8 bs)"
proof -
  have "msb_bits l code = byte_bits (ucast (drop_bit (l - 8) code)) @ msb_bits (l - 8) code"
    using msb_bits_split [of 8 "l - 8" code] assms(1) by (simp add: byte_bits_def msb_bits_ucast)
  moreover have "prefix (as @ cs) bs \<longleftrightarrow> take 8 bs = as \<and> prefix cs (drop 8 bs)" if "length as = 8" for as cs
    using that assms(2) by (auto simp: prefix_def append_eq_conv_conj) (metis append_take_drop_id)
  ultimately show ?thesis by simp
qed

lemma prefix_small_code:
  assumes "l \<le> 8" "8 \<le> length bs"
  shows "prefix (msb_bits l (code :: u32)) bs \<longleftrightarrow> take l (byte_bits (bits_byte (take 8 bs))) = msb_bits l code"
  using assms by (simp add: byte_bits_bits_byte prefix_def) (metis append_eq_conv_conj append_take_drop_id length_msb_bits)

lemma bits_byte_eq_iff: "length bs = 8 \<Longrightarrow> bits_byte bs = b \<longleftrightarrow> bs = byte_bits b"
  using byte_bits_bits_byte by auto

text \<open>What adding the code does to the result of a walk.\<close>

definition adds_code :: "byte \<Rightarrow> u32 \<Rightarrow> nat \<Rightarrow> node \<Rightarrow> node \<Rightarrow> bool" where
  "adds_code s code l n n' \<longleftrightarrow> (\<exists>ch. n' = Internal ch) \<and> node_wf n' \<and>
     (\<forall>bs. l + 7 \<le> length bs \<longrightarrow>
       tree_lookup n' bs = (if prefix (msb_bits l code) bs then Some (l, s) else tree_lookup n bs))"

lemma addDecoderNode_small:
  assumes "node_wf (Internal ch)" "0 < l" "l \<le> 8"
  shows "\<exists>n'. addDecoderNode s code l (Internal ch) = Ret n' \<and> adds_code s code l (Internal ch) n'"
proof -
  define st where "st = unat (ucast (push_bit (8 - l) code) :: byte)"
  define ch' where "ch' = foldl (\<lambda>ch i. ch[i := Some (Leaf l s)]) ch [st..<st + 2 ^ (8 - l)]"
  have len: "length ch = 256" using assms(1) by (simp add: node_wf_simps)
  have add: "addDecoderNode s code l (Internal ch) = Ret (Internal ch')"
    using assms(3) len range_bound [OF assms(3), of code]
    by (simp add: addDecoderNode.simps st_def ch'_def Let_def)
  have len': "length ch' = 256" and
    nth: "j < 256 \<Longrightarrow> ch' ! j = (if st \<le> j \<and> j < st + 2 ^ (8 - l) then Some (Leaf l s) else ch ! j)" for j
    using foldl_update [of "Some (Leaf l s)" ch st "st + 2 ^ (8 - l)"] len by (simp_all add: ch'_def)
  have "node_wf n" if "Some n \<in> set ch'" for n
  proof -
    from that obtain j where "j < 256" "ch' ! j = Some n" by (auto simp: in_set_conv_nth len')
    with nth [of j] assms len show ?thesis
      by (auto simp: node_wf_simps split: if_splits)
  qed
  then have wf: "node_wf (Internal ch')" using len' by (simp add: node_wf_simps)
  have "tree_lookup (Internal ch') bs = (if prefix (msb_bits l code) bs then Some (l, s) else tree_lookup (Internal ch) bs)"
    if "l + 7 \<le> length bs" for bs
  proof -
    have "8 \<le> length bs" using that assms(2) by simp
    then show ?thesis
      using byte_in_range [OF assms(3), of code "bits_byte (take 8 bs)"] prefix_small_code [OF assms(3), of bs code]
      by (simp add: tree_lookup.simps nth st_def)
  qed
  with wf add show ?thesis by (auto simp: adds_code_def)
qed

lemma addDecoderNode_deep:
  assumes "node_wf (Internal ch)" "8 < l"
    and c: "c = (case ch ! unat (ucast (drop_bit (l - 8) code) :: byte) of None \<Rightarrow> newInternalNode | Some c \<Rightarrow> c)"
    and c': "adds_code s code (l - 8) c c'" and notleaf: "\<forall>k x. c \<noteq> Leaf k x"
  shows "adds_code s code l (Internal ch) (Internal (ch[unat (ucast (drop_bit (l - 8) code) :: byte) := Some c']))"
proof -
  define b :: byte where "b = ucast (drop_bit (l - 8) code)"
  have len: "length ch = 256" using assms(1) by (simp add: node_wf_simps)
  obtain d where d: "c' = Internal d" using c' by (auto simp: adds_code_def)
  have "node_wf n" if "Some n \<in> set (ch[unat b := Some c'])" for n
    using that set_update_subset_insert [of ch "unat b" "Some c'"] assms(1) c'
    by (auto simp: node_wf_simps adds_code_def)
  then have wf: "node_wf (Internal (ch[unat b := Some c']))" using len by (simp add: node_wf_simps)
  have "tree_lookup (Internal (ch[unat b := Some c'])) bs =
      (if prefix (msb_bits l code) bs then Some (l, s) else tree_lookup (Internal ch) bs)"
    if bs: "l + 7 \<le> length bs" for bs
  proof (cases "take 8 bs = byte_bits b")
    case True
    have "tree_lookup c' (drop 8 bs) =
        (if prefix (msb_bits (l - 8) code) (drop 8 bs) then Some (l - 8, s) else tree_lookup c (drop 8 bs))"
      using c' bs assms(2) by (simp add: adds_code_def)
    moreover have "tree_lookup (Internal ch) bs = map_option (map_prod ((+) 8) id) (tree_lookup c (drop 8 bs))"
      using True c notleaf bs assms(2) tree_lookup_new
      by (cases c) (auto simp: tree_lookup.simps(2) [of ch bs] b_def split: option.splits)
    ultimately show ?thesis
      using True bs assms(2) len d prefix_byte_split [OF assms(2), of bs code]
      by (auto simp: tree_lookup.simps(2) [of _ bs] b_def)
  next
    case False
    then have "bits_byte (take 8 bs) \<noteq> b" using bs assms(2) by (simp add: bits_byte_eq_iff)
    then have "unat b \<noteq> unat (bits_byte (take 8 bs))" by (metis word_unat_eq_iff)
    with False bs assms(2) prefix_byte_split [OF assms(2), of bs code] show ?thesis
      by (simp add: tree_lookup.simps(2) [of _ bs] b_def)
  qed
  with wf show ?thesis by (simp add: adds_code_def b_def)
qed

lemma addDecoderNode_adds:
  "addDecoderNode s code l n = Ret n' \<Longrightarrow> node_wf n \<Longrightarrow> 0 < l \<Longrightarrow> adds_code s code l n n'"
proof (induction s code l n arbitrary: n' rule: addDecoderNode.induct)
  case (1 s code l ll ss)
  then show ?case by (simp add: addDecoderNode.simps)
next
  case (2 s code l ch)
  show ?case
  proof (cases "8 < l")
    case True
    define b :: byte where "b = ucast (drop_bit (l - 8) code)"
    define c where "c = (case ch ! unat b of None \<Rightarrow> newInternalNode | Some c \<Rightarrow> c)"
    from "2.prems"(1) True obtain c' where c': "addDecoderNode s code (l - 8) c = Ret c'"
      and n': "n' = Internal (ch[unat b := Some c'])"
      by (auto simp: addDecoderNode.simps(2) Let_def go_bind_eq_Ret b_def c_def)
    have "node_wf c"
      using "2.prems"(2) node_wf_new by (auto simp: c_def split: option.splits intro: node_wf_child)
    with "2.IH" [OF True] c' True have "adds_code s code (l - 8) c c'" by (simp add: b_def c_def)
    moreover have "\<forall>k x. c \<noteq> Leaf k x" using c' by (auto simp: addDecoderNode.simps)
    ultimately show ?thesis
      using addDecoderNode_deep [OF "2.prems"(2) True, of c code] n' by (simp add: b_def c_def)
  next
    case False
    with addDecoderNode_small [of ch l s code] "2.prems" show ?thesis by auto
  qed
qed

text \<open>Adding never runs into a leaf when no shorter code is a prefix of the new one.\<close>

lemma addDecoderNode_total:
  "node_wf n \<Longrightarrow> n = Internal ch \<Longrightarrow> 0 < l \<Longrightarrow>
   (\<And>bs k x. l + 7 \<le> length bs \<Longrightarrow> prefix (msb_bits l code) bs \<Longrightarrow> tree_lookup n bs = Some (k, x) \<Longrightarrow> l \<le> k) \<Longrightarrow>
   \<exists>n'. addDecoderNode s code l n = Ret n'"
proof (induction l arbitrary: n ch rule: less_induct)
  case (less l)
  note n = less.prems(2)
  show ?case
  proof (cases "8 < l")
    case True
    define b :: byte where "b = ucast (drop_bit (l - 8) code)"
    define c where "c = (case ch ! unat b of None \<Rightarrow> newInternalNode | Some c \<Rightarrow> c)"
    have wfc: "node_wf c"
      using less.prems(1) n node_wf_new by (auto simp: c_def split: option.splits intro: node_wf_child)
    have pre: "prefix (msb_bits l code) (byte_bits b @ bs) \<longleftrightarrow> prefix (msb_bits (l - 8) code) bs" for bs
      using prefix_byte_split [OF True, of "byte_bits b @ bs" code] by (simp add: b_def)
    have no_leaf: False if "c = Leaf k x" for k x
    proof -
      let ?bs = "byte_bits b @ msb_bits (l - 8) code @ replicate 7 False"
      have "ch ! unat b = Some (Leaf k x)" using that by (auto simp: c_def newInternalNode_def split: option.splits)
      then have "tree_lookup n ?bs = Some (k, x)" by (simp add: n tree_lookup.simps)
      with less.prems(4) [of ?bs k x] True pre have "l \<le> k" by simp
      with wfc that True show False by (simp add: node_wf_simps)
    qed
    then obtain d where d: "c = Internal d" by (cases c) auto
    have "\<exists>c'. addDecoderNode s code (l - 8) c = Ret c'"
    proof (rule less.IH [OF _ wfc d])
      fix bs k x
      assume bs: "l - 8 + 7 \<le> length bs" "prefix (msb_bits (l - 8) code) bs" "tree_lookup c bs = Some (k, x)"
      then have "ch ! unat b = Some c"
        using d by (auto simp: c_def tree_lookup_new split: option.splits)
      then have "tree_lookup n (byte_bits b @ bs) = Some (8 + k, x)"
        using d bs(3) by (simp add: n tree_lookup.simps(2) [of ch])
      then have "l \<le> 8 + k"
        using less.prems(4) [of "byte_bits b @ bs" "8 + k" x] pre [of bs] bs True by auto
      then show "l - 8 \<le> k" by simp
    qed (use True in auto)
    with True n show ?thesis
      by (auto simp: addDecoderNode.simps(2) Let_def c_def b_def)
  next
    case False
    with less.prems addDecoderNode_small [of ch l s code] show ?thesis by auto
  qed
qed

section \<open>The tree of the HPACK code\<close>

definition code_bits :: "nat \<Rightarrow> bool list" where
  "code_bits i = msb_bits (huffmanCodeLen ! i) (huffmanCodes ! i)"

text \<open>After the first \<open>i\<close> codes: a long enough stream leads to a leaf iff it starts with one of them.\<close>

definition tree_has :: "nat \<Rightarrow> node \<Rightarrow> bool" where
  "tree_has i root \<longleftrightarrow> (\<exists>ch. root = Internal ch) \<and> node_wf root \<and>
     (\<forall>bs. 37 \<le> length bs \<longrightarrow>
       (\<forall>j < i. prefix (code_bits j) bs \<longrightarrow> tree_lookup root bs = Some (huffmanCodeLen ! j, word_of_nat j)) \<and>
       (\<forall>k x. tree_lookup root bs = Some (k, x) \<longrightarrow>
          (\<exists>j < i. prefix (code_bits j) bs \<and> k = huffmanCodeLen ! j \<and> x = word_of_nat j)))"

lemma tree_has_0: "tree_has 0 newInternalNode"
  using node_wf_new by (simp add: tree_has_def tree_lookup_new) (simp add: newInternalNode_def)

lemma tree_has_sound:
  "tree_has i root \<Longrightarrow> 37 \<le> length bs \<Longrightarrow> tree_lookup root bs = Some (k, x) \<Longrightarrow>
   \<exists>j < i. prefix (code_bits j) bs \<and> k = huffmanCodeLen ! j \<and> x = word_of_nat j"
  by (simp add: tree_has_def)

lemma tree_has_complete:
  "tree_has i root \<Longrightarrow> 37 \<le> length bs \<Longrightarrow> j < i \<Longrightarrow> prefix (code_bits j) bs \<Longrightarrow>
   tree_lookup root bs = Some (huffmanCodeLen ! j, word_of_nat j)"
  by (simp add: tree_has_def)

lemma tree_has_step:
  assumes has: "tree_has i root" and i: "i < 256"
    and lens: "\<And>j. j < 256 \<Longrightarrow> 0 < huffmanCodeLen ! j \<and> huffmanCodeLen ! j \<le> 30"
    and pf: "\<And>j k. j < 256 \<Longrightarrow> k < 256 \<Longrightarrow> prefix (code_bits j) (code_bits k) \<Longrightarrow> j = k"
  shows "\<exists>root'. addDecoderNode (word_of_nat i) (huffmanCodes ! i) (huffmanCodeLen ! i) root = Ret root' \<and>
    tree_has (Suc i) root'"
proof -
  let ?l = "huffmanCodeLen ! i" and ?code = "huffmanCodes ! i"
  obtain ch where root: "root = Internal ch" "node_wf root" using has by (auto simp: tree_has_def)
  have comparable: "j = k" if "prefix (code_bits j) bs" "prefix (code_bits k) bs" "j < 256" "k < 256" for j k bs
    using prefix_same_cases [OF that(1,2)] pf that(3,4) by metis
  have "\<exists>n'. addDecoderNode (word_of_nat i) ?code ?l root = Ret n'"
  proof (rule addDecoderNode_total [OF root(2,1)])
    show "0 < ?l" using lens [OF i] by simp
    fix bs k x
    assume bs: "?l + 7 \<le> length bs" "prefix (msb_bits ?l ?code) bs" "tree_lookup root bs = Some (k, x)"
    let ?bs = "bs @ replicate 37 False"
    have "tree_lookup root ?bs = Some (k, x)" using bs(3) by (rule tree_lookup_append)
    with tree_has_sound [OF has, of ?bs] obtain j where "j < i" "prefix (code_bits j) ?bs" by auto
    moreover have "prefix (code_bits i) ?bs" using bs(2) by (simp add: code_bits_def prefix_prefix)
    ultimately have False using comparable [of j ?bs i] i by simp
    then show "?l \<le> k" ..
  qed
  then obtain n' where n': "addDecoderNode (word_of_nat i) ?code ?l root = Ret n'" by blast
  have adds: "adds_code (word_of_nat i) ?code ?l root n'"
    using addDecoderNode_adds [OF n' root(2)] lens [OF i] by simp
  have lookup: "tree_lookup n' bs =
      (if prefix (code_bits i) bs then Some (?l, word_of_nat i) else tree_lookup root bs)" if "37 \<le> length bs" for bs
    using adds that lens [OF i] by (simp add: adds_code_def code_bits_def)
  have "tree_has (Suc i) n'"
    using adds has comparable i lookup
    by (simp add: tree_has_def adds_code_def less_Suc_eq) (metis less_trans)
  with n' show ?thesis by blast
qed

lemma init_loop_has:
  assumes lens: "\<And>j. j < 256 \<Longrightarrow> 0 < huffmanCodeLen ! j \<and> huffmanCodeLen ! j \<le> 30"
    and pf: "\<And>j k. j < 256 \<Longrightarrow> k < 256 \<Longrightarrow> prefix (code_bits j) (code_bits k) \<Longrightarrow> j = k"
    and len: "length huffmanCodes = 256"
  shows "i \<le> 256 \<Longrightarrow> tree_has i root \<Longrightarrow>
    \<exists>root'. init_loop i (drop i huffmanCodes) root = Ret root' \<and> tree_has 256 root'"
proof (induction "256 - i" arbitrary: i root)
  case 0
  then show ?case using len by simp
next
  case (Suc n)
  then have i: "i < 256" by simp
  have "drop i huffmanCodes = huffmanCodes ! i # drop (Suc i) huffmanCodes"
    using i len by (simp add: Cons_nth_drop_Suc)
  moreover obtain root' where
    "addDecoderNode (word_of_nat i) (huffmanCodes ! i) (huffmanCodeLen ! i) root = Ret root'" "tree_has (Suc i) root'"
    using tree_has_step [OF Suc.prems(2) i lens pf] by blast
  moreover have "\<exists>root''. init_loop (Suc i) (drop (Suc i) huffmanCodes) root' = Ret root'' \<and> tree_has 256 root''"
    using Suc.hyps(1) [of "Suc i" root'] Suc.hyps(2) i calculation(3) by simp
  ultimately show ?case by simp
qed

end
