(* ===== verification/Huffman_Code.thy ===== *)
theory Huffman_Code
  imports Huffman_Tree
begin

text \<open>
  The code tables of tables.go form a prefix-free code, so the decoding tree built from them by
  \<open>init\<close> exists and recognises exactly that code. The facts about the 256 table entries are
  evaluated in the kernel.
\<close>

section \<open>Facts about the tables, by evaluation\<close>

definition int_table :: "(int \<times> int) list" where
  "int_table = map (\<lambda>(c, l). (uint c, int l)) (zip huffmanCodes huffmanCodeLen)"

text \<open>The interval of 30-bit strings that start with a code.\<close>

definition code_span :: "int \<times> int \<Rightarrow> int \<times> int" where
  "code_span p = (let s = 2 ^ nat (30 - snd p) in (fst p * s, (fst p + 1) * s))"

abbreviation span_before :: "int \<times> int \<Rightarrow> int \<times> int \<Rightarrow> bool" where
  "span_before p q \<equiv> snd (code_span p) \<le> fst (code_span q)"

definition by_length :: "(int \<times> int) list \<Rightarrow> (int \<times> int) list" where
  "by_length t = concat (map (\<lambda>l. filter (\<lambda>p. snd p = l) t)
     [5, 6, 7, 8, 10, 11, 12, 13, 14, 15, 19, 20, 21, 22, 23, 24, 25, 26, 27, 28, 30])"

definition spans_ok :: "(int \<times> int) list \<Rightarrow> bool" where
  "spans_ok t \<longleftrightarrow> (let o' = by_length t in length o' = 256 \<and> successively span_before o')"

lemma spans_ok_int_table: "spans_ok int_table"
  by code_simp

lemma entries_ok:
  "length huffmanCodes = 256 \<and> length huffmanCodeLen = 256 \<and>
   list_all (\<lambda>p. 0 < snd p \<and> snd p \<le> 30 \<and> fst p + 1 < 2 ^ nat (snd p) \<and> 0 \<le> fst p) int_table"
  by code_simp

section \<open>The code is prefix-free\<close>

lemma table_lengths [simp]: "length huffmanCodes = 256" "length huffmanCodeLen = 256" "length int_table = 256"
  using entries_ok by (auto simp: int_table_def)

lemma nth_int_table: "i < 256 \<Longrightarrow> int_table ! i = (uint (huffmanCodes ! i), int (huffmanCodeLen ! i))"
  by (simp add: int_table_def)

lemma entry_ok:
  assumes "i < 256"
  shows "0 < huffmanCodeLen ! i" "huffmanCodeLen ! i \<le> 30" "unat (huffmanCodes ! i) + 1 < 2 ^ huffmanCodeLen ! i"
proof -
  have "int_table ! i \<in> set int_table" using assms by simp
  with entries_ok nth_int_table [OF assms] have le: "0 < huffmanCodeLen ! i" "huffmanCodeLen ! i \<le> 30"
    and "uint (huffmanCodes ! i) + 1 < 2 ^ huffmanCodeLen ! i"
    by (auto simp: list_all_iff)
  then have "int (unat (huffmanCodes ! i) + 1) < int (2 ^ huffmanCodeLen ! i)" by simp
  then show "unat (huffmanCodes ! i) + 1 < 2 ^ huffmanCodeLen ! i" by (simp only: of_nat_less_iff)
qed (use assms entries_ok nth_int_table [OF assms] nth_mem [of i int_table] in \<open>auto simp: list_all_iff\<close>)

lemma code_span_entry:
  assumes "i < 256"
  shows "code_span (int_table ! i) = (int (unat (huffmanCodes ! i) * 2 ^ (30 - huffmanCodeLen ! i)),
    int ((unat (huffmanCodes ! i) + 1) * 2 ^ (30 - huffmanCodeLen ! i)))"
proof -
  have "nat (30 - int (huffmanCodeLen ! i)) = 30 - huffmanCodeLen ! i" by simp
  then show ?thesis using assms by (simp add: code_span_def Let_def nth_int_table algebra_simps)
qed

lemma span_nonempty: "p \<in> set int_table \<Longrightarrow> \<not> span_before p p"
  by (simp add: code_span_def Let_def)

lemma sorted_wrt_distinct: "sorted_wrt R xs \<Longrightarrow> (\<And>x. x \<in> set xs \<Longrightarrow> \<not> R x x) \<Longrightarrow> distinct xs"
  by (induction xs) auto

lemma sorted_wrt_pair:
  "sorted_wrt R xs \<Longrightarrow> x \<in> set xs \<Longrightarrow> y \<in> set xs \<Longrightarrow> x \<noteq> y \<Longrightarrow> R x y \<or> R y x"
  by (induction xs) auto

lemma spans_disjoint:
  assumes "i < 256" "j < 256" "i \<noteq> j"
  shows "span_before (int_table ! i) (int_table ! j) \<or> span_before (int_table ! j) (int_table ! i)"
proof -
  let ?o = "by_length int_table"
  have sub: "set ?o \<subseteq> set int_table" by (auto simp: by_length_def)
  have trans: "span_before p r" if "span_before p q" "span_before q r" for p q r
  proof -
    have "fst (code_span q) \<le> snd (code_span q)" by (simp add: code_span_def Let_def)
    with that show ?thesis by linarith
  qed
  then have "transp span_before" by (blast intro: transpI)
  then have sorted: "sorted_wrt span_before ?o"
    using spans_ok_int_table by (simp add: spans_ok_def Let_def successively_conv_sorted_wrt)
  have "distinct ?o"
    using sorted by (rule sorted_wrt_distinct) (use sub span_nonempty in blast)
  then have "card (set ?o) = 256"
    using spans_ok_int_table by (simp add: distinct_card spans_ok_def Let_def)
  moreover have "card (set int_table) \<le> 256" using card_length [of int_table] by simp
  ultimately have eq: "set ?o = set int_table" "card (set int_table) = 256"
    using sub card_seteq [of "set int_table" "set ?o"] by auto
  then have "distinct int_table" by (simp add: card_distinct)
  with assms have ne: "int_table ! i \<noteq> int_table ! j" by (simp add: nth_eq_iff_index_eq)
  have "int_table ! i \<in> set ?o" "int_table ! j \<in> set ?o" using assms by (simp_all add: eq(1))
  from sorted_wrt_pair [OF sorted this ne] show ?thesis .
qed

lemma code_bits_prefix_free:
  assumes "i < 256" "j < 256" "prefix (code_bits i) (code_bits j)"
  shows "i = j"
proof (rule ccontr)
  let ?li = "huffmanCodeLen ! i" and ?lj = "huffmanCodeLen ! j"
  let ?a = "huffmanCodes ! i" and ?b = "huffmanCodes ! j"
  assume "i \<noteq> j"
  have le: "?li \<le> ?lj" using prefix_length_le [OF assms(3)] by (simp add: code_bits_def)
  have "code_bits i = take ?li (code_bits j)"
    using assms(3) by (auto simp: prefix_def code_bits_def)
  then have "msb_bits ?li ?a = msb_bits ?li (drop_bit (?lj - ?li) ?b)"
    using le by (simp add: code_bits_def take_msb_bits)
  then have "take_bit ?li (unat ?a) = take_bit ?li (unat (drop_bit (?lj - ?li) ?b))"
    by (simp add: take_bit_eq_iff_bits msb_bits_eq_iff bit_unsigned_iff)
  moreover have "unat ?a < 2 ^ ?li" using entry_ok(3) [OF assms(1)] by simp
  moreover have "unat ?b div 2 ^ (?lj - ?li) < 2 ^ ?li"
    using entry_ok(3) [OF assms(2)] le by (intro less_mult_imp_div_less) (simp flip: power_add)
  ultimately have "unat ?a = unat ?b div 2 ^ (?lj - ?li)"
    by (simp add: unat_drop_bit take_bit_nat_eq_self)
  then have ab: "unat ?a * 2 ^ (?lj - ?li) \<le> unat ?b" "unat ?b < (unat ?a + 1) * 2 ^ (?lj - ?li)"
    using dividend_less_times_div [of "2 ^ (?lj - ?li)" "unat ?b"] by (simp_all add: mult.commute)
  have "30 - ?li = (?lj - ?li) + (30 - ?lj)" using le entry_ok(2) [OF assms(2)] by simp
  then have pow: "(2 :: nat) ^ (30 - ?li) = 2 ^ (?lj - ?li) * 2 ^ (30 - ?lj)" by (simp only: power_add)
  have "unat ?a * 2 ^ (30 - ?li) \<le> unat ?b * 2 ^ (30 - ?lj)"
    using mult_le_mono1 [OF ab(1), of "2 ^ (30 - ?lj)"] by (simp only: pow mult.assoc)
  moreover have "unat ?b * 2 ^ (30 - ?lj) < (unat ?a + 1) * 2 ^ (30 - ?li)"
    using mult_less_mono1 [OF ab(2), of "2 ^ (30 - ?lj)"] by (simp only: pow mult.assoc) simp
  moreover have "unat ?b * 2 ^ (30 - ?lj) < (unat ?b + 1) * 2 ^ (30 - ?lj)" by simp
  moreover have "(unat ?a + 1) * 2 ^ (30 - ?li) \<le> unat ?b * 2 ^ (30 - ?lj) \<or>
      (unat ?b + 1) * 2 ^ (30 - ?lj) \<le> unat ?a * 2 ^ (30 - ?li)"
    using spans_disjoint [OF assms(1,2) \<open>i \<noteq> j\<close>]
    unfolding code_span_entry [OF assms(1)] code_span_entry [OF assms(2)] fst_conv snd_conv of_nat_le_iff .
  ultimately show False by linarith
qed

section \<open>The tree exists\<close>

definition huffman_root :: node where
  "huffman_root = (case rootHuffmanNode of Ret n \<Rightarrow> n | _ \<Rightarrow> newInternalNode)"

lemma rootHuffmanNode_eq: "rootHuffmanNode = Ret huffman_root"
  and huffman_root_has: "tree_has 256 huffman_root"
proof -
  have "\<exists>root'. init_loop 0 (drop 0 huffmanCodes) newInternalNode = Ret root' \<and> tree_has 256 root'"
    by (rule init_loop_has) (auto simp: tree_has_0 intro: entry_ok code_bits_prefix_free)
  then show "rootHuffmanNode = Ret huffman_root" "tree_has 256 huffman_root"
    by (auto simp: rootHuffmanNode_def huffman_root_def)
qed

text \<open>The code of a byte.\<close>

definition sym_bits :: "byte \<Rightarrow> bool list" where
  "sym_bits c = code_bits (unat c)"

lemma length_sym_bits: "length (sym_bits c) = huffmanCodeLen ! unat c"
  by (simp add: sym_bits_def code_bits_def)

text \<open>The symbols whose codes continue a run of one to seven ones with zeros.\<close>

definition ones_table :: "(nat \<times> byte) list" where
  "ones_table = [(1, 61), (2, 69), (3, 85), (4, 119), (5, 38), (6, 88), (7, 33)]"

lemma ones_table_prefix:
  "list_all (\<lambda>p. prefix (sym_bits (snd p)) (replicate (fst p) True @ replicate 37 False)) ones_table"
  by code_simp

lemma ones_continue:
  assumes "0 < k" "k < 8"
  shows "\<exists>c. prefix (sym_bits c) (replicate k True @ replicate 37 False)"
proof -
  have "k \<in> fst ` set ones_table" using assms by (auto simp: ones_table_def)
  then obtain p where "p \<in> set ones_table" "k = fst p" by blast
  with ones_table_prefix [unfolded list_all_iff] show ?thesis by blast
qed

text \<open>No code consists of ones only: that is the end-of-string symbol, which is not in the table.\<close>

lemma sym_bits_not_ones: "sym_bits c \<noteq> replicate (length (sym_bits c)) True"
proof
  let ?l = "huffmanCodeLen ! unat c" and ?a = "huffmanCodes ! unat c"
  assume "sym_bits c = replicate (length (sym_bits c)) True"
  then have "msb_bits ?l ?a = replicate ?l True" by (simp add: sym_bits_def code_bits_def)
  then have "?a AND mask ?l = mask ?l"
    using entry_ok(2) [of "unat c"] by (subst and_mask_eq_mask) auto
  then have "take_bit ?l ?a = mask ?l" by (simp only: take_bit_eq_mask)
  moreover have "take_bit ?l ?a = ?a"
    using entry_ok(3) [of "unat c"] by (intro take_bit_word_self) simp
  moreover have "unat (mask ?l :: u32) = 2 ^ ?l - 1"
  proof -
    have "(mask ?l :: u32) = word_of_nat (2 ^ ?l - 1)"
      by (simp add: of_nat_mask_eq flip: mask_eq_exp_minus_1)
    moreover have "(2 :: nat) ^ ?l \<le> 2 ^ 30"
      using entry_ok(2) [of "unat c"] by (intro power_increasing) auto
    ultimately show ?thesis by (simp only: unat_of_nat) simp
  qed
  ultimately have "unat ?a = 2 ^ ?l - 1" by simp
  with entry_ok(3) [of "unat c"] show False by simp
qed

end
