(* ===== verification/Huffman_Decode.thy ===== *)
theory Huffman_Decode
  imports Huffman_Code
begin

text \<open>
  Correctness of \<open>huffmanDecode\<close> against the code as a set of bit strings: a locale states what the
  decoder relies on in its tree, and the tree of the HPACK tables is an instance.
\<close>

declare decode_inner.simps [simp del] decode_tail.simps [simp del]

section \<open>What the decoder relies on\<close>

locale huffman_code =
  fixes root :: node and sbits_of :: "byte \<Rightarrow> bool list"
  assumes root_wf: "node_wf root"
    and root_internal: "\<exists>ch. root = Internal ch"
    and sbits_pos: "0 < length (sbits_of c)"
    and lookup_complete: "37 \<le> length bs \<Longrightarrow> prefix (sbits_of c) bs \<Longrightarrow>
      tree_lookup root bs = Some (length (sbits_of c), c)"
    and lookup_sound: "37 \<le> length bs \<Longrightarrow> tree_lookup root bs = Some (k, c) \<Longrightarrow>
      prefix (sbits_of c) bs \<and> k = length (sbits_of c)"
    and ones_path: "0 < k \<Longrightarrow> k < 8 \<Longrightarrow> \<exists>c. prefix (sbits_of c) (replicate k True @ replicate 37 False)"
    and not_ones: "sbits_of c \<noteq> replicate (length (sbits_of c)) True"
begin

definition enc_bits :: "bytes \<Rightarrow> bool list" where
  "enc_bits s = concat (map sbits_of s)"

lemma enc_bits_simps [simp]:
  "enc_bits [] = []" "enc_bits (c # s) = sbits_of c @ enc_bits s" "enc_bits (s @ t) = enc_bits s @ enc_bits t"
  by (simp_all add: enc_bits_def)

text \<open>The code is prefix-free, because the tree answers with one symbol.\<close>

lemma prefix_code: "prefix (sbits_of c) bs \<Longrightarrow> prefix (sbits_of d) bs \<Longrightarrow> c = d"
  using lookup_complete [of "bs @ replicate 37 False" c] lookup_complete [of "bs @ replicate 37 False" d]
  by (simp add: prefix_prefix)

text \<open>A stream of symbols padded with fewer than eight ones starts with the symbols decoded from it.\<close>

lemma decoded_is_prefix:
  "enc_bits out @ y = enc_bits s @ replicate p True \<Longrightarrow> p < 8 \<Longrightarrow> prefix out s"
proof (induction out arbitrary: s)
  case (Cons c out)
  show ?case
  proof (cases s)
    case Nil
    with Cons.prems(1) have eq: "sbits_of c @ enc_bits out @ y = replicate p True" by simp
    have "sbits_of c = take (length (sbits_of c)) (replicate p True)" by (simp flip: eq)
    moreover have "length (sbits_of c) \<le> p" using arg_cong [OF eq, of length] by simp
    ultimately have "sbits_of c = replicate (length (sbits_of c)) True" by (simp add: min_def)
    with not_ones show ?thesis by blast
  next
    case s: (Cons d t)
    with Cons.prems(1) have eq: "sbits_of c @ enc_bits out @ y = sbits_of d @ enc_bits t @ replicate p True" by simp
    have "c = d"
    proof (rule prefix_code)
      show "prefix (sbits_of c) (sbits_of c @ enc_bits out @ y)" by simp
      show "prefix (sbits_of d) (sbits_of c @ enc_bits out @ y)" by (simp add: eq)
    qed
    with eq have "enc_bits out @ y = enc_bits t @ replicate p True" by simp
    from Cons.IH [OF this \<open>p < 8\<close>] \<open>c = d\<close> s show ?thesis by simp
  qed
qed simp

section \<open>One step down the tree\<close>

text \<open>\<open>at_path p n\<close>: walking \<open>p\<close>, whole bytes, from the root leads to the inner node \<open>n\<close>.\<close>

definition at_path :: "bool list \<Rightarrow> node \<Rightarrow> bool" where
  "at_path p n \<longleftrightarrow> 8 dvd length p \<and> node_wf n \<and> (\<exists>ch. n = Internal ch) \<and>
     (\<forall>x. tree_lookup root (p @ x) = map_option (map_prod ((+) (length p)) id) (tree_lookup n x))"

lemma shift_0: "map_option (map_prod ((+) (0 :: nat)) id) r = (r :: (nat \<times> byte) option)"
  by (cases r) auto

lemma shift_shift:
  "map_option (map_prod ((+) (a :: nat)) id) (map_option (map_prod ((+) b) id) r) =
   map_option (map_prod ((+) (a + b)) id) (r :: (nat \<times> byte) option)"
  by (cases r) auto

lemma at_path_root: "at_path [] root"
  using root_wf root_internal by (simp add: at_path_def shift_0)

lemma at_path_child:
  assumes "at_path p n"
  obtains ch where "n = Internal ch" "\<And>b :: byte. child n b = Ret (ch ! unat b)"
    "\<And>b m. ch ! unat (b :: byte) = Some m \<Longrightarrow> node_wf m"
  using assms node_wf_child by (auto simp: at_path_def node_wf_simps)

lemma child_leaf:
  assumes at: "at_path p (Internal ch)" and leaf: "ch ! unat b = Some (Leaf l c)"
  shows "sbits_of c = p @ take l (byte_bits b)" "0 < l" "l \<le> 8"
proof -
  have "node_wf (Leaf l c)" using at leaf node_wf_child by (auto simp: at_path_def)
  then show l: "0 < l" "l \<le> 8" by (simp_all add: node_wf_simps)
  let ?x = "byte_bits b @ replicate 37 False"
  have "tree_lookup (Internal ch) ?x = Some (l, c)" using leaf by (simp add: tree_lookup.simps)
  then have "tree_lookup root (p @ ?x) = Some (length p + l, c)" using at by (simp add: at_path_def)
  moreover have "37 \<le> length (p @ ?x)" by simp
  ultimately have sound: "prefix (sbits_of c) (p @ ?x) \<and> length p + l = length (sbits_of c)"
    using lookup_sound by blast
  then obtain z where z: "p @ ?x = sbits_of c @ z" unfolding prefix_def by blast
  have "take (length p + l) (p @ ?x) = sbits_of c" unfolding z using sound by simp
  moreover have "take (length p + l) (p @ ?x) = p @ take l (byte_bits b)" using l by simp
  ultimately show "sbits_of c = p @ take l (byte_bits b)" by simp
qed

lemma child_internal:
  assumes at: "at_path p (Internal ch)" and c: "ch ! unat b = Some (Internal ch')"
  shows "at_path (p @ byte_bits b) (Internal ch')"
proof -
  have "node_wf (Internal ch')" using at c node_wf_child by (auto simp: at_path_def)
  moreover have "tree_lookup (Internal ch) (byte_bits b @ x) =
      map_option (map_prod ((+) 8) id) (tree_lookup (Internal ch') x)" for x
    using c by (simp add: tree_lookup.simps(2) [of ch])
  ultimately show ?thesis
    using at by (simp add: at_path_def shift_shift)
qed

lemma child_none:
  assumes at: "at_path p (Internal ch)" and c: "ch ! unat b = None"
  shows "\<not> prefix (sbits_of d) (p @ byte_bits b @ x)"
proof
  assume "prefix (sbits_of d) (p @ byte_bits b @ x)"
  then have "prefix (sbits_of d) (p @ byte_bits b @ x @ replicate 37 False)"
    by (metis append.assoc prefix_prefix)
  then have "tree_lookup root (p @ byte_bits b @ x @ replicate 37 False) \<noteq> None"
    using lookup_complete by simp
  moreover have "tree_lookup (Internal ch) (byte_bits b @ y) = None" for y
    using c by (simp add: tree_lookup.simps)
  ultimately show False using at by (simp add: at_path_def)
qed

text \<open>No code ends on the way to an inner node.\<close>

lemma lookup_pos: "node_wf n \<Longrightarrow> tree_lookup n bs = Some (k, c) \<Longrightarrow> 0 < k"
proof (induction n bs arbitrary: k rule: tree_lookup.induct)
  case (2 ch bs)
  then obtain m where m: "ch ! unat (bits_byte (take 8 bs)) = Some m" "8 \<le> length bs"
    by (auto simp: tree_lookup.simps(2) [of ch] split: if_splits option.splits)
  then have "node_wf m" using node_wf_child "2.prems"(1) by blast
  with m "2.prems"(2) show ?case
    by (cases m) (auto simp: tree_lookup.simps(2) [of ch] node_wf_simps)
qed (simp add: tree_lookup.simps)

lemma path_no_code: "at_path p n \<Longrightarrow> \<not> prefix (sbits_of c) p"
proof
  assume at: "at_path p n" and pre: "prefix (sbits_of c) p"
  have "tree_lookup root (p @ replicate 37 False) = Some (length (sbits_of c), c)"
    using pre by (intro lookup_complete) (simp_all add: prefix_prefix)
  then have "map_option (map_prod ((+) (length p)) id) (tree_lookup n (replicate 37 False)) = Some (length (sbits_of c), c)"
    using at by (simp add: at_path_def)
  then obtain k where k: "tree_lookup n (replicate 37 False) = Some (k, c)" "length p + k = length (sbits_of c)"
    by auto
  then have "0 < k" using lookup_pos at by (auto simp: at_path_def)
  with k(2) prefix_length_le [OF pre] show False by simp
qed

section \<open>The decoder's invariant\<close>

text \<open>\<open>B\<close> is what has been read: the codes of the bytes written, then \<open>p\<close>, whole bytes already
  followed from the root to the current node, then the bits not yet used.\<close>

definition huff_parts :: "huff_state \<Rightarrow> bool list \<Rightarrow> bool list \<Rightarrow> bool" where
  "huff_parts st B p \<longleftrightarrow> B = enc_bits (hbuf st) @ p @ msb_bits (cbits st) (cur st) \<and>
     sbits st = length p + cbits st \<and> 8 dvd length p"

definition huff_inv :: "huff_state \<Rightarrow> bool list \<Rightarrow> bool" where
  "huff_inv st B \<longleftrightarrow> (\<exists>p. huff_parts st B p \<and> at_path p (hnode st))"

lemma huff_inv_elim:
  assumes "huff_inv st B"
  obtains p ch where "huff_parts st B p" "at_path p (hnode st)" "hnode st = Internal ch"
proof -
  obtain p where p: "huff_parts st B p" "at_path p (hnode st)" using assms by (auto simp: huff_inv_def)
  then obtain ch where "hnode st = Internal ch" by (auto simp: at_path_def)
  with p that show thesis by blast
qed

text \<open>A leaf that uses \<open>l\<close> of the unused bits.\<close>

lemma inv_leaf:
  assumes "huff_parts st B p" "at_path p (hnode st)" "hnode st = Internal ch" "ch ! unat b = Some (Leaf l c)"
    "l \<le> cbits st" "take l (byte_bits b) = take l (msb_bits (cbits st) (cur st))"
  shows "huff_inv (st\<lparr>hbuf := hbuf st @ [c], cbits := cbits st - l, hnode := root, sbits := cbits st - l\<rparr>) B"
  using assms child_leaf [of p ch b l c] at_path_root take_drop_bits [of l "cbits st" "cur st"]
  by (auto simp: huff_inv_def huff_parts_def intro!: exI [of _ "[]"])

text \<open>The window of eight bits the inner loop looks at.\<close>

abbreviation window :: "huff_state \<Rightarrow> byte" where
  "window st \<equiv> ucast (drop_bit (cbits st - 8) (cur st))"

lemma inv_inner_leaf:
  assumes "huff_parts st B p" "at_path p (hnode st)" "hnode st = Internal ch"
    "ch ! unat (window st) = Some (Leaf l c)" "8 \<le> cbits st"
  shows "0 < l" "l \<le> 8"
    "huff_inv (st\<lparr>hbuf := hbuf st @ [c], cbits := cbits st - l, hnode := root, sbits := cbits st - l\<rparr>) B"
proof -
  show l: "0 < l" "l \<le> 8" using child_leaf assms by auto
  show "huff_inv (st\<lparr>hbuf := hbuf st @ [c], cbits := cbits st - l, hnode := root, sbits := cbits st - l\<rparr>) B"
    using assms l by (intro inv_leaf [where ch = ch and b = "window st" and p = p])
      (auto simp: byte_bits_window min_absorb1)
qed

lemma inv_inner_internal:
  assumes "huff_parts st B p" "at_path p (hnode st)" "hnode st = Internal ch"
    "ch ! unat (window st) = Some (Internal ch')" "8 \<le> cbits st"
  shows "huff_inv (st\<lparr>hnode := Internal ch', cbits := cbits st - 8\<rparr>) B"
  using assms child_internal [of p ch "window st" ch'] take_drop_bits [of 8 "cbits st" "cur st"]
  by (auto simp: huff_inv_def huff_parts_def byte_bits_window intro!: exI [of _ "p @ byte_bits (window st)"])

lemma inner_unfold:
  assumes "at_path p (hnode st)" "hnode st = Internal ch" "8 \<le> cbits st"
  shows "decode_inner root mx st =
    (case ch ! unat (window st) of
       None \<Rightarrow> Fail ErrInvalidHuffman
     | Some (Leaf l c) \<Rightarrow>
         if mx \<noteq> 0 \<and> int (length (hbuf st)) = mx then Fail ErrStringLength
         else decode_inner root mx
           (st\<lparr>hbuf := hbuf st @ [c], cbits := cbits st - l, hnode := root, sbits := cbits st - l\<rparr>)
     | Some (Internal ch') \<Rightarrow> decode_inner root mx (st\<lparr>hnode := Internal ch', cbits := cbits st - 8\<rparr>))"
proof -
  have "child (hnode st) (window st) = Ret (ch ! unat (window st))"
    using assms by (auto simp: at_path_def node_wf_simps)
  moreover have "l \<noteq> 0" if "ch ! unat (window st) = Some (Leaf l c)" for l c
    using child_leaf(2) [of p ch "window st" l c] assms that by simp
  ultimately show ?thesis
    using assms by (auto simp: decode_inner.simps [of root mx st] Let_def split: option.split node.split)
qed

lemma inner_sound:
  "huff_inv st B \<Longrightarrow> decode_inner root mx st = Ret st' \<Longrightarrow> huff_inv st' B \<and> cbits st' < 8"
proof (induction "cbits st" arbitrary: st rule: less_induct)
  case less
  show ?case
  proof (cases "cbits st < 8")
    case True
    with less.prems show ?thesis by (simp add: decode_inner.simps)
  next
    case False
    then have c8: "8 \<le> cbits st" by simp
    obtain p ch where p: "huff_parts st B p" "at_path p (hnode st)" "hnode st = Internal ch"
      using huff_inv_elim [OF less.prems(1)] by blast
    note unfold = inner_unfold [OF p(2,3) c8, of mx]
    show ?thesis
    proof (cases "ch ! unat (window st)")
      case None
      with unfold less.prems(2) show ?thesis by simp
    next
      case (Some m)
      show ?thesis
      proof (cases m)
        case (Leaf l c)
        note leaf = inv_inner_leaf [OF p Some [unfolded Leaf] c8]
        with less.hyps [OF _ leaf(3)] less.prems(2) unfold Some Leaf c8 show ?thesis
          by (simp split: if_splits)
      next
        case (Internal ch')
        note internal = inv_inner_internal [OF p Some [unfolded Internal] c8]
        with less.hyps [OF _ internal] less.prems(2) unfold Some Internal c8 show ?thesis by simp
      qed
    qed
  qed
qed

text \<open>What is still to come, given what the whole stream encodes.\<close>

lemma rest_of_stream:
  assumes "huff_parts st B p" "B @ rest = enc_bits s @ replicate pad True" "pad < 8"
  obtains s' where "s = hbuf st @ s'" "p @ msb_bits (cbits st) (cur st) @ rest = enc_bits s' @ replicate pad True"
proof -
  have eq: "enc_bits (hbuf st) @ p @ msb_bits (cbits st) (cur st) @ rest = enc_bits s @ replicate pad True"
    using assms(1,2) by (simp add: huff_parts_def)
  from decoded_is_prefix [OF eq assms(3)] obtain s' where "s = hbuf st @ s'" by (auto simp: prefix_def)
  with eq that show thesis by simp
qed

lemma inv_prefix:
  assumes "huff_inv st B" "B @ rest = enc_bits s @ replicate pad True" "pad < 8"
  shows "prefix (hbuf st) s"
  using assms rest_of_stream by (metis huff_inv_def prefixI)

lemma inner_complete:
  assumes "B @ rest = enc_bits s @ replicate pad True" "pad < 8" "mx = 0 \<or> int (length s) \<le> mx"
  shows "huff_inv st B \<Longrightarrow> \<exists>st'. decode_inner root mx st = Ret st'"
proof (induction "cbits st" arbitrary: st rule: less_induct)
  case less
  show ?case
  proof (cases "cbits st < 8")
    case True
    then show ?thesis by (simp add: decode_inner.simps)
  next
    case False
    then have c8: "8 \<le> cbits st" by simp
    obtain p ch where p: "huff_parts st B p" "at_path p (hnode st)" "hnode st = Internal ch"
      using huff_inv_elim [OF less.prems] by blast
    note unfold = inner_unfold [OF p(2,3) c8, of mx]
    let ?R = "msb_bits (cbits st) (cur st)"
    obtain s' where s': "s = hbuf st @ s'" "p @ ?R @ rest = enc_bits s' @ replicate pad True"
      using rest_of_stream [OF p(1) assms(1,2)] by blast
    have R: "?R @ rest = byte_bits (window st) @ drop 8 ?R @ rest"
      using c8 by (simp add: byte_bits_window)
    have "s' \<noteq> []" using arg_cong [OF s'(2), of length] assms(2) c8 by auto
    then obtain d t where d: "s' = d # t" by (cases s') auto
    have "prefix (sbits_of d) (p @ ?R @ rest)" using s'(2) d by simp
    then have "prefix (sbits_of d) (p @ byte_bits (window st) @ drop 8 ?R @ rest)" using R by simp
    then have "ch ! unat (window st) \<noteq> None" using child_none p(2,3) by metis
    then obtain m where m: "ch ! unat (window st) = Some m" by auto
    show ?thesis
    proof (cases m)
      case (Leaf l c)
      note leaf = inv_inner_leaf [OF p m [unfolded Leaf] c8]
      have "length (hbuf st) < length s" using s'(1) d by simp
      with leaf less.hyps [OF _ leaf(3)] unfold m Leaf c8 assms(3) show ?thesis by auto
    next
      case (Internal ch')
      note internal = inv_inner_internal [OF p m [unfolded Internal] c8]
      with less.hyps [OF _ internal] unfold m Internal c8 show ?thesis by auto
    qed
  qed
qed

section \<open>All bytes of the input\<close>

lemma inv_read:
  assumes "huff_inv st B" "cbits st < 8"
  shows "huff_inv (st\<lparr>cur := push_bit 8 (cur st) OR ucast b, cbits := cbits st + 8, sbits := sbits st + 8\<rparr>) (B @ byte_bits b)"
  using assms msb_bits_shift_in [of "cbits st" "cur st" b] by (auto simp: huff_inv_def huff_parts_def)

lemma bytes_sound:
  "huff_inv st B \<Longrightarrow> cbits st < 8 \<Longrightarrow> decode_bytes root mx v st = Ret st' \<Longrightarrow>
   huff_inv st' (B @ stream_bits v) \<and> cbits st' < 8"
proof (induction v arbitrary: st B)
  case (Cons b v)
  then show ?case
    using inner_sound [OF inv_read [OF Cons.prems(1,2), of b]] by (fastforce simp: go_bind_eq_Ret)
qed simp

lemma bytes_complete:
  assumes pad: "pad < 8" and mx: "mx = 0 \<or> int (length s) \<le> mx"
  shows "huff_inv st B \<Longrightarrow> cbits st < 8 \<Longrightarrow> B @ stream_bits v = enc_bits s @ replicate pad True \<Longrightarrow>
    \<exists>st'. decode_bytes root mx v st = Ret st'"
proof (induction v arbitrary: st B)
  case (Cons b v)
  let ?st = "st\<lparr>cur := push_bit 8 (cur st) OR ucast b, cbits := cbits st + 8, sbits := sbits st + 8\<rparr>"
  have inv: "huff_inv ?st (B @ byte_bits b)" by (rule inv_read [OF Cons.prems(1,2)])
  have eq: "(B @ byte_bits b) @ stream_bits v = enc_bits s @ replicate pad True" using Cons.prems(3) by simp
  obtain st1 where st1: "decode_inner root mx ?st = Ret st1" using inner_complete [OF eq pad mx inv] by blast
  with inner_sound [OF inv] have "huff_inv st1 (B @ byte_bits b)" "cbits st1 < 8" by auto
  from Cons.IH [OF this eq] st1 show ?case by simp
qed simp

section \<open>The trailing bits\<close>

abbreviation last_window :: "huff_state \<Rightarrow> byte" where
  "last_window st \<equiv> ucast (push_bit (8 - cbits st) (cur st))"

lemma tail_unfold:
  assumes "at_path p (hnode st)" "hnode st = Internal ch" "0 < cbits st" "cbits st < 8"
  shows "decode_tail root mx st =
    (case ch ! unat (last_window st) of
       None \<Rightarrow> Fail ErrInvalidHuffman
     | Some (Internal ch') \<Rightarrow> Ret (st\<lparr>hnode := Internal ch'\<rparr>)
     | Some (Leaf l c) \<Rightarrow>
         if l > cbits st then Ret (st\<lparr>hnode := Leaf l c\<rparr>)
         else if mx \<noteq> 0 \<and> int (length (hbuf st)) = mx then Fail ErrStringLength
         else decode_tail root mx
           (st\<lparr>hbuf := hbuf st @ [c], cbits := cbits st - l, hnode := root, sbits := cbits st - l\<rparr>))"
proof -
  have "child (hnode st) (last_window st) = Ret (ch ! unat (last_window st))"
    using assms by (auto simp: at_path_def node_wf_simps)
  moreover have "l \<noteq> 0" if "ch ! unat (last_window st) = Some (Leaf l c)" for l c
    using child_leaf(2) [of p ch "last_window st" l c] assms that by simp
  ultimately show ?thesis
    using assms by (auto simp: decode_tail.simps [of root mx st] Let_def split: option.split node.split)
qed

lemma inv_tail_leaf:
  assumes "huff_parts st B p" "at_path p (hnode st)" "hnode st = Internal ch"
    "ch ! unat (last_window st) = Some (Leaf l c)" "l \<le> cbits st" "cbits st < 8"
  shows "huff_inv (st\<lparr>hbuf := hbuf st @ [c], cbits := cbits st - l, hnode := root, sbits := cbits st - l\<rparr>) B"
  using assms by (intro inv_leaf [where ch = ch and b = "last_window st" and p = p]) (auto simp: byte_bits_padded)

lemma tail_sound:
  "huff_inv st B \<Longrightarrow> cbits st < 8 \<Longrightarrow> decode_tail root mx st = Ret st' \<Longrightarrow>
   (\<exists>p. huff_parts st' B p) \<and> cbits st' < 8"
proof (induction "cbits st" arbitrary: st rule: less_induct)
  case less
  obtain p ch where p: "huff_parts st B p" "at_path p (hnode st)" "hnode st = Internal ch"
    using huff_inv_elim [OF less.prems(1)] by blast
  show ?case
  proof (cases "cbits st = 0")
    case True
    with less.prems p show ?thesis by (auto simp: decode_tail.simps)
  next
    case False
    then have pos: "0 < cbits st" by simp
    note unfold = tail_unfold [OF p(2,3) pos less.prems(2), of mx]
    show ?thesis
    proof (cases "ch ! unat (last_window st)")
      case None
      with unfold less.prems(3) show ?thesis by simp
    next
      case (Some m)
      show ?thesis
      proof (cases m)
        case (Leaf l c)
        show ?thesis
        proof (cases "l \<le> cbits st")
          case True
          note leaf = inv_tail_leaf [OF p Some [unfolded Leaf] True less.prems(2)]
          have "0 < l" using child_leaf(2) p Some Leaf by metis
          with less.hyps [OF _ leaf] less.prems(2,3) unfold Some Leaf True pos show ?thesis
            by (simp split: if_splits)
        next
          case False
          with unfold less.prems p Some Leaf show ?thesis by (auto simp: huff_parts_def)
        qed
      next
        case (Internal ch')
        with unfold less.prems p Some show ?thesis by (auto simp: huff_parts_def)
      qed
    qed
  qed
qed

text \<open>All that is left when every symbol has been decoded is padding.\<close>

definition only_padding :: "huff_state \<Rightarrow> bytes \<Rightarrow> bool" where
  "only_padding st s \<longleftrightarrow> hbuf st = s \<and> sbits st \<le> 7 \<and> sbits st = cbits st \<and>
     msb_bits (cbits st) (cur st) = replicate (cbits st) True"

lemma short_path: "8 dvd length p \<Longrightarrow> length p < 8 \<Longrightarrow> p = []"
  by (cases p) (auto dest: dvd_imp_le)

lemma only_padding_intro:
  assumes "huff_parts st B p" "s = hbuf st" "p @ msb_bits (cbits st) (cur st) = replicate pad True" "pad < 8"
  shows "only_padding st s" "p = []"
proof -
  have len: "length p + cbits st = pad" using arg_cong [OF assms(3), of length] by simp
  with assms(1,4) show "p = []" by (intro short_path) (auto simp: huff_parts_def)
  with assms len show "only_padding st s" by (auto simp: only_padding_def huff_parts_def)
qed

text \<open>A code that is still to come is a leaf within the trailing bits.\<close>

lemma tail_leaf:
  assumes "at_path p (Internal ch)" "n < 8" "prefix (sbits_of d) (p @ msb_bits n w)"
    "byte_bits b = msb_bits n (w :: u64) @ replicate (8 - n) False"
  obtains l where "ch ! unat b = Some (Leaf l d)" "l \<le> n"
proof -
  have pre: "prefix (sbits_of d) (p @ byte_bits b)"
    using assms(3,4) by (metis append.assoc prefix_prefix)
  then have "ch ! unat b \<noteq> None" using child_none [OF assms(1), of b d "[]"] by auto
  then obtain m where m: "ch ! unat b = Some m" by auto
  have len: "length (sbits_of d) \<le> length p + n" using prefix_length_le [OF assms(3)] by simp
  show thesis
  proof (cases m)
    case (Leaf l c)
    have "sbits_of c = p @ take l (byte_bits b)" "l \<le> 8" using child_leaf [OF assms(1)] m Leaf by auto
    then have "prefix (sbits_of c) (p @ byte_bits b)" by (simp add: take_is_prefix)
    with pre have "c = d" by (intro prefix_code)
    with \<open>sbits_of c = _\<close> len \<open>l \<le> 8\<close> m Leaf show thesis by (intro that [of l]) auto
  next
    case (Internal ch')
    have "at_path (p @ byte_bits b) (Internal ch')" using child_internal assms(1) m Internal by simp
    from path_no_code [OF this] pre show thesis by blast
  qed
qed

lemma tail_complete:
  assumes pad: "pad < 8" and mx: "mx = 0 \<or> int (length s) \<le> mx" and B: "B = enc_bits s @ replicate pad True"
  shows "huff_inv st B \<Longrightarrow> cbits st < 8 \<Longrightarrow> \<exists>st'. decode_tail root mx st = Ret st' \<and> only_padding st' s"
proof (induction "cbits st" arbitrary: st rule: less_induct)
  case less
  let ?R = "msb_bits (cbits st) (cur st)"
  obtain p ch where p: "huff_parts st B p" "at_path p (hnode st)" "hnode st = Internal ch"
    using huff_inv_elim [OF less.prems(1)] by blast
  obtain s' where s': "s = hbuf st @ s'" "p @ ?R = enc_bits s' @ replicate pad True"
    using rest_of_stream [OF p(1) _ pad, of "[]" s] B by auto
  have win: "byte_bits (last_window st) = ?R @ replicate (8 - cbits st) False"
    using less.prems(2) by (simp add: byte_bits_padded)
  show ?case
  proof (cases s')
    case Nil
    have padding: "only_padding st s" "p = []" using only_padding_intro [OF p(1) _ _ pad] s' Nil by auto
    show ?thesis
    proof (cases "cbits st = 0")
      case True
      with padding show ?thesis by (simp add: decode_tail.simps)
    next
      case False
      note unfold = tail_unfold [OF p(2,3) _ less.prems(2), of mx]
      obtain c where "prefix (sbits_of c) (replicate (cbits st) True @ replicate 37 False)"
        using ones_path [of "cbits st"] False less.prems(2) by auto
      moreover have "replicate (cbits st) True @ replicate 37 False =
          p @ byte_bits (last_window st) @ replicate (37 - (8 - cbits st)) False"
        using padding less.prems(2) win by (simp add: only_padding_def flip: replicate_add)
      ultimately have "ch ! unat (last_window st) \<noteq> None" using child_none p(2,3) by metis
      then obtain m where m: "ch ! unat (last_window st) = Some m" by auto
      have "l > cbits st" if "m = Leaf l c" for l c
      proof (rule ccontr)
        assume "\<not> cbits st < l"
        then have "sbits_of c = replicate l True"
          using child_leaf(1) [of p ch "last_window st" l c] p(2,3) m that padding win
          by (simp add: only_padding_def)
        with not_ones [of c] show False by simp
      qed
      with unfold m False padding show ?thesis
        by (cases m) (auto simp: only_padding_def)
    qed
  next
    case (Cons d t)
    have pre: "prefix (sbits_of d) (p @ ?R)" using s'(2) Cons by simp
    have pos: "0 < cbits st" using path_no_code [OF p(2), of d] pre by (cases "cbits st") auto
    obtain l where l: "ch ! unat (last_window st) = Some (Leaf l d)" "l \<le> cbits st"
      using tail_leaf [OF _ less.prems(2) pre win] p(2,3) by metis
    note leaf = inv_tail_leaf [OF p l less.prems(2)]
    have "0 < l" using child_leaf(2) p l by metis
    moreover have "length (hbuf st) < length s" using s'(1) Cons by simp
    ultimately show ?thesis
      using less.hyps [OF _ leaf] less.prems(2) tail_unfold [OF p(2,3) pos less.prems(2), of mx] l pos mx by auto
  qed
qed

section \<open>The whole decoder\<close>

lemma inv_start: "huff_inv \<lparr>hnode = root, cur = 0, cbits = 0, sbits = 0, hbuf = []\<rparr> []"
  using at_path_root by (simp add: huff_inv_def huff_parts_def)

lemma decode_complete:
  assumes "stream_bits v = enc_bits s @ replicate pad True" "pad < 8" "mx = 0 \<or> int (length s) \<le> mx"
  shows "huffmanDecode_with root mx v = Ret s"
proof -
  let ?st = "\<lparr>hnode = root, cur = 0, cbits = 0, sbits = 0, hbuf = []\<rparr>"
  obtain st1 where st1: "decode_bytes root mx v ?st = Ret st1"
    using bytes_complete [OF assms(2,3) inv_start] assms(1) by auto
  have inv: "huff_inv st1 (stream_bits v)" "cbits st1 < 8" using bytes_sound [OF inv_start _ st1] by auto
  obtain st2 where st2: "decode_tail root mx st1 = Ret st2" "only_padding st2 s"
    using tail_complete [OF assms(2,3,1) inv] by blast
  have "cur st2 AND mask (cbits st2) = mask (cbits st2)"
    using st2(2) by (subst and_mask_eq_mask) (auto simp: only_padding_def)
  with st1 st2 show ?thesis
    unfolding huffmanDecode_with_def push_bit_1_minus_1 by (simp add: only_padding_def Let_def)
qed

lemma decode_sound:
  assumes "huffmanDecode_with root mx v = Ret s"
  shows "\<exists>pad < 8. stream_bits v = enc_bits s @ replicate pad True"
proof -
  let ?st = "\<lparr>hnode = root, cur = 0, cbits = 0, sbits = 0, hbuf = []\<rparr>"
  obtain st1 st2 where st: "decode_bytes root mx v ?st = Ret st1" "decode_tail root mx st1 = Ret st2"
      "sbits st2 \<le> 7" "cur st2 AND mask (cbits st2) = mask (cbits st2)" "s = hbuf st2"
    using assms unfolding huffmanDecode_with_def push_bit_1_minus_1
    by (auto simp: go_bind_eq_Ret Let_def split: if_splits)
  have "huff_inv st1 (stream_bits v)" "cbits st1 < 8" using bytes_sound [OF inv_start _ st(1)] by auto
  from tail_sound [OF this st(2)] obtain p where p: "huff_parts st2 (stream_bits v) p" "cbits st2 < 8" by blast
  then have "p = []" using st(3) by (intro short_path) (auto simp: huff_parts_def)
  moreover have "msb_bits (cbits st2) (cur st2) = replicate (cbits st2) True"
    using st(4) p(2) by (subst (asm) and_mask_eq_mask) auto
  ultimately show ?thesis using p st(5) by (auto simp: huff_parts_def)
qed

end

section \<open>The HPACK tables are such a code\<close>

interpretation hc: huffman_code huffman_root sym_bits
proof unfold_locales
  show "node_wf huffman_root" "\<exists>ch. huffman_root = Internal ch"
    using huffman_root_has by (auto simp: tree_has_def)
  show "0 < length (sym_bits c)" for c
    using entry_ok(1) [of "unat c"] by (simp add: length_sym_bits)
  show "tree_lookup huffman_root bs = Some (length (sym_bits c), c)"
    if "37 \<le> length bs" "prefix (sym_bits c) bs" for bs c
    using tree_has_complete [OF huffman_root_has that(1), of "unat c"] that(2)
    by (simp add: sym_bits_def code_bits_def)
  show "prefix (sym_bits c) bs \<and> k = length (sym_bits c)"
    if "37 \<le> length bs" "tree_lookup huffman_root bs = Some (k, c)" for bs k c
    using tree_has_sound [OF huffman_root_has that] by (auto simp: sym_bits_def code_bits_def unat_of_nat)
  show "\<exists>c. prefix (sym_bits c) (replicate k True @ replicate 37 False)" if "0 < k" "k < 8" for k
    using that by (rule ones_continue)
  show "sym_bits c \<noteq> replicate (length (sym_bits c)) True" for c
    by (rule sym_bits_not_ones)
qed

lemma huffmanDecode_eq: "huffmanDecode mx v = huffmanDecode_with huffman_root mx v"
  by (simp add: huffmanDecode_def rootHuffmanNode_eq)

end
