(* ===== verification/Huffman_Encode.thy ===== *)
theory Huffman_Encode
  imports Huffman_Decode
begin

text \<open>
  The Huffman encoder writes the codes of its input one after the other and fills the last byte
  with ones, so it and the decoder are inverse to each other.
\<close>

declare append_code_loop.simps [simp del]

section \<open>Filling the last byte\<close>

lemma byte_bits_or:
  assumes "byte_bits b = as @ replicate r False" "r \<le> 8" "\<And>i. r \<le> i \<Longrightarrow> \<not> bit t i"
  shows "byte_bits (b OR t) = as @ msb_bits r t"
proof (rule nth_equalityI)
  have len: "length as = 8 - r" using arg_cong [OF assms(1), of length] by simp
  show "length (byte_bits (b OR t)) = length (as @ msb_bits r t)" using len assms(2) by simp
  fix i assume i: "i < length (byte_bits (b OR t))"
  have "bit b (7 - i) = (as @ replicate r False) ! i"
    using i by (simp add: byte_bits_def flip: assms(1))
  then show "byte_bits (b OR t) ! i = (as @ msb_bits r t) ! i"
    using i len assms(2) assms(3) [of "7 - i"] by (auto simp: byte_bits_def bit_simps nth_append)
qed

lemma or_last:
  assumes "stream_bits dst = E @ replicate r False" "0 < r" "r \<le> 8" "dst \<noteq> []" "\<And>i. r \<le> i \<Longrightarrow> \<not> bit t i"
  shows "stream_bits (or_at (length dst - 1) t dst) = E @ msb_bits r t"
proof -
  obtain ds b where dst: "dst = ds @ [b]" using assms(4) by (cases dst rule: rev_cases) auto
  have len: "8 * length ds + 8 = length E + r" using arg_cong [OF assms(1), of length] dst by simp
  define as where "as = drop (8 * length ds) E"
  have E: "E = stream_bits ds @ as"
  proof -
    have "take (8 * length ds) (stream_bits dst) = stream_bits ds" by (simp add: dst)
    moreover have "take (8 * length ds) (stream_bits dst) = take (8 * length ds) E"
      using len assms(1,3) by simp
    ultimately show ?thesis by (metis append_take_drop_id as_def)
  qed
  have "byte_bits b = as @ replicate r False" using assms(1) E dst by simp
  from byte_bits_or [OF this assms(3,5)] E dst show ?thesis
    using or_at_append [of ds t b "[]"] by simp
qed

section \<open>One code\<close>

lemma append_code_bits:
  assumes "dst \<noteq> []" "stream_bits dst = E @ replicate r False" "0 < r" "r \<le> 8" "0 < n"
    "r = 8 \<or> (\<forall>i \<ge> n. \<not> bit code i)"
  shows "\<exists>dst' r'. append_code_loop dst r code n = Ret (dst', r') \<and> dst' \<noteq> [] \<and> 0 < r' \<and> r' \<le> 8 \<and>
    stream_bits dst' = E @ msb_bits n code @ replicate (if r' = 8 then 0 else r') False"
  using assms
proof (induction n arbitrary: dst r E rule: less_induct)
  case (less n)
  show ?case
  proof (cases "r > n")
    case True
    let ?t = "ucast (push_bit (r - n) code) :: byte"
    have hi: "\<not> bit ?t i" if "r \<le> i" for i
      using that less.prems(4,6) True by (auto simp: bit_simps)
    have "msb_bits r ?t = msb_bits n code @ replicate (r - n) False"
      by (rule nth_equalityI) (use True less.prems(4) in \<open>auto simp: nth_append bit_simps\<close>)
    with or_last [OF less.prems(2-4,1) hi] True less.prems show ?thesis
      by (auto simp: append_code_loop.simps [of dst] or_at_def)
  next
    case False
    let ?t = "ucast (drop_bit (n - r) code) :: byte" and ?dst = "or_at (length dst - 1) (ucast (drop_bit (n - r) code)) dst"
    have hi: "\<not> bit ?t i" if "r \<le> i" for i
      using that less.prems(4,6) False by (auto simp: bit_simps)
    have t: "msb_bits r ?t = take r (msb_bits n code)"
      using False less.prems(4) by (simp add: msb_bits_ucast take_msb_bits)
    have bits: "stream_bits ?dst = E @ take r (msb_bits n code)"
      using or_last [OF less.prems(2-4,1) hi] t by simp
    show ?thesis
    proof (cases "n = r")
      case True
      then show ?thesis using bits less.prems by (auto simp: append_code_loop.simps [of dst] or_at_def)
    next
      case neq: False
      have "stream_bits (?dst @ [0]) = (E @ take r (msb_bits n code)) @ replicate 8 False"
        using bits by (simp add: byte_bits_def)
      from less.IH [of "n - r", OF _ _ this] False neq less.prems(3)
      obtain dst' r' where "append_code_loop (?dst @ [0]) 8 code (n - r) = Ret (dst', r')" "dst' \<noteq> []" "0 < r'" "r' \<le> 8"
        "stream_bits dst' = (E @ take r (msb_bits n code)) @ msb_bits (n - r) code @ replicate (if r' = 8 then 0 else r') False"
        by auto
      then show ?thesis
        using False neq less.prems(3) take_drop_bits [of r n code]
        by (auto simp: append_code_loop.simps [of dst r code n] Let_def)
    qed
  qed
qed

section \<open>A whole string\<close>

lemma append_byte_bits:
  assumes "dst \<noteq> []" "stream_bits dst = E @ replicate r False" "0 < r" "r \<le> 8"
  shows "\<exists>dst' r'. appendByteToHuffmanCode dst r c = Ret (dst', r') \<and> dst' \<noteq> [] \<and> 0 < r' \<and> r' \<le> 8 \<and>
    stream_bits dst' = E @ sym_bits c @ replicate (if r' = 8 then 0 else r') False"
proof -
  let ?code = "huffmanCodes ! unat c" and ?n = "huffmanCodeLen ! unat c"
  have "take_bit ?n ?code = ?code"
    using entry_ok(3) [of "unat c"] by (intro take_bit_word_self) simp
  then have "\<not> bit ?code i" if "?n \<le> i" for i
    using that by (metis bit_take_bit_iff not_le)
  with append_code_bits [OF assms, of ?n ?code] entry_ok(1) [of "unat c"] show ?thesis
    by (simp add: appendByteToHuffmanCode_def sym_bits_def code_bits_def)
qed

lemma append_string_bits:
  "stream_bits dst = E @ replicate (if r = 8 then 0 else r) False \<Longrightarrow> 0 < r \<Longrightarrow> r \<le> 8 \<Longrightarrow> r \<noteq> 8 \<longrightarrow> dst \<noteq> [] \<Longrightarrow>
   \<exists>dst' r'. append_string_loop dst r s = Ret (dst', r') \<and> 0 < r' \<and> r' \<le> 8 \<and> (r' \<noteq> 8 \<longrightarrow> dst' \<noteq> []) \<and>
     stream_bits dst' = E @ hc.enc_bits s @ replicate (if r' = 8 then 0 else r') False"
proof (induction s arbitrary: dst r E)
  case Nil
  then show ?case by auto
next
  case (Cons c s)
  let ?dst = "if r = 8 then dst @ [0] else dst"
  have A: "stream_bits ?dst = E @ replicate r False" using Cons.prems(1) by (simp add: byte_bits_def)
  have B: "?dst \<noteq> []" using Cons.prems(4) by simp
  from append_byte_bits [OF B A Cons.prems(2,3), of c] obtain dst1 r1 where
    1: "appendByteToHuffmanCode ?dst r c = Ret (dst1, r1)" "dst1 \<noteq> []" "0 < r1" "r1 \<le> 8"
      "stream_bits dst1 = E @ sym_bits c @ replicate (if r1 = 8 then 0 else r1) False" by blast
  have 2: "stream_bits dst1 = (E @ sym_bits c) @ replicate (if r1 = 8 then 0 else r1) False"
    using 1(5) by (simp only: append.assoc)
  have 3: "append_string_loop dst r (c # s) = append_string_loop dst1 r1 s"
    by (simp only: append_string_loop.simps 1(1) go_bind.simps prod.case)
  from Cons.IH [OF 2 1(3,4)] 1(2) show ?case
    unfolding 3 hc.enc_bits_simps append.assoc by blast
qed

lemma AppendHuffmanString_bits:
  "\<exists>out pad. AppendHuffmanString dst s = Ret out \<and> pad < 8 \<and>
    stream_bits out = stream_bits dst @ hc.enc_bits s @ replicate pad True"
proof -
  obtain dst' r where d: "append_string_loop dst 8 s = Ret (dst', r)" "0 < r" "r \<le> 8" "r \<noteq> 8 \<longrightarrow> dst' \<noteq> []"
      "stream_bits dst' = (stream_bits dst @ hc.enc_bits s) @ replicate (if r = 8 then 0 else r) False"
    using append_string_bits [of dst "stream_bits dst" 8 s] by auto
  show ?thesis
  proof (cases "r = 8")
    case True
    with d show ?thesis by (auto simp: AppendHuffmanString_def intro!: exI [of _ 0])
  next
    case False
    let ?t = "ucast (drop_bit (30 - r) (0x3fffffff :: u32)) :: byte"
    have mask: "(0x3fffffff :: u32) = mask 30" by (simp add: mask_eq_exp_minus_1)
    have hi: "\<not> bit ?t i" if "r \<le> i" for i
      unfolding mask using that d(3) by (auto simp: bit_simps bit_mask_le)
    have "msb_bits r ?t = replicate r True"
      unfolding mask by (rule nth_equalityI) (use d(3) in \<open>auto simp: bit_simps bit_mask_le\<close>)
    with or_last [of dst' _ r ?t] d False hi
    have "stream_bits (or_at (length dst' - 1) ?t dst') = (stream_bits dst @ hc.enc_bits s) @ replicate r True"
      by simp
    with d False show ?thesis
      by (auto simp: AppendHuffmanString_def Let_def intro!: exI [of _ r])
  qed
qed

section \<open>Lengths\<close>

lemma length_enc_bits: "length (hc.enc_bits s) = sum_list (map (\<lambda>c. huffmanCodeLen ! unat c) s)"
  by (induction s) (simp_all add: length_sym_bits)

lemma foldl_code_len:
  "foldl (\<lambda>n c. n + word_of_nat (huffmanCodeLen ! unat c)) n s = n + (word_of_nat (length (hc.enc_bits s)) :: u64)"
  by (induction s arbitrary: n) (simp_all add: length_sym_bits)

lemma HuffmanEncodeLength_eq:
  assumes "length (hc.enc_bits s) + 7 < 2 ^ 64" "AppendHuffmanString [] s = Ret out"
  shows "unat (HuffmanEncodeLength s) = length out"
proof -
  obtain pad where pad: "pad < 8" "stream_bits out = hc.enc_bits s @ replicate pad True"
    using AppendHuffmanString_bits [of "[]" s] assms(2) by auto
  have len: "8 * length out = length (hc.enc_bits s) + pad" using arg_cong [OF pad(2), of length] by simp
  have "HuffmanEncodeLength s = word_of_nat (length (hc.enc_bits s) + 7) div 8"
    by (simp add: HuffmanEncodeLength_def foldl_code_len)
  moreover have "unat (word_of_nat (length (hc.enc_bits s) + 7) :: u64) = length (hc.enc_bits s) + 7"
    using assms(1) by (simp only: unat_of_nat) simp
  ultimately have "unat (HuffmanEncodeLength s) = (length (hc.enc_bits s) + 7) div 8"
    by (simp add: unat_div)
  also have "\<dots> = length out" using len pad(1) by linarith
  finally show ?thesis .
qed

lemma AppendHuffmanString_append:
  assumes "AppendHuffmanString [] s = Ret out"
  shows "AppendHuffmanString dst s = Ret (dst @ out)"
proof -
  obtain out' pad' where o': "AppendHuffmanString dst s = Ret out'" "pad' < 8"
      "stream_bits out' = stream_bits dst @ hc.enc_bits s @ replicate pad' True"
    using AppendHuffmanString_bits by blast
  obtain pad where o: "pad < 8" "stream_bits out = hc.enc_bits s @ replicate pad True"
    using AppendHuffmanString_bits [of "[]" s] assms by auto
  have "8 * length out = length (hc.enc_bits s) + pad" "8 * length out' = 8 * length dst + length (hc.enc_bits s) + pad'"
    using arg_cong [OF o(2), of length] arg_cong [OF o'(3), of length] by simp_all
  then have "pad = pad'" using o(1) o'(2) by presburger
  with o o' have "stream_bits out' = stream_bits (dst @ out)" by simp
  then have "out' = dst @ out" by (simp only: stream_bits_inject)
  then show ?thesis using o'(1) by simp
qed

lemma huffmanDecode_append:
  assumes "AppendHuffmanString [] s = Ret v" "mx = 0 \<or> int (length s) \<le> mx"
  shows "huffmanDecode mx v = Ret s"
proof -
  obtain pad where "pad < 8" "stream_bits v = hc.enc_bits s @ replicate pad True"
    using AppendHuffmanString_bits [of "[]" s] assms(1) by auto
  then show ?thesis using assms(2) hc.decode_complete by (simp add: huffmanDecode_eq)
qed

section \<open>Properties\<close>

text \<open>C22: the Huffman decoder accepts exactly the outputs of the encoder: decoding \<open>v\<close> gives \<open>s\<close> if and
  only if encoding \<open>s\<close> gives \<open>v\<close>. In particular every string survives encoding and decoding, a
  string has one encoding only, and truncated symbols, overlong padding and padding other than
  ones are rejected; neither direction panics.\<close>

theorem HuffmanDecode_inverse:
  "HuffmanDecodeToString v = Ret s \<longleftrightarrow> AppendHuffmanString [] s = Ret v"
proof
  obtain out pad where o: "AppendHuffmanString [] s = Ret out" "pad < 8" "stream_bits out = hc.enc_bits s @ replicate pad True"
    using AppendHuffmanString_bits [of "[]" s] by auto
  show "HuffmanDecodeToString v = Ret s" if "AppendHuffmanString [] s = Ret v"
    using that o hc.decode_complete [OF o(3,2), of 0]
    by (simp add: HuffmanDecodeToString_def huffmanDecode_eq)
  assume "HuffmanDecodeToString v = Ret s"
  then obtain pad' where p: "pad' < 8" "stream_bits v = hc.enc_bits s @ replicate pad' True"
    using hc.decode_sound [of 0 v s] by (auto simp: HuffmanDecodeToString_def huffmanDecode_eq)
  have "8 * length out = length (hc.enc_bits s) + pad" "8 * length v = length (hc.enc_bits s) + pad'"
    using arg_cong [OF o(3), of length] arg_cong [OF p(2), of length] by simp_all
  then have "pad = pad'" using o(2) p(1) by presburger
  with o p have "stream_bits v = stream_bits out" by simp
  then have "v = out" by (simp only: stream_bits_inject)
  then show "AppendHuffmanString [] s = Ret v" using o(1) by simp
qed

end
