(* ===== verification/Hpack_Codec.thy ===== *)
theory Hpack_Codec
  imports Hpack_Table Huffman_Encode
begin

text \<open>
  HPACK's \<open>Encoder\<close> (encode.go) and \<open>Decoder\<close> (hpack.go). The decoder's emit callback is given
  by what it observes and does: \<open>emitted\<close> lists the fields it was called with, and \<open>emit\<close> says for such a
  list whether it leaves \<open>emitEnabled\<close> on (a callback may call \<open>SetEmitEnabled(false)\<close>); a fatal error ends the model of a call, as the
  source says a decoder is not used after one.
\<close>

section \<open>Encoder\<close>

definition uint32Max :: u32 where
  "uint32Max = - 1"

definition initialHeaderTableSize :: u32 where
  "initialHeaderTableSize = 4096"

record Encoder =
  edynTab :: dynamicTable
  minSize :: u32
  maxSizeLimit :: u32
  tableSizeUpdate :: bool
  ebuf :: bytes

definition NewEncoder :: "(hpack_error, Encoder) go" where
  "NewEncoder =
     go_bind (setMaxSize \<lparr>table = table_init, dsize = 0, maxSize = 0, allowedMaxSize = 0\<rparr> initialHeaderTableSize)
       (\<lambda>dt. Ret \<lparr>edynTab = dt, minSize = uint32Max, maxSizeLimit = initialHeaderTableSize,
                   tableSizeUpdate = False, ebuf = []\<rparr>)"

definition searchTable :: "Encoder \<Rightarrow> HeaderField \<Rightarrow> (hpack_error, u64 \<times> bool) go" where
  "searchTable e f =
     go_bind (search True staticTable f) (\<lambda>(i, nameValueMatch).
       if nameValueMatch then Ret (i, True)
       else go_bind (search False (table (edynTab e)) f) (\<lambda>(j, nameValueMatch).
         if nameValueMatch \<or> (i = 0 \<and> j \<noteq> 0)
         then Ret (j + word_of_nat (table_len staticTable), nameValueMatch)
         else Ret (i, False)))"

definition Encoder_SetMaxDynamicTableSize :: "Encoder \<Rightarrow> u32 \<Rightarrow> (hpack_error, Encoder) go" where
  "Encoder_SetMaxDynamicTableSize e v =
     (let v = (if v > maxSizeLimit e then maxSizeLimit e else v);
          e = (if v < minSize e then e\<lparr>minSize := v\<rparr> else e);
          e = e\<lparr>tableSizeUpdate := True\<rparr>
      in go_bind (setMaxSize (edynTab e) v) (\<lambda>dt. Ret (e\<lparr>edynTab := dt\<rparr>)))"

definition SetMaxDynamicTableSizeLimit :: "Encoder \<Rightarrow> u32 \<Rightarrow> (hpack_error, Encoder) go" where
  "SetMaxDynamicTableSizeLimit e v =
     (let e = e\<lparr>maxSizeLimit := v\<rparr>
      in if maxSize (edynTab e) > v
         then let e = e\<lparr>tableSizeUpdate := True\<rparr>
              in go_bind (setMaxSize (edynTab e) v) (\<lambda>dt. Ret (e\<lparr>edynTab := dt\<rparr>))
         else Ret e)"

definition shouldIndex :: "Encoder \<Rightarrow> HeaderField \<Rightarrow> bool" where
  "shouldIndex e f \<longleftrightarrow> \<not> Sensitive f \<and> Size f \<le> maxSize (edynTab e)"

definition encodeTypeByte :: "bool \<Rightarrow> bool \<Rightarrow> byte" where
  "encodeTypeByte indexing sensitive = (if sensitive then 0x10 else if indexing then 0x40 else 0)"

definition appendIndexed :: "bytes \<Rightarrow> u64 \<Rightarrow> bytes" where
  "appendIndexed dst i = or_at (length dst) 0x80 (appendVarInt dst 7 i)"

definition appendTableSize :: "bytes \<Rightarrow> u32 \<Rightarrow> bytes" where
  "appendTableSize dst v = or_at (length dst) 0x20 (appendVarInt dst 5 (ucast v))"

definition appendHpackString :: "bytes \<Rightarrow> bytes \<Rightarrow> (hpack_error, bytes) go" where
  "appendHpackString dst s =
     (let huffmanLength = HuffmanEncodeLength s
      in if unat huffmanLength < length s
         then let first = length dst
              in go_bind (AppendHuffmanString (appendVarInt dst 7 huffmanLength) s)
                   (\<lambda>dst. Ret (or_at first 0x80 dst))
         else Ret (appendVarInt dst 7 (word_of_nat (length s)) @ s))"

definition appendNewName :: "bytes \<Rightarrow> HeaderField \<Rightarrow> bool \<Rightarrow> (hpack_error, bytes) go" where
  "appendNewName dst f indexing =
     go_bind (appendHpackString (dst @ [encodeTypeByte indexing (Sensitive f)]) (Name f))
       (\<lambda>dst. appendHpackString dst (Value f))"

definition appendIndexedName :: "bytes \<Rightarrow> HeaderField \<Rightarrow> u64 \<Rightarrow> bool \<Rightarrow> (hpack_error, bytes) go" where
  "appendIndexedName dst f i indexing =
     (let n = (if indexing then 6 else 4)
      in appendHpackString
           (or_at (length dst) (encodeTypeByte indexing (Sensitive f)) (appendVarInt dst n i)) (Value f))"

text \<open>The three parts of \<open>WriteField\<close>: pending size updates, the field itself, the single write.\<close>

definition flushSizeUpdate :: "Encoder \<Rightarrow> Encoder" where
  "flushSizeUpdate e =
     (if tableSizeUpdate e
      then let e = e\<lparr>tableSizeUpdate := False\<rparr>;
               e = (if minSize e < maxSize (edynTab e)
                    then e\<lparr>ebuf := appendTableSize (ebuf e) (minSize e)\<rparr> else e);
               e = e\<lparr>minSize := uint32Max\<rparr>
           in e\<lparr>ebuf := appendTableSize (ebuf e) (maxSize (edynTab e))\<rparr>
      else e)"

definition writeRepr :: "Encoder \<Rightarrow> HeaderField \<Rightarrow> (hpack_error, Encoder) go" where
  "writeRepr e f =
     go_bind (searchTable e f) (\<lambda>(idx, nameValueMatch).
       if nameValueMatch then Ret (e\<lparr>ebuf := appendIndexed (ebuf e) idx\<rparr>)
       else let indexing = shouldIndex e f
            in go_bind (if indexing
                        then go_bind (dyn_add (edynTab e) f) (\<lambda>dt. Ret (e\<lparr>edynTab := dt\<rparr>))
                        else Ret e) (\<lambda>e.
               go_bind (if idx = 0 then appendNewName (ebuf e) f indexing
                        else appendIndexedName (ebuf e) f idx indexing) (\<lambda>buf.
               Ret (e\<lparr>ebuf := buf\<rparr>))))"

definition encodeField :: "Encoder \<Rightarrow> HeaderField \<Rightarrow> (hpack_error, Encoder) go" where
  "encodeField e f = writeRepr (flushSizeUpdate (e\<lparr>ebuf := []\<rparr>)) f"

definition WriteField ::
  "'w writer \<Rightarrow> Encoder \<Rightarrow> HeaderField \<Rightarrow> (hpack_error, Encoder \<times> 'w write_error option) go" where
  "WriteField w e f = go_bind (encodeField e f) (\<lambda>e. Ret (e, write_all w (ebuf e)))"

text \<open>\<open>HuffmanDecode\<close> writes what it decoded with a single write.\<close>

definition HuffmanDecode ::
  "'w writer \<Rightarrow> bytes \<Rightarrow> (hpack_error, int \<times> 'w option) go" where
  "HuffmanDecode w v = go_bind (huffmanDecode 0 v) (\<lambda>buf. Ret (w buf))"

section \<open>Decoder\<close>

record Decoder =
  ddynTab :: dynamicTable
  emit :: "HeaderField list \<Rightarrow> bool"
  emitEnabled :: bool
  maxStrLen :: int
  dbuf :: bytes
  saveBuf :: bytes
  emitted :: "HeaderField list"

text \<open>A new decoder with an emit function that only collects.\<close>

definition NewDecoder :: "u32 \<Rightarrow> (hpack_error, Decoder) go" where
  "NewDecoder maxDynamicTableSize =
     go_bind (setMaxSize \<lparr>table = table_init, dsize = 0, maxSize = 0, allowedMaxSize = maxDynamicTableSize\<rparr>
                maxDynamicTableSize)
       (\<lambda>dt. Ret \<lparr>ddynTab = dt, emit = \<lambda>_. True, emitEnabled = True, maxStrLen = 0, dbuf = [], saveBuf = [], emitted = []\<rparr>)"

definition SetMaxStringLength :: "Decoder \<Rightarrow> int \<Rightarrow> Decoder" where
  "SetMaxStringLength d n = d\<lparr>maxStrLen := n\<rparr>"

text \<open>A new emit function, and the fields it has been called with.\<close>

definition SetEmitFunc :: "Decoder \<Rightarrow> (HeaderField list \<Rightarrow> bool) \<Rightarrow> HeaderField list \<Rightarrow> Decoder" where
  "SetEmitFunc d emitFunc sink = d\<lparr>emit := emitFunc, emitted := sink\<rparr>"

definition EmitEnabled :: "Decoder \<Rightarrow> bool" where
  "EmitEnabled d = emitEnabled d"

definition SetEmitEnabled :: "Decoder \<Rightarrow> bool \<Rightarrow> Decoder" where
  "SetEmitEnabled d v = d\<lparr>emitEnabled := v\<rparr>"

definition Decoder_SetMaxDynamicTableSize :: "Decoder \<Rightarrow> u32 \<Rightarrow> (hpack_error, Decoder) go" where
  "Decoder_SetMaxDynamicTableSize d v = go_bind (setMaxSize (ddynTab d) v) (\<lambda>dt. Ret (d\<lparr>ddynTab := dt\<rparr>))"

definition SetAllowedMaxDynamicTableSize :: "Decoder \<Rightarrow> u32 \<Rightarrow> Decoder" where
  "SetAllowedMaxDynamicTableSize d v = d\<lparr>ddynTab := (ddynTab d)\<lparr>allowedMaxSize := v\<rparr>\<rparr>"

definition maxTableIndex :: "Decoder \<Rightarrow> nat" where
  "maxTableIndex d = table_len (table (ddynTab d)) + table_len staticTable"

text \<open>\<open>at\<close>, with \<open>None\<close> for \<open>ok == false\<close>.\<close>

definition table_at :: "Decoder \<Rightarrow> u64 \<Rightarrow> HeaderField option" where
  "table_at d i =
     (if i = 0 then None
      else if i \<le> word_of_nat (table_len staticTable) then Some (ents staticTable ! (unat i - 1))
      else if i > word_of_nat (maxTableIndex d) then None
      else let dt = table (ddynTab d)
           in Some (ents dt ! (table_len dt - (unat i - table_len staticTable))))"

datatype indexType = indexedTrue | indexedFalse | indexedNever

definition indexed :: "indexType \<Rightarrow> bool" where
  "indexed v \<longleftrightarrow> v = indexedTrue"

definition sensitive :: "indexType \<Rightarrow> bool" where
  "sensitive v \<longleftrightarrow> v = indexedNever"

definition readString :: "Decoder \<Rightarrow> bytes \<Rightarrow> bool \<Rightarrow> (hpack_error, bytes \<times> bytes) go" where
  "readString d p wantStr =
     (case p of
        [] \<Rightarrow> Fail ErrNeedMore
      | b # _ \<Rightarrow>
          (let isHuff = (b AND 128 \<noteq> 0)
           in go_bind (readVarInt 7 p) (\<lambda>(strLen, p).
              if maxStrLen d \<noteq> 0 \<and> strLen > word_of_int (maxStrLen d) then Fail ErrStringLength
              else if length p < unat strLen then Fail ErrNeedMore
              else if \<not> isHuff
              then Ret (if wantStr then take (unat strLen) p else [], drop (unat strLen) p)
              else if wantStr
              then go_bind (huffmanDecode (maxStrLen d) (take (unat strLen) p))
                     (\<lambda>s. Ret (s, drop (unat strLen) p))
              else Ret ([], drop (unat strLen) p))))"

text \<open>
  The parsing methods return the decoder as they leave it and their error; they panic where a
  call they make does.
\<close>

type_synonym parse_result = "(hpack_error, Decoder \<times> hpack_error option) go"

definition callEmit :: "Decoder \<Rightarrow> HeaderField \<Rightarrow> Decoder \<times> hpack_error option" where
  "callEmit d hf =
     (if maxStrLen d \<noteq> 0 \<and> (int (length (Name hf)) > maxStrLen d \<or> int (length (Value hf)) > maxStrLen d)
      then (d, Some ErrStringLength)
      else (if emitEnabled d
            then d\<lparr>emitted := emitted d @ [hf], emitEnabled := emit d (emitted d @ [hf])\<rparr>
            else d, None))"

definition parseFieldIndexed :: "Decoder \<Rightarrow> parse_result" where
  "parseFieldIndexed d =
     go_try d (readVarInt 7 (dbuf d)) (\<lambda>(idx, buf).
       case table_at d idx of
         None \<Rightarrow> Ret (d, Some (InvalidIndexError idx))
       | Some hf \<Rightarrow>
           Ret (callEmit (d\<lparr>dbuf := buf\<rparr>) \<lparr>Name = Name hf, Value = Value hf, Sensitive = False\<rparr>))"

text \<open>The name of a literal field: an entry's, or a string of the input.\<close>

definition literal_name :: "Decoder \<Rightarrow> u64 \<Rightarrow> bytes \<Rightarrow> bool \<Rightarrow> (hpack_error, bytes \<times> bytes) go" where
  "literal_name d nameIdx buf wantStr =
     (if nameIdx > 0
      then case table_at d nameIdx of
             None \<Rightarrow> Fail (InvalidIndexError nameIdx)
           | Some ihf \<Rightarrow> Ret (Name ihf, buf)
      else readString d buf wantStr)"

definition parseFieldLiteral :: "Decoder \<Rightarrow> nat \<Rightarrow> indexType \<Rightarrow> parse_result" where
  "parseFieldLiteral d n it =
     go_try d (readVarInt n (dbuf d)) (\<lambda>(nameIdx, buf).
       let wantStr = (emitEnabled d \<or> indexed it)
       in go_try d (literal_name d nameIdx buf wantStr) (\<lambda>(name, buf).
          go_try d (readString d buf wantStr) (\<lambda>(val, buf).
          let hf = \<lparr>Name = name, Value = val, Sensitive = False\<rparr>;
              d = d\<lparr>dbuf := buf\<rparr>
          in go_bind (if indexed it
                      then go_bind (dyn_add (ddynTab d) hf) (\<lambda>dt. Ret (d\<lparr>ddynTab := dt\<rparr>))
                      else Ret d) (\<lambda>d.
             Ret (callEmit d (hf\<lparr>Sensitive := sensitive it\<rparr>))))))"

definition parseDynamicTableSizeUpdate :: "Decoder \<Rightarrow> parse_result" where
  "parseDynamicTableSizeUpdate d =
     go_try d (readVarInt 5 (dbuf d)) (\<lambda>(sz, buf).
       if sz > ucast (allowedMaxSize (ddynTab d)) then Ret (d, Some ErrTableSizeTooLarge)
       else go_bind (setMaxSize (ddynTab d) (ucast sz)) (\<lambda>dt.
         Ret (d\<lparr>ddynTab := dt, dbuf := buf\<rparr>, None)))"

definition parseHeaderFieldRepr :: "Decoder \<Rightarrow> parse_result" where
  "parseHeaderFieldRepr d =
     (case dbuf d of
        [] \<Rightarrow> Panic
      | b # _ \<Rightarrow>
          if b AND 128 \<noteq> 0 then parseFieldIndexed d
          else if b AND 192 = 64 then parseFieldLiteral d 6 indexedTrue
          else if b AND 240 = 0 then parseFieldLiteral d 4 indexedFalse
          else if b AND 240 = 16 then parseFieldLiteral d 4 indexedNever
          else if b AND 224 = 32 then parseDynamicTableSizeUpdate d
          else Ret (d, Some ErrInvalidEncoding))"

section \<open>Every representation consumes input\<close>

lemma readVarInt_shorter: "readVarInt n p = Ret (i, r) \<Longrightarrow> length r < length p"
  by (drule readVarInt_split) auto

lemma readString_shorter: "readString d p w = Ret (s, r) \<Longrightarrow> length r < length p"
  by (auto simp: readString_def go_bind_eq_Ret Let_def split: list.splits if_splits dest!: readVarInt_shorter)

lemma literal_name_le: "literal_name d i p w = Ret (s, r) \<Longrightarrow> length r \<le> length p"
  by (auto simp: literal_name_def split: if_splits option.splits dest: readString_shorter)

lemma callEmit_buf [simp]: "dbuf (fst (callEmit d hf)) = dbuf d"
  by (simp add: callEmit_def)

lemma callEmit_eq_buf: "callEmit d hf = (d', r) \<Longrightarrow> dbuf d' = dbuf d"
  using callEmit_buf [of d hf] by simp

lemma parseFieldLiteral_shorter:
  assumes "parseFieldLiteral d n it = Ret (d', None)"
  shows "length (dbuf d') < length (dbuf d)"
proof -
  from assms obtain i p1 name p2 val p3 where
    "readVarInt n (dbuf d) = Ret (i, p1)" "literal_name d i p1 (emitEnabled d \<or> indexed it) = Ret (name, p2)"
    "readString d p2 (emitEnabled d \<or> indexed it) = Ret (val, p3)" "dbuf d' = p3"
    by (auto simp: parseFieldLiteral_def go_try_eq_None Let_def go_bind_eq_Ret split: if_splits dest!: callEmit_eq_buf)
  then show ?thesis using readVarInt_shorter literal_name_le readString_shorter by fastforce
qed

lemma parse_shorter: "parseHeaderFieldRepr d = Ret (d', None) \<Longrightarrow> length (dbuf d') < length (dbuf d)"
  by (auto simp: parseHeaderFieldRepr_def parseFieldIndexed_def parseDynamicTableSizeUpdate_def
      go_try_eq_None go_bind_eq_Ret
      split: list.splits if_splits option.splits
      dest!: readVarInt_shorter callEmit_eq_buf parseFieldLiteral_shorter)

section \<open>Write, Close and DecodeFull\<close>

definition varIntOverhead :: int where
  "varIntOverhead = 8"

text \<open>The loop of \<open>Write\<close>; \<open>n\<close> is the length of the input, the count it returns.\<close>

function write_loop :: "nat \<Rightarrow> Decoder \<Rightarrow> (hpack_error, nat \<times> Decoder \<times> hpack_error option) go" where
  "write_loop n d =
     (if dbuf d = [] then Ret (n, d, None)
      else case parseHeaderFieldRepr d of
        Ret (d', None) \<Rightarrow> write_loop n d'
      | Ret (d', Some e) \<Rightarrow>
          if e = ErrNeedMore
          then if maxStrLen d' \<noteq> 0 \<and> int (length (dbuf d')) > 2 * (maxStrLen d' + varIntOverhead)
               then Ret (0, d', Some ErrStringLength)
               else Ret (n, d'\<lparr>saveBuf := saveBuf d' @ dbuf d'\<rparr>, None)
          else Ret (n, d', Some e)
      | Fail e \<Rightarrow> Fail e
      | Panic \<Rightarrow> Panic)"
  by pat_completeness auto
termination
  by (relation "measure (\<lambda>(n, d). length (dbuf d))") (auto simp: parse_shorter)

declare write_loop.simps [simp del]

lemma write_loop_end: "dbuf d = [] \<Longrightarrow> write_loop n d = Ret (n, d, None)"
  by (simp add: write_loop.simps [of n d])

lemma parse_input: "parseHeaderFieldRepr d \<noteq> Panic \<Longrightarrow> dbuf d \<noteq> []"
  by (auto simp: parseHeaderFieldRepr_def)

lemma write_loop_step: "parseHeaderFieldRepr d = Ret (d', None) \<Longrightarrow> write_loop n d = write_loop n d'"
  using parse_input [of d] by (simp add: write_loop.simps [of n d])

lemma write_loop_error:
  "parseHeaderFieldRepr d = Ret (d', Some e) \<Longrightarrow> e \<noteq> ErrNeedMore \<Longrightarrow> write_loop n d = Ret (n, d', Some e)"
  using parse_input [of d] by (simp add: write_loop.simps [of n d])

lemma write_loop_save:
  "parseHeaderFieldRepr d = Ret (d', Some ErrNeedMore) \<Longrightarrow>
   maxStrLen d' = 0 \<or> int (length (dbuf d')) \<le> 2 * (maxStrLen d' + varIntOverhead) \<Longrightarrow>
   write_loop n d = Ret (n, d'\<lparr>saveBuf := saveBuf d' @ dbuf d'\<rparr>, None)"
  using parse_input [of d] by (auto simp: write_loop.simps [of n d])

lemma write_loop_stop:
  "parseHeaderFieldRepr d = Fail e \<Longrightarrow> write_loop n d = Fail e"
  "dbuf d \<noteq> [] \<Longrightarrow> parseHeaderFieldRepr d = Panic \<Longrightarrow> write_loop n d = Panic"
  using parse_input [of d] by (simp_all add: write_loop.simps [of n d])

definition Decoder_Write :: "Decoder \<Rightarrow> bytes \<Rightarrow> (hpack_error, nat \<times> Decoder \<times> hpack_error option) go" where
  "Decoder_Write d p =
     (if p = [] then Ret (0, d, None)
      else let d = (if saveBuf d = [] then d\<lparr>dbuf := p\<rparr>
                    else d\<lparr>dbuf := saveBuf d @ p, saveBuf := []\<rparr>)
           in write_loop (length p) d)"

definition Decoder_Close :: "Decoder \<Rightarrow> Decoder \<times> hpack_error option" where
  "Decoder_Close d = (if saveBuf d \<noteq> [] then (d\<lparr>saveBuf := []\<rparr>, Some ErrTruncatedHeaders) else (d, None))"

text \<open>
  \<open>DecodeFull\<close> collects the fields with an emit function of its own and restores the caller's:
  the fields collected so far are put aside and put back.
\<close>

definition DecodeFull ::
  "Decoder \<Rightarrow> bytes \<Rightarrow> (hpack_error, HeaderField list \<times> Decoder \<times> hpack_error option) go" where
  "DecodeFull d p =
     (let saveFunc = (\<lambda>d'. SetEmitFunc d' (emit d) (emitted d))
      in go_bind (Decoder_Write (SetEmitFunc d (\<lambda>_. True) []) p) (\<lambda>(_, d1, err).
           case err of
             Some e \<Rightarrow> Ret ([], saveFunc d1, Some e)
           | None \<Rightarrow>
               (case Decoder_Close d1 of
                  (d2, Some e) \<Rightarrow> Ret ([], saveFunc d2, Some e)
                | (d2, None) \<Rightarrow> Ret (emitted d2, saveFunc d2, None))))"

end
