(* ===== verification/Hpack_Stream.thy ===== *)
theory Hpack_Stream
  imports Hpack_Codec
begin

text \<open>
  The decoder on arbitrary input: it never panics and keeps its table within the allowed size,
  and input may be cut into \<open>Write\<close> calls anywhere.
\<close>

section \<open>Readers that resume\<close>

text \<open>
  The contract of every reader of the decoder: an answer other than \<open>errNeedMore\<close> does not change
  when more bytes follow, they are only left over.
\<close>

locale stream_reader =
  fixes rd :: "bytes \<Rightarrow> (hpack_error, 'a \<times> bytes) go"
  assumes extend: "rd p \<noteq> Fail ErrNeedMore \<Longrightarrow> rd (p @ q) = go_bind (rd p) (\<lambda>(v, r). Ret (v, r @ q))"
begin

lemma extend_Ret: "rd p = Ret (v, r) \<Longrightarrow> rd (p @ q) = Ret (v, r @ q)"
  using extend [of p q] by simp

lemma extend_Fail: "rd p = Fail e \<Longrightarrow> e \<noteq> ErrNeedMore \<Longrightarrow> rd (p @ q) = Fail e"
  using extend [of p q] by simp

lemma extend_Panic: "rd p = Panic \<Longrightarrow> rd (p @ q) = Panic"
  using extend [of p q] by simp

text \<open>Parsing continues after the reader in the same way on the longer input.\<close>

lemma extend_try:
  assumes "go_try d (rd p) (\<lambda>(v, r). k v r) \<noteq> Ret (d, Some ErrNeedMore)"
    "\<And>v r. rd p = Ret (v, r) \<Longrightarrow> k v r \<noteq> Ret (d, Some ErrNeedMore) \<Longrightarrow> k' v (r @ q) = ext (k v r)"
    "\<And>e. ext (Ret (d, Some e)) = Ret (d', Some e)" "ext Panic = Panic"
  shows "go_try d' (rd (p @ q)) (\<lambda>(v, r). k' v r) = ext (go_try d (rd p) (\<lambda>(v, r). k v r))"
proof (cases "rd p")
  case (Ret x)
  obtain v r where "x = (v, r)" by fastforce
  with Ret assms(1,2) show ?thesis by (simp add: extend_Ret)
next
  case (Fail e)
  with assms(1) have "e \<noteq> ErrNeedMore" by auto
  with Fail assms(3) show ?thesis by (simp add: extend_Fail)
next
  case Panic
  with assms(4) show ?thesis by (simp add: extend_Panic)
qed

end

lemma readVarInt_extend:
  assumes "readVarInt n p \<noteq> Fail ErrNeedMore"
  shows "readVarInt n (p @ q) = go_bind (readVarInt n p) (\<lambda>(v, r). Ret (v, r @ q))"
proof (cases "readVarInt n p")
  case (Ret x)
  obtain v r where x: "x = (v, r)" by fastforce
  with Ret obtain c where "p = c @ r" "\<And>r'. readVarInt n (c @ r') = Ret (v, r')" using readVarInt_split by blast
  with Ret x show ?thesis by simp
next
  case (Fail e)
  with assms show ?thesis using readVarInt_Fail_append by fastforce
next
  case Panic
  then have "n < 1 \<or> 8 < n" using readVarInt_no_panic not_less by blast
  with Panic show ?thesis by (auto simp: readVarInt_def)
qed

interpretation vi: stream_reader "readVarInt n" for n
  by unfold_locales (rule readVarInt_extend)

lemma readString_extend:
  assumes "readString d p w \<noteq> Fail ErrNeedMore"
  shows "readString d (p @ q) w = go_bind (readString d p w) (\<lambda>(v, r). Ret (v, r @ q))"
proof -
  from assms obtain b t where p: "p = b # t" by (cases p) (auto simp: readString_def)
  show ?thesis
  proof (cases "readVarInt 7 p")
    case (Ret x)
    obtain n r where x: "x = (n, r)" by fastforce
    with Ret have r: "readVarInt 7 (b # t) = Ret (n, r)" "readVarInt 7 (b # t @ q) = Ret (n, r @ q)"
      using vi.extend_Ret [of 7 p n r q] p by simp_all
    then show ?thesis using assms p
      by (cases "length r < unat n") (auto simp: readString_def Let_def split: if_splits)
  next
    case (Fail e)
    then have "e \<noteq> ErrNeedMore" using assms p by (auto simp: readString_def)
    with Fail vi.extend_Fail [of 7 p e q] p show ?thesis by (simp add: readString_def)
  next
    case Panic
    with vi.extend_Panic [of 7 p q] p show ?thesis by (simp add: readString_def)
  qed
qed

interpretation rs: stream_reader "\<lambda>p. readString d p w" for d w
  by unfold_locales (rule readString_extend)

interpretation ln: stream_reader "\<lambda>p. literal_name d i p w" for d i w
  by unfold_locales (auto simp: literal_name_def rs.extend split: option.splits)

section \<open>One representation, then more input\<close>

fun extend_buf :: "bytes \<Rightarrow> parse_result \<Rightarrow> parse_result" where
  "extend_buf q (Ret (d, r)) = Ret (d\<lparr>dbuf := dbuf d @ q\<rparr>, r)"
| "extend_buf q m = m"

lemma extend_buf_bind [simp]: "extend_buf q (go_bind m k) = go_bind m (\<lambda>x. extend_buf q (k x))"
  by (cases m) simp_all

lemma callEmit_extend: "callEmit (d\<lparr>dbuf := b\<rparr>) hf = (case callEmit d hf of (d', r) \<Rightarrow> (d'\<lparr>dbuf := b\<rparr>, r))"
  by (simp add: callEmit_def)

lemma callEmit_not_NeedMore: "callEmit d hf \<noteq> (d', Some ErrNeedMore)"
  by (simp add: callEmit_def)

abbreviation feed :: "Decoder \<Rightarrow> bytes \<Rightarrow> Decoder" where
  "feed d q \<equiv> d\<lparr>dbuf := dbuf d @ q\<rparr>"

lemma table_at_more [simp]: "table_at (d\<lparr>dbuf := x\<rparr>) i = table_at d i"
  by (simp add: table_at_def maxTableIndex_def)

lemma readString_more [simp]: "readString (d\<lparr>dbuf := x\<rparr>) p w = readString d p w"
proof -
  have "maxStrLen (d\<lparr>dbuf := x\<rparr>) = maxStrLen d" by simp
  then show ?thesis by (simp only: readString_def)
qed

lemma literal_name_more [simp]: "literal_name (d\<lparr>dbuf := x\<rparr>) i p w = literal_name d i p w"
  by (simp add: literal_name_def)

lemma parseFieldIndexed_extend:
  assumes "parseFieldIndexed d \<noteq> Ret (d, Some ErrNeedMore)"
  shows "parseFieldIndexed (feed d q) = extend_buf q (parseFieldIndexed d)"
  using assms unfolding parseFieldIndexed_def
  by (simp, intro vi.extend_try) (auto simp: callEmit_extend callEmit_def split: option.splits)

lemma parseDynamicTableSizeUpdate_extend:
  assumes "parseDynamicTableSizeUpdate d \<noteq> Ret (d, Some ErrNeedMore)"
  shows "parseDynamicTableSizeUpdate (feed d q) = extend_buf q (parseDynamicTableSizeUpdate d)"
  using assms unfolding parseDynamicTableSizeUpdate_def
  by (simp, intro vi.extend_try) auto

lemma parseFieldLiteral_extend:
  assumes "parseFieldLiteral d n it \<noteq> Ret (d, Some ErrNeedMore)"
  shows "parseFieldLiteral (feed d q) n it = extend_buf q (parseFieldLiteral d n it)"
  using assms unfolding parseFieldLiteral_def Let_def
  by (simp, intro vi.extend_try ln.extend_try rs.extend_try)
    (auto simp: callEmit_extend callEmit_def intro!: go_bind_cong)

lemma parse_extend:
  assumes "dbuf d \<noteq> []" "parseHeaderFieldRepr d \<noteq> Ret (d, Some ErrNeedMore)"
  shows "parseHeaderFieldRepr (feed d q) = extend_buf q (parseHeaderFieldRepr d)"
proof -
  from assms(1) obtain b t where "dbuf d = b # t" by (cases "dbuf d") auto
  then show ?thesis
    using assms(2) parseFieldIndexed_extend [of d q] parseDynamicTableSizeUpdate_extend [of d q]
      parseFieldLiteral_extend [of d 6 indexedTrue q] parseFieldLiteral_extend [of d 4 indexedFalse q]
      parseFieldLiteral_extend [of d 4 indexedNever q]
    by (simp add: parseHeaderFieldRepr_def split: if_splits)
qed

lemma parse_NeedMore: "parseHeaderFieldRepr d = Ret (d', Some ErrNeedMore) \<Longrightarrow> d' = d"
  by (auto simp: parseHeaderFieldRepr_def parseFieldIndexed_def parseFieldLiteral_def parseDynamicTableSizeUpdate_def
      go_try_eq_Some Let_def go_bind_eq_Ret callEmit_not_NeedMore split: list.splits if_splits option.splits)

lemma callEmit_keeps:
  "callEmit d hf = (d', r) \<Longrightarrow> saveBuf d' = saveBuf d \<and> maxStrLen d' = maxStrLen d \<and> ddynTab d' = ddynTab d \<and> emit d' = emit d"
  by (auto simp: callEmit_def split: if_splits)

lemma parse_keeps:
  assumes "parseHeaderFieldRepr d = Ret (d', r)"
  shows "saveBuf d' = saveBuf d" "maxStrLen d' = maxStrLen d" "emit d' = emit d"
proof -
  have "saveBuf d' = saveBuf d \<and> maxStrLen d' = maxStrLen d \<and> emit d' = emit d"
    using assms
    by (cases r) (auto simp: parseHeaderFieldRepr_def parseFieldIndexed_def parseFieldLiteral_def parseDynamicTableSizeUpdate_def
      go_try_eq_Some go_try_eq_None Let_def go_bind_eq_Ret dest!: callEmit_keeps split: list.splits if_splits option.splits)
  then show "saveBuf d' = saveBuf d" "maxStrLen d' = maxStrLen d" "emit d' = emit d" by simp_all
qed

lemma write_loop_keeps:
  "write_loop n d = Ret (k, d', r) \<Longrightarrow>
   maxStrLen d' = maxStrLen d \<and> emit d' = emit d \<and> length (saveBuf d') \<le> length (saveBuf d) + length (dbuf d)"
proof (induction "length (dbuf d)" arbitrary: d rule: less_induct)
  case less
  consider "dbuf d = []" | d1 where "parseHeaderFieldRepr d = Ret (d1, None)" "dbuf d \<noteq> []"
    | "parseHeaderFieldRepr d = Ret (d, Some ErrNeedMore)" "dbuf d \<noteq> []"
    | d1 e where "parseHeaderFieldRepr d = Ret (d1, Some e)" "e \<noteq> ErrNeedMore" "dbuf d \<noteq> []"
    | e where "parseHeaderFieldRepr d = Fail e" "dbuf d \<noteq> []" | "parseHeaderFieldRepr d = Panic" "dbuf d \<noteq> []"
    using parse_NeedMore by (metis go.exhaust old.prod.exhaust option.exhaust)
  then show ?case
  proof cases
    case (2 d1)
    then have "write_loop n d1 = Ret (k, d', r)" using write_loop_step [OF 2(1)] less.prems by simp
    then show ?thesis using less.hyps [OF parse_shorter [OF 2(1)]] parse_keeps [OF 2(1)] parse_shorter [OF 2(1)] by simp
  next
    case 3
    have "write_loop n d = (if maxStrLen d \<noteq> 0 \<and> int (length (dbuf d)) > 2 * (maxStrLen d + varIntOverhead)
        then Ret (0, d, Some ErrStringLength) else Ret (n, d\<lparr>saveBuf := saveBuf d @ dbuf d\<rparr>, None))"
      by (subst write_loop.simps) (simp add: 3)
    then have "d' = d \<or> d' = d\<lparr>saveBuf := saveBuf d @ dbuf d\<rparr>" using less.prems by (simp split: if_splits)
    then show ?thesis by auto
  next
    case (4 d1 e)
    then show ?thesis using less.prems write_loop_error [OF 4(1,2)] parse_keeps [OF 4(1)] by simp
  next
    case 1
    then show ?thesis using less.prems write_loop_end [OF 1, of n] by simp
  next
    case (5 e)
    then show ?thesis using less.prems write_loop_stop(1) [OF 5(1), of n] by simp
  next
    case 6
    then show ?thesis using less.prems write_loop_stop(2) [OF 6(2,1), of n] by simp
  qed
qed

lemma Write_keeps:
  assumes "Decoder_Write d p = Ret (k, d', r)"
  shows "maxStrLen d' = maxStrLen d" "emit d' = emit d" "length (saveBuf d') \<le> length (saveBuf d) + length p"
proof -
  have "maxStrLen d' = maxStrLen d \<and> emit d' = emit d \<and> length (saveBuf d') \<le> length (saveBuf d) + length p"
    using assms by (auto simp: Decoder_Write_def Let_def split: if_splits dest!: write_loop_keeps)
  then show "maxStrLen d' = maxStrLen d" "emit d' = emit d" "length (saveBuf d') \<le> length (saveBuf d) + length p" by simp_all
qed

section \<open>Cutting the input\<close>

text \<open>What a caller sees of \<open>Write\<close>: the decoder without \<open>buf\<close>, which is only valid during \<open>Write\<close>, and the error.\<close>

fun outcome :: "(hpack_error, nat \<times> Decoder \<times> hpack_error option) go \<Rightarrow> parse_result" where
  "outcome (Ret (n, d, r)) = Ret (d\<lparr>dbuf := []\<rparr>, r)"
| "outcome (Fail e) = Fail e"
| "outcome Panic = Panic"

lemma outcome_count: "outcome (write_loop n d) = outcome (write_loop m d)"
proof (induction "length (dbuf d)" arbitrary: d rule: less_induct)
  case less
  show ?case
  proof (cases "parseHeaderFieldRepr d")
    case (Ret x)
    obtain d' r where x: "x = (d', r)" by fastforce
    with Ret less parse_shorter [of d d'] parse_keeps [of d d' r] show ?thesis
      by (cases r) (simp_all add: write_loop.simps [of _ d])
  qed (simp_all add: write_loop.simps [of _ d])
qed

fun then_write :: "(hpack_error, nat \<times> Decoder \<times> hpack_error option) go \<Rightarrow> bytes \<Rightarrow>
    (hpack_error, nat \<times> Decoder \<times> hpack_error option) go" where
  "then_write (Ret (n, d, None)) q = Decoder_Write d q"
| "then_write m q = m"

lemma write_loop_split:
  assumes "maxStrLen d = 0 \<or> int (length (dbuf d) + length q) \<le> 2 * (maxStrLen d + varIntOverhead)" "saveBuf d = []" "q \<noteq> []"
  shows "outcome (write_loop n (feed d q)) = outcome (then_write (write_loop m d) q)"
  using assms
proof (induction "length (dbuf d)" arbitrary: d rule: less_induct)
  case less
  consider "dbuf d = []" | d' where "parseHeaderFieldRepr d = Ret (d', None)" "dbuf d \<noteq> []"
    | "parseHeaderFieldRepr d = Ret (d, Some ErrNeedMore)" "dbuf d \<noteq> []"
    | d' e where "parseHeaderFieldRepr d = Ret (d', Some e)" "e \<noteq> ErrNeedMore" "dbuf d \<noteq> []"
    | e where "parseHeaderFieldRepr d = Fail e" "dbuf d \<noteq> []" | "parseHeaderFieldRepr d = Panic" "dbuf d \<noteq> []"
    using parse_NeedMore by (metis go.exhaust old.prod.exhaust option.exhaust)
  then show ?case
  proof cases
    case 1
    then have "write_loop m d = Ret (m, d, None)" by (rule write_loop_end)
    with less.prems 1 outcome_count [of n "d\<lparr>dbuf := q\<rparr>" "length q"] show ?thesis
      by (simp add: Decoder_Write_def)
  next
    case (2 d')
    then have "parseHeaderFieldRepr (feed d q) = Ret (feed d' q, None)"
      using parse_extend [OF 2(2), of q] by simp
    moreover have "maxStrLen d' = 0 \<or> int (length (dbuf d') + length q) \<le> 2 * (maxStrLen d' + varIntOverhead)"
      using less.prems(1) parse_shorter [OF 2(1)] parse_keeps(2) [OF 2(1)] by auto
    ultimately show ?thesis
      using write_loop_step write_loop_step [OF 2(1)] less.hyps [OF parse_shorter [OF 2(1)]] parse_keeps [OF 2(1)] less.prems(2,3)
      by simp
  next
    case 3
    have "d\<lparr>saveBuf := dbuf d, dbuf := dbuf d @ q, saveBuf := []\<rparr> = feed d q"
      using less.prems(2) by (cases d) simp
    then have "Decoder_Write (d\<lparr>saveBuf := dbuf d\<rparr>) q = write_loop (length q) (feed d q)"
      using less.prems(3) 3(2) by (simp add: Decoder_Write_def)
    moreover have "maxStrLen d = 0 \<or> int (length (dbuf d)) \<le> 2 * (maxStrLen d + varIntOverhead)"
      using less.prems(1) by auto
    ultimately show ?thesis
      using write_loop_save [OF 3(1)] less.prems(2,3) outcome_count [of n "feed d q" "length q"] by simp
  next
    case (4 d' e)
    then have "parseHeaderFieldRepr (feed d q) = Ret (feed d' q, Some e)"
      using parse_extend [OF 4(3), of q] by simp
    from write_loop_error [OF this 4(2)] write_loop_error [OF 4(1,2)] show ?thesis by simp
  next
    case (5 e)
    then have "parseHeaderFieldRepr (feed d q) = Fail e" using parse_extend [of d q] by simp
    with 5 show ?thesis by (simp add: write_loop_stop(1))
  next
    case 6
    then have "parseHeaderFieldRepr (feed d q) = Panic" using parse_extend [of d q] by simp
    with 6 show ?thesis by (simp add: write_loop_stop(2))
  qed
qed

lemma outcome_then_Nil: "outcome (then_write m []) = outcome m"
  by (cases "(m, [] :: bytes)" rule: then_write.cases) (simp_all add: Decoder_Write_def)

lemma Write_split:
  assumes "maxStrLen d = 0 \<or> int (length (saveBuf d) + length p + length q) \<le> 2 * (maxStrLen d + varIntOverhead)"
  shows "outcome (Decoder_Write d (p @ q)) = outcome (then_write (Decoder_Write d p) q)"
proof -
  let ?d = "\<lambda>x. d\<lparr>saveBuf := [], dbuf := saveBuf d @ x\<rparr>"
  have w: "Decoder_Write d x = (if x = [] then Ret (0, d, None) else write_loop (length x) (?d x))" for x
    by (cases d) (simp add: Decoder_Write_def)
  consider "p = []" | "q = []" | "p \<noteq> []" "q \<noteq> []" by blast
  then show ?thesis
  proof cases
    case 3
    then show ?thesis using write_loop_split [of "?d p" q "length (p @ q)" "length p"] assms by (simp add: w)
  qed (simp_all add: w outcome_then_Nil)
qed

section \<open>Safety on any input\<close>

lemma decode_inner_safe:
  "node_wf (hnode st) \<Longrightarrow> \<exists>ch. hnode st = Internal ch \<Longrightarrow> node_wf root \<Longrightarrow> \<exists>ch. root = Internal ch \<Longrightarrow>
   decode_inner root mx st \<noteq> Panic \<and>
   (\<forall>st'. decode_inner root mx st = Ret st' \<longrightarrow> node_wf (hnode st') \<and> (\<exists>ch. hnode st' = Internal ch))"
proof (induction "cbits st" arbitrary: st rule: less_induct)
  case less
  let ?b = "ucast (drop_bit (cbits st - 8) (cur st)) :: byte"
  obtain ch where ch: "hnode st = Internal ch" "length ch = 256" using less.prems(1,2) by (auto simp: node_wf_simps)
  then have c: "child (hnode st) ?b = Ret (ch ! unat ?b)" using unat_byte_less [of ?b] by simp
  note step = decode_inner.simps [of root mx st]
  consider "cbits st < 8" | "8 \<le> cbits st" "ch ! unat ?b = None"
    | l c where "8 \<le> cbits st" "ch ! unat ?b = Some (Leaf l c)"
    | ch' where "8 \<le> cbits st" "ch ! unat ?b = Some (Internal ch')"
    by (metis node.exhaust not_le option.exhaust)
  then show ?case
  proof cases
    case 1
    with less.prems show ?thesis by (simp add: step)
  next
    case 2
    with c show ?thesis by (simp add: step)
  next
    case (3 l sy)
    then have "0 < l" using node_wf_child [of ch ?b] less.prems(1) ch(1) by (fastforce simp: node_wf_simps)
    then show ?thesis using 3 c less.prems less.hyps [of "st\<lparr>hbuf := hbuf st @ [sy], cbits := cbits st - l,
          hnode := root, sbits := cbits st - l\<rparr>"] by (simp add: step Let_def)
  next
    case (4 ch')
    then have "node_wf (Internal ch')" using node_wf_child [of ch ?b] less.prems(1) ch(1) by auto
    then show ?thesis using 4 c less.prems less.hyps [of "st\<lparr>hnode := Internal ch', cbits := cbits st - 8\<rparr>"]
      by (simp add: step)
  qed
qed

definition inner_node :: "node \<Rightarrow> bool" where
  "inner_node n \<longleftrightarrow> node_wf n \<and> (\<exists>ch. n = Internal ch)"

lemma inner_safe:
  assumes "inner_node (hnode st)" "inner_node root"
  shows "decode_inner root mx st \<noteq> Panic" "decode_inner root mx st = Ret st' \<Longrightarrow> inner_node (hnode st')"
  using assms decode_inner_safe [of st root mx] unfolding inner_node_def by blast+

lemma bytes_safe:
  "inner_node root \<Longrightarrow> inner_node (hnode st) \<Longrightarrow> decode_bytes root mx v st \<noteq> Panic \<and>
   (\<forall>st'. decode_bytes root mx v st = Ret st' \<longrightarrow> inner_node (hnode st'))"
proof (induction v arbitrary: st)
  case (Cons b v)
  let ?st = "st\<lparr>cur := push_bit 8 (cur st) OR ucast b, cbits := cbits st + 8, sbits := sbits st + 8\<rparr>"
  have st: "inner_node (hnode ?st)" using Cons.prems by simp
  show ?case
  proof (cases "decode_inner root mx ?st")
    case (Ret st1)
    then have "inner_node (hnode st1)" by (rule inner_safe(2) [OF st Cons.prems(1)])
    from Cons.IH [OF Cons.prems(1) this] Ret show ?thesis by simp
  next
    case (Fail e)
    then show ?thesis by simp
  next
    case Panic
    with inner_safe(1) [OF st Cons.prems(1)] show ?thesis by simp
  qed
qed simp

lemma decode_tail_safe:
  "node_wf (hnode st) \<Longrightarrow> \<exists>ch. hnode st = Internal ch \<Longrightarrow> node_wf root \<Longrightarrow> \<exists>ch. root = Internal ch \<Longrightarrow>
   decode_tail root mx st \<noteq> Panic"
proof (induction "cbits st" arbitrary: st rule: less_induct)
  case less
  let ?b = "ucast (push_bit (8 - cbits st) (cur st)) :: byte"
  obtain ch where ch: "hnode st = Internal ch" "length ch = 256" using less.prems(1,2) by (auto simp: node_wf_simps)
  then have c: "child (hnode st) ?b = Ret (ch ! unat ?b)" using unat_byte_less [of ?b] by simp
  note step = decode_tail.simps [of root mx st]
  consider "ch ! unat ?b = None" | l c where "ch ! unat ?b = Some (Leaf l c)"
    | ch' where "ch ! unat ?b = Some (Internal ch')"
    by (metis node.exhaust option.exhaust)
  then show ?case
  proof cases
    case 1
    with c show ?thesis by (simp add: step)
  next
    case (2 l sy)
    then have "0 < l" using node_wf_child [of ch ?b] less.prems(1) ch(1) by (fastforce simp: node_wf_simps)
    then show ?thesis using 2 c less.prems less.hyps [of "st\<lparr>hbuf := hbuf st @ [sy], cbits := cbits st - l,
          hnode := root, sbits := cbits st - l\<rparr>"] by (simp add: step Let_def)
  next
    case (3 ch')
    with c show ?thesis by (simp add: step)
  qed
qed

lemma inner_root: "inner_node huffman_root"
  using hc.root_wf hc.root_internal by (simp add: inner_node_def)

lemma huffmanDecode_no_panic: "huffmanDecode mx v \<noteq> Panic"
proof -
  let ?st = "\<lparr>hnode = huffman_root, cur = 0, cbits = 0, sbits = 0, hbuf = []\<rparr>"
  have st: "inner_node (hnode ?st)" using inner_root by simp
  have "decode_tail huffman_root mx st \<noteq> Panic" if "decode_bytes huffman_root mx v ?st = Ret st" for st
    using bytes_safe [OF inner_root st, of mx v] that hc.root_wf hc.root_internal
    by (intro decode_tail_safe) (simp_all add: inner_node_def)
  with bytes_safe [OF inner_root st, of mx v] show ?thesis
    by (auto simp: huffmanDecode_eq huffmanDecode_with_def go_bind_eq_Panic Let_def)
qed

lemma readString_no_panic: "readString d p w \<noteq> Panic"
  by (auto simp: readString_def go_bind_eq_Panic readVarInt_no_panic huffmanDecode_no_panic Let_def split: list.splits)

lemma literal_name_no_panic: "literal_name d i p w \<noteq> Panic"
  by (auto simp: literal_name_def readString_no_panic split: option.splits)

definition dec_wf :: "Decoder \<Rightarrow> bool" where
  "dec_wf d \<longleftrightarrow> dyn_wf (ddynTab d) \<and> dsize (ddynTab d) \<le> maxSize (ddynTab d) \<and>
     maxSize (ddynTab d) \<le> allowedMaxSize (ddynTab d)"

abbreviation adds :: "Decoder \<Rightarrow> nat" where
  "adds d \<equiv> table_count (table (ddynTab d))"

lemma callEmit_dec_wf: "callEmit d hf = (d', r) \<Longrightarrow> ddynTab d' = ddynTab d \<and> dbuf d' = dbuf d"
  by (auto simp: callEmit_def split: if_splits)

lemma dyn_add_safe:
  assumes "dec_wf d" "Suc (adds d) < 2 ^ 64"
  shows "\<exists>dt. dyn_add (ddynTab d) f = Ret dt \<and> dec_wf (d\<lparr>ddynTab := dt\<rparr>) \<and> table_count (table dt) = Suc (adds d)"
  using dyn_add_eq_spec [of "ddynTab d" f] assms by (auto simp: dec_wf_def)

lemma dec_wf_buf [simp]: "dec_wf (d\<lparr>dbuf := b\<rparr>) = dec_wf d"
  by (simp add: dec_wf_def)

lemma callEmit_safe:
  "dec_wf d \<Longrightarrow> \<exists>d' r. callEmit d hf = (d', r) \<and> dec_wf d' \<and> ddynTab d' = ddynTab d \<and> dbuf d' = dbuf d"
  by (auto simp: callEmit_def dec_wf_def)

lemma parseFieldLiteral_safe:
  assumes "dec_wf d" "dbuf d \<noteq> []" "adds d + length (dbuf d) < 2 ^ 64" "1 \<le> n" "n \<le> 8"
  shows "\<exists>d' r. parseFieldLiteral d n it = Ret (d', r) \<and> dec_wf d' \<and> adds d' + length (dbuf d') \<le> adds d + length (dbuf d)"
proof -
  let ?w = "emitEnabled d \<or> indexed it"
  consider e where "readVarInt n (dbuf d) = Fail e"
    | i p1 e where "readVarInt n (dbuf d) = Ret (i, p1)" "literal_name d i p1 ?w = Fail e"
    | i p1 nm p2 e where "readVarInt n (dbuf d) = Ret (i, p1)" "literal_name d i p1 ?w = Ret (nm, p2)" "readString d p2 ?w = Fail e"
    | i p1 nm p2 v p3 where "readVarInt n (dbuf d) = Ret (i, p1)" "literal_name d i p1 ?w = Ret (nm, p2)" "readString d p2 ?w = Ret (v, p3)"
    using readVarInt_no_panic [OF assms(4,5)] literal_name_no_panic readString_no_panic
    by (metis go.exhaust old.prod.exhaust)
  then show ?thesis
  proof cases
    case (4 i p1 nm p2 v p3)
    then have len: "Suc (length p3) \<le> length (dbuf d)"
      using readVarInt_shorter literal_name_le readString_shorter by fastforce
    let ?hf = "\<lparr>Name = nm, Value = v, Sensitive = False\<rparr>" and ?d = "d\<lparr>dbuf := p3\<rparr>"
    show ?thesis
    proof (cases "indexed it")
      case True
      have "dec_wf ?d" "Suc (adds ?d) < 2 ^ 64" using assms len by simp_all
      then obtain dt where dt: "dyn_add (ddynTab d) ?hf = Ret dt" "dec_wf (?d\<lparr>ddynTab := dt\<rparr>)"
          "table_count (table dt) = Suc (adds d)"
        using dyn_add_safe [of ?d ?hf] by auto
      with 4 True len callEmit_safe [OF dt(2), of "?hf\<lparr>Sensitive := sensitive it\<rparr>"] show ?thesis
        by (auto simp: parseFieldLiteral_def Let_def)
    next
      case False
      with 4 len assms(1) callEmit_safe [of ?d "?hf\<lparr>Sensitive := sensitive it\<rparr>"] show ?thesis
        by (auto simp: parseFieldLiteral_def Let_def)
    qed
  qed (use assms in \<open>simp_all add: parseFieldLiteral_def Let_def\<close>)
qed

lemma parseFieldIndexed_safe:
  assumes "dec_wf d"
  shows "\<exists>d' r. parseFieldIndexed d = Ret (d', r) \<and> dec_wf d' \<and> adds d' + length (dbuf d') \<le> adds d + length (dbuf d)"
proof (cases "readVarInt 7 (dbuf d)")
  case (Ret x)
  obtain i p where x: "x = (i, p)" by fastforce
  show ?thesis
  proof (cases "table_at d i")
    case None
    with Ret x assms show ?thesis by (simp add: parseFieldIndexed_def)
  next
    case (Some hf)
    with Ret x assms readVarInt_shorter [of 7 "dbuf d" i p]
      callEmit_safe [of "d\<lparr>dbuf := p\<rparr>" "\<lparr>Name = Name hf, Value = Value hf, Sensitive = False\<rparr>"]
    show ?thesis by (auto simp: parseFieldIndexed_def)
  qed
qed (use assms in \<open>simp_all add: parseFieldIndexed_def readVarInt_no_panic\<close>)

lemma parseDynamicTableSizeUpdate_safe:
  assumes "dec_wf d" "adds d < 2 ^ 64"
  shows "\<exists>d' r. parseDynamicTableSizeUpdate d = Ret (d', r) \<and> dec_wf d' \<and> adds d' + length (dbuf d') \<le> adds d + length (dbuf d)"
proof (cases "readVarInt 5 (dbuf d)")
  case (Ret x)
  obtain v p where x: "x = (v, p)" by fastforce
  show ?thesis
  proof (cases "v > ucast (allowedMaxSize (ddynTab d))")
    case True
    with Ret x assms show ?thesis by (simp add: parseDynamicTableSizeUpdate_def)
  next
    case False
    then have "unat v \<le> unat (allowedMaxSize (ddynTab d))"
      using unat_ucast_u32_u64 [of "allowedMaxSize (ddynTab d)"] by (simp add: word_less_nat_alt)
    then have le: "ucast v \<le> allowedMaxSize (ddynTab d)"
      by (simp add: word_le_nat_alt unsigned_ucast_eq) (meson le_trans take_bit_nat_less_eq_self)
    obtain dt where "setMaxSize (ddynTab d) (ucast v) = Ret dt" "dyn_wf dt" "dsize dt \<le> maxSize dt"
        "maxSize dt = ucast v" "allowedMaxSize dt = allowedMaxSize (ddynTab d)" "table_count (table dt) = adds d"
      using setMaxSize_eq_spec [of "ddynTab d" "ucast v"] assms by (auto simp: dec_wf_def)
    with Ret x False le readVarInt_shorter [of 5 "dbuf d" v p] show ?thesis
      by (simp add: parseDynamicTableSizeUpdate_def dec_wf_def)
  qed
qed (use assms in \<open>simp_all add: parseDynamicTableSizeUpdate_def readVarInt_no_panic\<close>)

lemma parse_safe:
  assumes "dec_wf d" "dbuf d \<noteq> []" "adds d + length (dbuf d) < 2 ^ 64"
  shows "\<exists>d' r. parseHeaderFieldRepr d = Ret (d', r) \<and> dec_wf d' \<and> adds d' + length (dbuf d') \<le> adds d + length (dbuf d)"
proof -
  obtain b t where "dbuf d = b # t" using assms(2) by (cases "dbuf d") auto
  then show ?thesis
    using parseFieldIndexed_safe [OF assms(1)] parseFieldLiteral_safe [OF assms, of 6 indexedTrue]
      parseFieldLiteral_safe [OF assms, of 4 indexedFalse] parseFieldLiteral_safe [OF assms, of 4 indexedNever]
      parseDynamicTableSizeUpdate_safe [OF assms(1)] assms
    by (simp add: parseHeaderFieldRepr_def)
qed

lemma write_loop_safe:
  assumes "dec_wf d" "adds d + length (dbuf d) < 2 ^ 64"
  shows "\<exists>k d' r. write_loop n d = Ret (k, d', r) \<and> dec_wf d' \<and>
    adds d' + length (saveBuf d') \<le> adds d + length (dbuf d) + length (saveBuf d)"
  using assms
proof (induction "length (dbuf d)" arbitrary: d rule: less_induct)
  case less
  show ?case
  proof (cases "dbuf d = []")
    case True
    with less.prems show ?thesis by (simp add: write_loop_end)
  next
    case False
    from parse_safe [OF less.prems(1) False less.prems(2)]
    obtain d' r where d': "parseHeaderFieldRepr d = Ret (d', r)" "dec_wf d'" "adds d' + length (dbuf d') \<le> adds d + length (dbuf d)"
      by blast
    show ?thesis
    proof (cases r)
      case None
      with d' have "write_loop n d = write_loop n d'" "length (dbuf d') < length (dbuf d)"
        using write_loop_step parse_shorter by blast+
      with less.hyps [of d'] d' less.prems(2) parse_keeps(1) [OF d'(1)] show ?thesis by fastforce
    next
      case (Some e)
      with d' False parse_keeps(1) [OF d'(1)] show ?thesis
        by (auto simp: write_loop.simps [of n d] dec_wf_def)
    qed
  qed
qed

lemma Write_safe:
  assumes "dec_wf d" "adds d + length (saveBuf d) + length p < 2 ^ 64"
  shows "\<exists>n d' r. Decoder_Write d p = Ret (n, d', r) \<and> dec_wf d' \<and>
    adds d' + length (saveBuf d') \<le> adds d + length (saveBuf d) + length p"
proof (cases "p = []")
  case True
  with assms show ?thesis by (simp add: Decoder_Write_def)
next
  case False
  let ?d = "if saveBuf d = [] then d\<lparr>dbuf := p\<rparr> else d\<lparr>dbuf := saveBuf d @ p, saveBuf := []\<rparr>"
  have "dec_wf ?d" "adds ?d + length (dbuf ?d) = adds d + length (saveBuf d) + length p" "saveBuf ?d = []"
    using assms(1) by (auto simp: dec_wf_def)
  with write_loop_safe [of ?d "length p"] assms(2) False show ?thesis
    by (simp add: Decoder_Write_def Let_def)
qed

section \<open>Properties\<close>

text \<open>C10: no sequence of bytes makes the decoder panic: from any well-formed decoder (the tables and their
  indexes agree, and the dynamic table fits its maximum, which fits the allowed maximum), \<open>Write\<close>
  returns, with or without an error, and leaves a well-formed decoder, so the table never grows
  past what \<open>SetAllowedMaxDynamicTableSize\<close> allows.\<close>

theorem Decoder_Write_safe:
  assumes "dec_wf d" "adds d + length (saveBuf d) + length p < 2 ^ 64"
  shows "\<exists>n d' r. Decoder_Write d p = Ret (n, d', r) \<and> dec_wf d' \<and>
    dsize (ddynTab d') \<le> allowedMaxSize (ddynTab d')"
  using Write_safe [OF assms] by (fastforce simp: dec_wf_def)

definition example_decoder :: Decoder where
  "example_decoder = \<lparr>ddynTab = \<lparr>table = table_init, dsize = 0, maxSize = 4096, allowedMaxSize = 4096\<rparr>,
     emit = \<lambda>_. True, emitEnabled = True, maxStrLen = 0, dbuf = [], saveBuf = [], emitted = []\<rparr>"

lemma example_decoder_wf: "dec_wf example_decoder" "adds example_decoder = 0" "saveBuf example_decoder = []"
    "maxStrLen example_decoder = 0"
  by (simp_all add: example_decoder_def dec_wf_def dyn_wf_def table_wf_init table_count_def)
    (simp_all add: table_init_def)

theorem Decoder_Write_safe_witness:
  "\<exists>n d' r. Decoder_Write example_decoder [0x82, 0xff, 0x40, 0x3f] = Ret (n, d', r) \<and> dec_wf d' \<and>
     dsize (ddynTab d') \<le> allowedMaxSize (ddynTab d')"
  by (rule Decoder_Write_safe) (simp_all add: example_decoder_wf)

text \<open>C21: a header block may be cut into \<open>Write\<close> calls at any byte: writing \<open>p\<close> and then \<open>q\<close> (unless \<open>p\<close>
  already failed) leaves the same table, the same emitted fields, the same saved input and the
  same error as writing \<open>p\<close> followed by \<open>q\<close> at once, as long as no string limit is set or the block
  stays within the last-resort bound of the saved input.\<close>

theorem Decoder_Write_split:
  assumes "maxStrLen d = 0 \<or> int (length (saveBuf d) + length p + length q) \<le> 2 * (maxStrLen d + varIntOverhead)"
  shows "outcome (Decoder_Write d (p @ q)) = outcome (then_write (Decoder_Write d p) q)"
  using assms by (rule Write_split)

theorem Decoder_Write_split_witness:
  "outcome (Decoder_Write example_decoder ([0x40, 0x01] @ [0x78, 0x01, 0x31])) =
   outcome (then_write (Decoder_Write example_decoder [0x40, 0x01]) [0x78, 0x01, 0x31])"
  by (rule Decoder_Write_split) (simp add: example_decoder_wf)

end
