(* ===== verification/Hpack_Roundtrip.thy ===== *)
theory Hpack_Roundtrip
  imports Hpack_Codec "HOL-Library.Sublist"
begin

text \<open>
  Encoder against decoder: what the encoder writes for a field the decoder reads back as that
  field, over whole sessions of fields and table size changes, while the two dynamic tables
  stay related.
\<close>

section \<open>First bytes\<close>

lemma bit_imp_le_unat:
  fixes x :: "'a :: len word"
  assumes "bit x i"
  shows "2 ^ i \<le> unat x"
proof -
  have "bit (unat x) i" using assms by (simp add: bit_unsigned_iff)
  then have "odd (unat x div 2 ^ i)" by (simp add: bit_iff_odd)
  then show ?thesis by (cases "unat x < 2 ^ i") auto
qed

lemma and_high:
  assumes "unat (x :: u64) < 2 ^ n" "take_bit n m = 0"
  shows "(ucast x OR flag) AND (m :: byte) = flag AND m"
proof (rule bit_word_eqI)
  fix i
  assume "i < LENGTH(8)"
  have "\<not> bit x i" if "n \<le> i"
  proof
    assume "bit x i"
    then have "2 ^ i \<le> unat x" by (rule bit_imp_le_unat)
    moreover have "(2::nat) ^ n \<le> 2 ^ i" using that by simp
    ultimately show False using assms(1) by simp
  qed
  moreover have "\<not> bit m i" if "i < n" using assms(2) that by (metis bit_take_bit_iff bit_0_eq bot_apply bot_bool_def)
  ultimately show "bit ((ucast x OR flag) AND m) i = bit (flag AND m) i"
    by (cases "i < n") (auto simp: bit_simps)
qed

lemma first_byte:
  assumes "n \<le> 8" "p = or_at 0 flag (appendVarInt [] n i) @ rest"
  shows "\<exists>b t. p = b # t \<and> (\<forall>m. take_bit n m = 0 \<longrightarrow> b AND m = flag AND m)"
proof -
  obtain x t where x: "appendVarInt [] n i = ucast (x :: u64) # t" "unat x < 2 ^ n"
    using appendVarInt_first [OF assms(1)] by blast
  then have "p = (ucast x OR flag) # t @ rest" using assms(2) by (simp add: or_at_def)
  then show ?thesis using and_high [OF x(2)] by blast
qed

section \<open>Strings\<close>

lemma sym_bits_le_30: "length (sym_bits c) \<le> 30"
proof -
  have "huffmanCodeLen ! k \<le> 30" if "k < 256" for k
    using entry_ok(2) [of k] that by simp
  then show ?thesis by (simp add: length_sym_bits)
qed

lemma enc_bits_le: "length (hc.enc_bits s) \<le> 30 * length s"
  by (induction s) (use sym_bits_le_30 in \<open>auto simp: add_mono\<close>)

definition str_fits :: "Decoder \<Rightarrow> bytes \<Rightarrow> bool" where
  "str_fits d s \<longleftrightarrow> length s < 2 ^ 58 \<and> (maxStrLen d = 0 \<or> int (length s) \<le> maxStrLen d \<and> maxStrLen d < 2 ^ 63)"

lemma or_at_Cons: "or_at 0 b (x # xs) = (x OR b) # xs"
  by (simp add: or_at_def)

lemma readVarInt_small:
  "1 \<le> n \<Longrightarrow> n \<le> 8 \<Longrightarrow> take_bit n flag = 0 \<Longrightarrow> unat i < 2 ^ 63 \<Longrightarrow>
   readVarInt n (or_at 0 flag (appendVarInt [] n i) @ rest) = Ret (i, rest)"
proof -
  assume a: "1 \<le> n" "n \<le> 8" "take_bit n flag = 0" "unat i < 2 ^ 63"
  have "\<not> (push_bit n 1 - 1 \<le> i \<and> 2 ^ 63 \<le> unat (i - (push_bit n 1 - 1)))"
    using a(4) unat_sub [of "push_bit n 1 - 1" i] by (auto simp del: push_bit_of_1)
  then show ?thesis by (simp only: readVarInt_of_append [OF a(1-3)] if_False)
qed

lemma appendHpackString_readString:
  assumes "length s < 2 ^ 58"
  shows "\<exists>out. (\<forall>dst. appendHpackString dst s = Ret (dst @ out)) \<and>
    (\<forall>d rest. str_fits d s \<longrightarrow> readString d (out @ rest) True = Ret (s, rest))"
proof -
  obtain v where v: "AppendHuffmanString [] s = Ret v" using AppendHuffmanString_bits [of "[]" s] by blast
  then have len: "unat (HuffmanEncodeLength s) = length v"
    using enc_bits_le [of s] assms by (intro HuffmanEncodeLength_eq) auto
  then have hl: "HuffmanEncodeLength s = word_of_nat (length v)" by (simp flip: len)
  have lw: "unat (word_of_nat (length v) :: u64) = length v" using len by (simp only: hl)
  have sl: "unat (word_of_nat (length s) :: u64) = length s" using assms by (simp add: unat_of_nat)
  define flag :: byte where "flag = (if length v < length s then 0x80 else 0)"
  define payload where "payload = (if length v < length s then v else s)"
  define out where "out = or_at 0 flag (appendVarInt [] 7 (word_of_nat (length payload))) @ payload"
  obtain x t where x: "appendVarInt [] 7 (word_of_nat (length payload)) = x # t"
    using appendVarInt_first [of 7 "word_of_nat (length payload)"] by auto
  have "appendHpackString dst s = Ret (dst @ out)" for dst
    using AppendHuffmanString_append [OF v, of "appendVarInt dst 7 (HuffmanEncodeLength s)"] x
      appendVarInt_append [of dst 7 "word_of_nat (length payload)"]
    by (simp add: appendHpackString_def out_def payload_def flag_def hl lw Let_def or_at_Cons
        split: if_splits)
  moreover have "readString d (out @ rest) True = Ret (s, rest)" if "str_fits d s" for d rest
  proof -
    have pl: "length payload \<le> length s" by (simp add: payload_def)
    then have pu: "unat (word_of_nat (length payload) :: u64) = length payload" using assms by (simp add: unat_of_nat)
    have r: "readVarInt 7 (out @ rest) = Ret (word_of_nat (length payload), payload @ rest)"
      using readVarInt_small [of 7 flag "word_of_nat (length payload)" "payload @ rest"] pu pl assms
      by (simp add: out_def flag_def)
    obtain b u where b: "out @ rest = b # u" "b AND 128 = flag AND 128"
      using first_byte [of 7 "out @ rest" flag "word_of_nat (length payload)" "payload @ rest"]
      by (auto simp: out_def)
    have m: "\<not> (maxStrLen d \<noteq> 0 \<and> word_of_nat (length payload) > (word_of_int (maxStrLen d) :: u64))"
    proof (cases "maxStrLen d = 0")
      case False
      with that have "int (length s) \<le> maxStrLen d" "maxStrLen d < 2 ^ 63" by (auto simp: str_fits_def)
      then have "unat (word_of_int (maxStrLen d) :: u64) = nat (maxStrLen d)" "int (length payload) \<le> maxStrLen d"
        using pl by (auto simp: unsigned_of_int take_bit_int_eq_self)
      then show ?thesis by (auto simp: word_less_nat_alt pu not_less le_nat_iff)
    qed simp
    have "(b AND 128 \<noteq> 0) = (length v < length s)" by (simp add: b flag_def)
    moreover have "huffmanDecode (maxStrLen d) v = Ret s"
      using that v by (intro huffmanDecode_append) (auto simp: str_fits_def)
    moreover have "readVarInt 7 (b # u) = Ret (word_of_nat (length payload), payload @ rest)" using r b(1) by simp
    ultimately show ?thesis
      by (simp only: readString_def b(1) list.case Let_def go_bind.simps prod.case if_not_P [OF m])
        (simp add: payload_def lw sl)
  qed
  ultimately show ?thesis by blast
qed

section \<open>Representations\<close>

lemma dispatch:
  assumes "dbuf d = or_at 0 flag (appendVarInt [] n i) @ rest" "n \<le> 8"
  obtains b t where "dbuf d = b # t" "\<And>m. take_bit n m = 0 \<Longrightarrow> b AND m = flag AND m"
  using first_byte [OF assms(2,1)] by blast

lemma parse_indexed:
  assumes "dbuf d = or_at 0 0x80 (appendVarInt [] 7 i) @ rest"
  shows "parseHeaderFieldRepr d = parseFieldIndexed d"
  by (rule dispatch [OF assms]) (simp_all add: parseHeaderFieldRepr_def)

lemma parse_literal:
  assumes "dbuf d = or_at 0 (encodeTypeByte indexing sens) (appendVarInt [] (if indexing then 6 else 4) i) @ rest"
    "indexing \<Longrightarrow> \<not> sens"
  shows "parseHeaderFieldRepr d = parseFieldLiteral d (if indexing then 6 else 4)
    (if sens then indexedNever else if indexing then indexedTrue else indexedFalse)"
  by (rule dispatch [OF assms(1)])
    (use assms(2) in \<open>auto simp: parseHeaderFieldRepr_def encodeTypeByte_def split: if_splits\<close>)

lemma parse_tableSize:
  assumes "dbuf d = or_at 0 0x20 (appendVarInt [] 5 i) @ rest"
  shows "parseHeaderFieldRepr d = parseDynamicTableSizeUpdate d"
proof -
  obtain b t where b: "dbuf d = b # t" "b AND 224 = 32" "b AND 128 = 0" "b AND 192 = 0"
    by (rule dispatch [OF assms]) simp_all
  have "(b AND 240) AND 224 = 32" using b(2) by (simp add: and.assoc)
  then have "b AND 240 \<noteq> 0" "b AND 240 \<noteq> 16" by auto
  with b show ?thesis by (simp add: parseHeaderFieldRepr_def)
qed

section \<open>Table lookups agree\<close>

lemma table_at_static:
  assumes "0 < i" "i \<le> 61"
  shows "table_at d (word_of_nat i) = Some (staticTableEntries ! (i - 1))"
proof -
  have "unat (word_of_nat i :: u64) = i" using assms by (simp add: unat_of_nat)
  then show ?thesis using assms by (simp add: table_at_def word_le_nat_alt unat_eq_zero [symmetric])
qed

lemma table_at_dynamic:
  assumes "0 < j" "j \<le> length (dyn_ents (ddynTab d))" "length (dyn_ents (ddynTab d)) < 2 ^ 62"
  shows "table_at d (word_of_nat j + 61) =
    Some (dyn_ents (ddynTab d) ! (length (dyn_ents (ddynTab d)) - j))"
proof -
  let ?i = "word_of_nat (j + 61) :: u64"
  have u: "unat ?i = j + 61" using assms by (simp only: unat_of_nat) simp
  have m: "unat (word_of_nat (maxTableIndex d) :: u64) = length (dyn_ents (ddynTab d)) + 61"
    using assms by (simp only: unat_of_nat maxTableIndex_def table_len_def staticTable_facts) simp
  have "table_at d ?i = Some (dyn_ents (ddynTab d) ! (length (dyn_ents (ddynTab d)) - j))"
    using assms unfolding table_at_def word_le_nat_alt word_less_nat_alt m u unat_eq_zero [symmetric]
    by (simp add: Let_def table_len_def)
  then show ?thesis by simp
qed

lemma suffix_nth:
  assumes "suffix xs ys" "0 < j" "j \<le> length xs"
  shows "ys ! (length ys - j) = xs ! (length xs - j)"
  using assms by (auto simp: suffix_def nth_append)

lemma search_spec_sound:
  assumes "search_spec static xs f = (i, m)"
  shows "i \<le> length xs"
    "m \<Longrightarrow> 0 < i \<and> \<not> Sensitive f \<and> name_value (xs ! (if static then i - 1 else length xs - i)) = name_value f"
    "\<not> m \<Longrightarrow> i \<noteq> 0 \<Longrightarrow> Name (xs ! (if static then i - 1 else length xs - i)) = Name f"
proof -
  show "i \<le> length xs"
    using search_spec_True [of static xs f i] search_spec_False [of static xs f i] assms by (cases m; cases "i = 0") simp_all
  show "m \<Longrightarrow> 0 < i \<and> \<not> Sensitive f \<and> name_value (xs ! (if static then i - 1 else length xs - i)) = name_value f"
    using search_spec_True [of static xs f i] assms by simp
  show "\<not> m \<Longrightarrow> i \<noteq> 0 \<Longrightarrow> Name (xs ! (if static then i - 1 else length xs - i)) = Name f"
    using search_spec_False [of static xs f i] assms by simp
qed

lemma searchTable_sound:
  assumes "dyn_wf (edynTab e)" "table_count (table (edynTab e)) < 2 ^ 62"
    "suffix (dyn_ents (edynTab e)) (dyn_ents (ddynTab d))" "length (dyn_ents (ddynTab d)) < 2 ^ 62"
  shows "\<exists>idx m. searchTable e f = Ret (idx, m) \<and> unat idx < 2 ^ 63 \<and>
    (m \<longrightarrow> \<not> Sensitive f \<and> (\<exists>hf. table_at d idx = Some hf \<and> name_value hf = name_value f)) \<and>
    (\<not> m \<longrightarrow> idx \<noteq> 0 \<longrightarrow> (\<exists>hf. table_at d idx = Some hf \<and> Name hf = Name f))"
proof -
  obtain i m where st: "search_spec True staticTableEntries f = (i, m)" by fastforce
  obtain j m' where dy: "search_spec False (dyn_ents (edynTab e)) f = (j, m')" by fastforce
  have s1: "search True staticTable f = Ret (word_of_nat i, m)"
    using search_eq_spec [of staticTable True f] st by simp
  have s2: "search False (table (edynTab e)) f = Ret (word_of_nat j, m')"
    using search_eq_spec [of "table (edynTab e)" False f] dy assms(1,2) by (simp add: dyn_wf_def)
  note i = search_spec_sound [OF st, unfolded length_staticTableEntries if_True]
  let ?E = "dyn_ents (edynTab e)" and ?D = "dyn_ents (ddynTab d)"
  have le: "length ?E \<le> length ?D" using assms(3) by (rule suffix_length_le)
  have j: "j \<le> length ?E" "m' \<Longrightarrow> 0 < j \<and> \<not> Sensitive f \<and> name_value (?D ! (length ?D - j)) = name_value f"
    "\<not> m' \<Longrightarrow> j \<noteq> 0 \<Longrightarrow> Name (?D ! (length ?D - j)) = Name f"
    using search_spec_sound [OF dy] suffix_nth [OF assms(3), of j] by simp_all
  have j62: "j < 2 ^ 62" using j(1) le assms(4) by linarith
  have u: "unat (word_of_nat i :: u64) = i" "unat (word_of_nat j :: u64) = j"
    using i(1) j62 by (simp_all add: unat_of_nat)
  have uj: "unat (word_of_nat j + 61 :: u64) = j + 61"
    using j62 by (subst unat_plus_if') (simp_all add: u)
  have z: "(word_of_nat i :: u64) = 0 \<longleftrightarrow> i = 0" "(word_of_nat j :: u64) = 0 \<longleftrightarrow> j = 0"
    using u by (simp_all only: unat_eq_zero [symmetric])
  have at: "0 < j \<Longrightarrow> table_at d (word_of_nat j + 61) = Some (?D ! (length ?D - j))"
    using table_at_dynamic [of j d] j(1) le assms(4) by simp
  have ati: "0 < i \<Longrightarrow> table_at d (word_of_nat i) = Some (staticTableEntries ! (i - 1))"
    using table_at_static i(1) by simp
  have b: "unat (word_of_nat i :: u64) < 2 ^ 63" "unat (word_of_nat j + 61 :: u64) < 2 ^ 63"
    using u(1) i(1) uj j62 by simp_all
  consider "m" | "\<not> m" "m' \<or> i = 0 \<and> j \<noteq> 0" | "\<not> m" "\<not> m'" "i \<noteq> 0 \<or> j = 0" by blast
  then show ?thesis
  proof cases
    case 1
    with s1 have "searchTable e f = Ret (word_of_nat i, True)" by (simp add: searchTable_def)
    with 1 ati b(1) i(2) show ?thesis by auto
  next
    case 2
    with s1 s2 z have "searchTable e f = Ret (word_of_nat j + 61, m')" by (simp add: searchTable_def)
    with 2 at b(2) j(2,3) show ?thesis by (cases m') auto
  next
    case 3
    with s1 s2 z have "searchTable e f = Ret (word_of_nat i, False)" by (auto simp: searchTable_def)
    with 3 ati b(1) i(3) z(1) show ?thesis by auto
  qed
qed

section \<open>One field\<close>

text \<open>The tables while no size update is pending: the encoder's entries are the newest of the decoder's.\<close>

definition tables_sync :: "nat \<Rightarrow> Encoder \<Rightarrow> Decoder \<Rightarrow> bool" where
  "tables_sync n e d \<longleftrightarrow> dyn_wf (edynTab e) \<and> dyn_wf (ddynTab d) \<and>
     suffix (dyn_ents (edynTab e)) (dyn_ents (ddynTab d)) \<and>
     table_count (table (edynTab e)) + n < 2 ^ 62 \<and> table_count (table (ddynTab d)) + n < 2 ^ 62"

lemma suffix_evict:
  "suffix T fs \<Longrightarrow> total_size T \<le> mx \<Longrightarrow> suffix T (evict_spec mx fs)"
proof (induction fs)
  case (Cons f fs)
  show ?case
  proof (cases "mx < total_size (f # fs)")
    case True
    with Cons.prems have "T \<noteq> f # fs" by auto
    with Cons.prems(1) have "suffix T fs" by (simp add: suffix_Cons)
    with Cons True show ?thesis by simp
  next
    case False
    then have "evict_spec mx (f # fs) = f # fs" by (simp only: evict_spec.simps if_False)
    with Cons.prems show ?thesis by simp
  qed
qed simp

lemma evict_spec_suffix: "suffix (evict_spec mx fs) fs"
  by (simp add: evict_spec_drop suffix_drop)

lemma table_len_le_count: "length (ents t) \<le> table_count t"
  by (simp add: table_count_def)

lemma dyn_add_sync:
  assumes "tables_sync (Suc n) e d" "maxSize (edynTab e) \<le> maxSize (ddynTab d)"
  shows "\<exists>dt dt'. dyn_add (edynTab e) f = Ret dt \<and> dyn_add (ddynTab d) f = Ret dt' \<and>
    tables_sync n (e\<lparr>edynTab := dt\<rparr>) (d\<lparr>ddynTab := dt'\<rparr>) \<and>
    dsize dt \<le> maxSize dt \<and> maxSize dt = maxSize (edynTab e) \<and> maxSize dt' = maxSize (ddynTab d) \<and>
    allowedMaxSize dt' = allowedMaxSize (ddynTab d)"
proof -
  obtain dt where dt: "dyn_add (edynTab e) f = Ret dt" "dyn_wf dt"
      "dyn_ents dt = evict_spec (maxSize (edynTab e)) (dyn_ents (edynTab e) @ [f])" "dsize dt \<le> maxSize dt"
      "maxSize dt = maxSize (edynTab e)" "table_count (table dt) = Suc (table_count (table (edynTab e)))"
    using dyn_add_eq_spec [of "edynTab e" f] assms(1) by (auto simp: tables_sync_def)
  obtain dt' where dt': "dyn_add (ddynTab d) f = Ret dt'" "dyn_wf dt'"
      "dyn_ents dt' = evict_spec (maxSize (ddynTab d)) (dyn_ents (ddynTab d) @ [f])"
      "maxSize dt' = maxSize (ddynTab d)" "allowedMaxSize dt' = allowedMaxSize (ddynTab d)"
      "table_count (table dt') = Suc (table_count (table (ddynTab d)))"
    using dyn_add_eq_spec [of "ddynTab d" f] assms(1) by (auto simp: tables_sync_def)
  have "suffix (dyn_ents dt) (dyn_ents (ddynTab d) @ [f])"
    unfolding dt(3) using assms(1) evict_spec_suffix suffix_order.trans
    by (metis suffix_def append.assoc tables_sync_def)
  then have "suffix (dyn_ents dt) (dyn_ents dt')"
    unfolding dt'(3) using dt(2,4,5) assms(2) by (intro suffix_evict) (auto simp: dyn_wf_def)
  then show ?thesis using dt dt' assms by (auto simp: tables_sync_def)
qed

definition field_fits :: "Decoder \<Rightarrow> HeaderField \<Rightarrow> bool" where
  "field_fits d f \<longleftrightarrow> str_fits d (Name f) \<and> str_fits d (Value f)"

text \<open>Emission is on, and the emit function leaves it on after the field.\<close>

abbreviation takes :: "Decoder \<Rightarrow> HeaderField \<Rightarrow> bool" where
  "takes d f \<equiv> emitEnabled d \<and> emit d (emitted d @ [f])"

lemma callEmit_fits:
  "field_fits d f \<Longrightarrow> takes d f \<Longrightarrow> callEmit d f = (d\<lparr>emitted := emitted d @ [f]\<rparr>, None)"
  by (cases d) (auto simp: callEmit_def field_fits_def str_fits_def)

lemma HeaderField_eqI: "name_value f = name_value g \<Longrightarrow> Sensitive f = Sensitive g \<Longrightarrow> f = (g :: HeaderField)"
  by (cases f; cases g) simp

lemma parseFieldIndexed_ok:
  assumes "dbuf d = appendIndexed [] idx @ rest" "unat idx < 2 ^ 63" "table_at d idx = Some hf"
    "name_value hf = name_value f" "\<not> Sensitive f" "field_fits d f" "takes d f"
  shows "parseHeaderFieldRepr d = Ret (d\<lparr>dbuf := rest, emitted := emitted d @ [f]\<rparr>, None)"
proof -
  have buf: "dbuf d = or_at 0 0x80 (appendVarInt [] 7 idx) @ rest" using assms(1) by (simp add: appendIndexed_def)
  have "readVarInt 7 (dbuf d) = Ret (idx, rest)" unfolding buf using assms(2) by (intro readVarInt_small) simp_all
  moreover have "\<lparr>Name = Name hf, Value = Value hf, Sensitive = False\<rparr> = f"
    using assms(4,5) by (intro HeaderField_eqI) simp_all
  moreover have "callEmit (d\<lparr>dbuf := rest\<rparr>) f = (d\<lparr>dbuf := rest, emitted := emitted d @ [f]\<rparr>, None)"
    using callEmit_fits [of "d\<lparr>dbuf := rest\<rparr>" f] assms(6,7) by (simp add: field_fits_def str_fits_def)
  ultimately show ?thesis
    using assms(3) by (simp add: parse_indexed [OF buf] parseFieldIndexed_def)
qed

lemma parseFieldLiteral_ok:
  assumes "dbuf d = or_at 0 (encodeTypeByte ix (Sensitive f)) (appendVarInt [] (if ix then 6 else 4) idx) @ p1"
    "literal_name d idx p1 True = Ret (Name f, p2)" "readString d p2 True = Ret (Value f, rest)"
    "unat idx < 2 ^ 63" "ix \<Longrightarrow> \<not> Sensitive f" "field_fits d f" "takes d f"
    "ix \<Longrightarrow> dyn_add (ddynTab d) f = Ret dt" "\<not> ix \<Longrightarrow> dt = ddynTab d"
  shows "parseHeaderFieldRepr d = Ret (d\<lparr>dbuf := rest, ddynTab := dt, emitted := emitted d @ [f]\<rparr>, None)"
proof -
  let ?n = "if ix then 6 else 4 :: nat"
  let ?it = "if Sensitive f then indexedNever else if ix then indexedTrue else indexedFalse"
  have it: "indexed ?it = ix" "sensitive ?it = Sensitive f" using assms(5) by (auto simp: indexed_def sensitive_def)
  have r: "readVarInt ?n (dbuf d) = Ret (idx, p1)"
    unfolding assms(1) using assms(4,5) by (intro readVarInt_small) (auto simp: encodeTypeByte_def)
  have f: "\<lparr>Name = Name f, Value = Value f, Sensitive = Sensitive f\<rparr> = f" by (intro HeaderField_eqI) simp_all
  then have f': "ix \<Longrightarrow> \<lparr>Name = Name f, Value = Value f, Sensitive = False\<rparr> = f" using assms(5) by simp
  let ?d = "d\<lparr>dbuf := rest, ddynTab := dt\<rparr>"
  have "callEmit ?d \<lparr>Name = Name f, Value = Value f, Sensitive = Sensitive f\<rparr> = (?d\<lparr>emitted := emitted d @ [f]\<rparr>, None)"
    unfolding f using callEmit_fits [of ?d f] assms(6,7) by (simp add: field_fits_def str_fits_def)
  then show ?thesis
    using parse_literal [OF assms(1,5)] assms(2,3,7,8,9) f' r it
    by (cases ix) (simp_all add: parseFieldLiteral_def Let_def)
qed

lemma or_at_appendVarInt:
  assumes "n \<le> 8"
  shows "or_at (length dst) b (appendVarInt dst n i) = dst @ or_at 0 b (appendVarInt [] n i)"
proof -
  obtain x t where "appendVarInt [] n i = x # t" using appendVarInt_first [OF assms, of i] by auto
  then show ?thesis using appendVarInt_append [of dst n i] by (simp add: or_at_Cons)
qed

lemma appendIndexed_append: "appendIndexed dst i = dst @ appendIndexed [] i"
  by (simp add: appendIndexed_def or_at_appendVarInt)

lemma appendTableSize_append: "appendTableSize dst v = dst @ appendTableSize [] v"
  by (simp add: appendTableSize_def or_at_appendVarInt)

lemma str_fits_dbuf [simp]:
  "str_fits (d\<lparr>dbuf := x\<rparr>) s = str_fits d s" "str_fits (d\<lparr>ddynTab := t\<rparr>) s = str_fits d s"
  "str_fits (d\<lparr>emitted := l\<rparr>) s = str_fits d s"
  by (simp_all add: str_fits_def)

lemma field_fits_dbuf [simp]:
  "field_fits (d\<lparr>dbuf := x\<rparr>) s = field_fits d s" "field_fits (d\<lparr>ddynTab := t\<rparr>) s = field_fits d s"
  "field_fits (d\<lparr>emitted := l\<rparr>) s = field_fits d s"
  by (simp_all add: field_fits_def)

lemma table_at_dbuf [simp]: "table_at (d\<lparr>dbuf := x\<rparr>) i = table_at d i"
  by (simp add: table_at_def maxTableIndex_def)

lemma literal_bytes:
  assumes "length (Name f) < 2 ^ 58" "length (Value f) < 2 ^ 58" "unat idx < 2 ^ 63" "ix \<Longrightarrow> \<not> Sensitive f"
    "idx \<noteq> 0 \<Longrightarrow> \<exists>hf. table_at d idx = Some hf \<and> Name hf = Name f" "field_fits d f" "takes d f"
    "ix \<Longrightarrow> dyn_add (ddynTab d) f = Ret dt" "\<not> ix \<Longrightarrow> dt = ddynTab d"
  shows "\<exists>R. (\<forall>dst. (if idx = 0 then appendNewName dst f ix else appendIndexedName dst f idx ix) = Ret (dst @ R)) \<and>
    (\<forall>rest. parseHeaderFieldRepr (d\<lparr>dbuf := R @ rest\<rparr>) =
       Ret (d\<lparr>dbuf := rest, ddynTab := dt, emitted := emitted d @ [f]\<rparr>, None))"
proof -
  obtain nm where nm: "\<And>dst. appendHpackString dst (Name f) = Ret (dst @ nm)"
      "\<And>d rest. str_fits d (Name f) \<Longrightarrow> readString d (nm @ rest) True = Ret (Name f, rest)"
    using appendHpackString_readString [OF assms(1)] by blast
  obtain vl where vl: "\<And>dst. appendHpackString dst (Value f) = Ret (dst @ vl)"
      "\<And>d rest. str_fits d (Value f) \<Longrightarrow> readString d (vl @ rest) True = Ret (Value f, rest)"
    using appendHpackString_readString [OF assms(2)] by blast
  let ?tb = "encodeTypeByte ix (Sensitive f)" and ?n = "if ix then 6 else 4 :: nat"
  define R where "R = or_at 0 ?tb (appendVarInt [] ?n idx) @ (if idx = 0 then nm else []) @ vl"
  have z: "or_at 0 ?tb (appendVarInt [] ?n 0) = [?tb]" by (simp add: appendVarInt_def or_at_Cons)
  have "(if idx = 0 then appendNewName dst f ix else appendIndexedName dst f idx ix) = Ret (dst @ R)" for dst
    using z by (simp add: appendNewName_def appendIndexedName_def nm vl R_def or_at_appendVarInt Let_def)
  moreover have "parseHeaderFieldRepr (d\<lparr>dbuf := R @ rest\<rparr>) =
       Ret (d\<lparr>dbuf := rest, ddynTab := dt, emitted := emitted d @ [f]\<rparr>, None)" for rest
  proof -
    let ?d = "d\<lparr>dbuf := R @ rest\<rparr>"
    have "literal_name ?d idx ((if idx = 0 then nm else []) @ vl @ rest) True = Ret (Name f, vl @ rest)"
      using assms(5,6) nm(2) by (auto simp: literal_name_def field_fits_def word_gt_0)
    moreover have "readString ?d (vl @ rest) True = Ret (Value f, rest)"
      using vl(2) assms(6) by (simp add: field_fits_def)
    ultimately show ?thesis
      using parseFieldLiteral_ok [of ?d ix f idx "(if idx = 0 then nm else []) @ vl @ rest" "vl @ rest" rest dt] assms
      by (simp add: R_def)
  qed
  ultimately show ?thesis by blast
qed

lemma writeRepr_ok:
  assumes "tables_sync (Suc n) e d" "maxSize (edynTab e) \<le> maxSize (ddynTab d)" "dsize (edynTab e) \<le> maxSize (edynTab e)"
    "field_fits d f" "takes d f"
  shows "\<exists>e' R dt. writeRepr e f = Ret (e\<lparr>edynTab := edynTab e', ebuf := ebuf e @ R\<rparr>) \<and>
    (\<forall>rest. parseHeaderFieldRepr (d\<lparr>dbuf := R @ rest\<rparr>) =
       Ret (d\<lparr>dbuf := rest, ddynTab := dt, emitted := emitted d @ [f]\<rparr>, None)) \<and>
    tables_sync n e' (d\<lparr>ddynTab := dt\<rparr>) \<and> maxSize (edynTab e') \<le> maxSize dt \<and>
    dsize (edynTab e') \<le> maxSize (edynTab e') \<and> maxSize (edynTab e') = maxSize (edynTab e) \<and>
    allowedMaxSize dt = allowedMaxSize (ddynTab d)"
proof -
  obtain idx m where idx: "searchTable e f = Ret (idx, m)" "unat idx < 2 ^ 63"
      "m \<Longrightarrow> \<not> Sensitive f \<and> (\<exists>hf. table_at d idx = Some hf \<and> name_value hf = name_value f)"
      "\<not> m \<Longrightarrow> idx \<noteq> 0 \<Longrightarrow> \<exists>hf. table_at d idx = Some hf \<and> Name hf = Name f"
    using searchTable_sound [of e d f] assms(1) table_len_le_count [of "table (ddynTab d)"]
    by (force simp: tables_sync_def)
  show ?thesis
  proof (cases m)
    case True
    then obtain hf where hf: "\<not> Sensitive f" "table_at d idx = Some hf" "name_value hf = name_value f" using idx(3) by blast
    have "parseHeaderFieldRepr (d\<lparr>dbuf := appendIndexed [] idx @ rest\<rparr>) =
        Ret (d\<lparr>dbuf := rest, emitted := emitted d @ [f]\<rparr>, None)" for rest
      using parseFieldIndexed_ok [of "d\<lparr>dbuf := appendIndexed [] idx @ rest\<rparr>" idx rest hf f] hf idx(2) assms(4,5) by simp
    moreover have "tables_sync n e d" using assms(1) by (simp add: tables_sync_def)
    ultimately show ?thesis
      using True idx(1) assms(2,3) appendIndexed_append [of "ebuf e" idx]
      by (intro exI [of _ e] exI [of _ "appendIndexed [] idx"] exI [of _ "ddynTab d"]) (simp add: writeRepr_def)
  next
    case False
    obtain dt dt' where ix: "shouldIndex e f \<Longrightarrow> dyn_add (edynTab e) f = Ret dt \<and> dyn_add (ddynTab d) f = Ret dt'"
        "\<not> shouldIndex e f \<Longrightarrow> dt = edynTab e \<and> dt' = ddynTab d"
      and sync: "tables_sync n (e\<lparr>edynTab := dt\<rparr>) (d\<lparr>ddynTab := dt'\<rparr>)" "dsize dt \<le> maxSize dt"
        "maxSize dt = maxSize (edynTab e)" "maxSize dt' = maxSize (ddynTab d)" "allowedMaxSize dt' = allowedMaxSize (ddynTab d)"
    proof (cases "shouldIndex e f")
      case True
      then show ?thesis using that dyn_add_sync [OF assms(1,2), of f] by blast
    next
      case False
      have "tables_sync n e d" using assms(1) by (simp add: tables_sync_def)
      with False show ?thesis using assms(2,3) by (intro that [of "edynTab e" "ddynTab d"]) simp_all
    qed
    have "\<exists>R. (\<forall>dst. (if idx = 0 then appendNewName dst f (shouldIndex e f)
                    else appendIndexedName dst f idx (shouldIndex e f)) = Ret (dst @ R)) \<and>
      (\<forall>rest. parseHeaderFieldRepr (d\<lparr>dbuf := R @ rest\<rparr>) =
         Ret (d\<lparr>dbuf := rest, ddynTab := dt', emitted := emitted d @ [f]\<rparr>, None))"
    proof (rule literal_bytes)
      show "length (Name f) < 2 ^ 58" "length (Value f) < 2 ^ 58"
        using assms(4) by (simp_all add: field_fits_def str_fits_def)
      show "\<not> Sensitive f" if "shouldIndex e f" using that by (simp add: shouldIndex_def)
    qed (use idx(2,4) False ix assms(4,5) in blast)+
    then obtain R where R: "\<And>dst. (if idx = 0 then appendNewName dst f (shouldIndex e f)
          else appendIndexedName dst f idx (shouldIndex e f)) = Ret (dst @ R)"
      "\<And>rest. parseHeaderFieldRepr (d\<lparr>dbuf := R @ rest\<rparr>) =
         Ret (d\<lparr>dbuf := rest, ddynTab := dt', emitted := emitted d @ [f]\<rparr>, None)" by blast
    have "writeRepr e f = Ret (e\<lparr>edynTab := dt, ebuf := ebuf e @ R\<rparr>)"
      using idx(1) False ix R(1) [of "ebuf e"]
      by (cases "shouldIndex e f"; cases "idx = 0") (simp_all add: writeRepr_def Let_def)
    then show ?thesis using R(2) sync assms(2)
      by (intro exI [of _ "e\<lparr>edynTab := dt\<rparr>"] exI [of _ R] exI [of _ dt']) simp
  qed
qed

section \<open>Size updates\<close>

lemma parse_update_ok:
  assumes "dyn_wf (ddynTab d)" "table_count (table (ddynTab d)) < 2 ^ 64" "v \<le> allowedMaxSize (ddynTab d)"
    "suffix T (dyn_ents (ddynTab d))" "total_size T \<le> v"
  shows "\<exists>dt. (\<forall>rest. parseHeaderFieldRepr (d\<lparr>dbuf := appendTableSize [] v @ rest\<rparr>) =
      Ret (d\<lparr>dbuf := rest, ddynTab := dt\<rparr>, None)) \<and>
    dyn_wf dt \<and> suffix T (dyn_ents dt) \<and> maxSize dt = v \<and> allowedMaxSize dt = allowedMaxSize (ddynTab d) \<and>
    table_count (table dt) = table_count (table (ddynTab d))"
proof -
  obtain dt where dt: "setMaxSize (ddynTab d) v = Ret dt" "dyn_wf dt" "dyn_ents dt = evict_spec v (dyn_ents (ddynTab d))"
      "maxSize dt = v" "allowedMaxSize dt = allowedMaxSize (ddynTab d)"
      "table_count (table dt) = table_count (table (ddynTab d))"
    using setMaxSize_eq_spec [OF assms(1,2), of v] by auto
  note u = unat_ucast_u32_u64 [of v]
  have "parseHeaderFieldRepr (d\<lparr>dbuf := appendTableSize [] v @ rest\<rparr>) =
      Ret (d\<lparr>dbuf := rest, ddynTab := dt\<rparr>, None)" for rest
  proof -
    let ?d = "d\<lparr>dbuf := appendTableSize [] v @ rest\<rparr>"
    have buf: "dbuf ?d = or_at 0 0x20 (appendVarInt [] 5 (ucast v)) @ rest" by (simp add: appendTableSize_def)
    have "readVarInt 5 (dbuf ?d) = Ret (ucast v, rest)"
      unfolding buf using u unat_u32_less [of v] by (intro readVarInt_small) simp_all
    moreover have "\<not> (ucast v :: u64) > ucast (allowedMaxSize (ddynTab d))"
      using assms(3) by (simp add: word_less_nat_alt word_le_nat_alt unat_ucast_u32_u64)
    moreover have "ucast (ucast v :: u64) = v" by (rule ucast_up_ucast_id) (simp add: is_up)
    ultimately show ?thesis
      using dt(1) by (simp add: parse_tableSize [OF buf] parseDynamicTableSizeUpdate_def)
  qed
  then show ?thesis using dt suffix_evict [OF assms(4,5)] by auto
qed

text \<open>The relation between the two ends between two calls.\<close>

definition codec_sync :: "nat \<Rightarrow> Encoder \<Rightarrow> Decoder \<Rightarrow> bool" where
  "codec_sync n e d \<longleftrightarrow> tables_sync n e d \<and> dsize (edynTab e) \<le> maxSize (edynTab e) \<and>
     (if tableSizeUpdate e then dsize (edynTab e) \<le> minSize e
      else minSize e = uint32Max \<and> maxSize (edynTab e) \<le> maxSize (ddynTab d)) \<and>
     maxSize (edynTab e) \<le> allowedMaxSize (ddynTab d) \<and> maxSizeLimit e \<le> allowedMaxSize (ddynTab d) \<and>
     emitEnabled d \<and> saveBuf d = []"

lemma update_step:
  assumes "tables_sync n e d" "v \<le> allowedMaxSize (ddynTab d)" "dsize (edynTab e) \<le> v"
  shows "\<exists>dt. (\<forall>k rest. write_loop k (d\<lparr>dbuf := appendTableSize [] v @ rest\<rparr>) =
      write_loop k (d\<lparr>dbuf := rest, ddynTab := dt\<rparr>)) \<and>
    tables_sync n e (d\<lparr>ddynTab := dt\<rparr>) \<and> maxSize dt = v \<and> allowedMaxSize dt = allowedMaxSize (ddynTab d)"
proof -
  have "dyn_wf (ddynTab d)" "table_count (table (ddynTab d)) < 2 ^ 64" "suffix (dyn_ents (edynTab e)) (dyn_ents (ddynTab d))"
    "total_size (dyn_ents (edynTab e)) \<le> v"
    using assms(1,3) by (auto simp: tables_sync_def dyn_wf_def)
  from parse_update_ok [OF this(1,2) assms(2) this(3,4)]
  obtain dt where dt: "\<And>rest. parseHeaderFieldRepr (d\<lparr>dbuf := appendTableSize [] v @ rest\<rparr>) =
      Ret (d\<lparr>dbuf := rest, ddynTab := dt\<rparr>, None)"
    "dyn_wf dt" "suffix (dyn_ents (edynTab e)) (dyn_ents dt)" "maxSize dt = v"
    "allowedMaxSize dt = allowedMaxSize (ddynTab d)" "table_count (table dt) = table_count (table (ddynTab d))"
    by blast
  have "tables_sync n e (d\<lparr>ddynTab := dt\<rparr>)" using assms(1) dt(2,3,6) by (simp add: tables_sync_def)
  then show ?thesis using dt(4,5) write_loop_step [OF dt(1)] by auto
qed

lemma flush_ok:
  assumes "codec_sync n e d"
  shows "\<exists>dt. (\<forall>k rest. write_loop k (d\<lparr>dbuf := ebuf (flushSizeUpdate (e\<lparr>ebuf := []\<rparr>)) @ rest\<rparr>) =
      write_loop k (d\<lparr>dbuf := rest, ddynTab := dt\<rparr>)) \<and>
    codec_sync n (flushSizeUpdate (e\<lparr>ebuf := []\<rparr>)) (d\<lparr>ddynTab := dt\<rparr>) \<and>
    \<not> tableSizeUpdate (flushSizeUpdate (e\<lparr>ebuf := []\<rparr>)) \<and> allowedMaxSize dt = allowedMaxSize (ddynTab d)"
proof (cases "tableSizeUpdate e")
  case False
  then show ?thesis using assms
    by (intro exI [of _ "ddynTab d"]) (auto simp: flushSizeUpdate_def codec_sync_def tables_sync_def)
next
  case True
  let ?mx = "maxSize (edynTab e)"
  have a: "tables_sync n e d" "dsize (edynTab e) \<le> ?mx" "?mx \<le> allowedMaxSize (ddynTab d)" "dsize (edynTab e) \<le> minSize e"
    using assms True by (auto simp: codec_sync_def)
  obtain dt1 where d1: "\<And>k rest. write_loop k (d\<lparr>dbuf := (if minSize e < ?mx then appendTableSize [] (minSize e) else []) @ rest\<rparr>) =
      write_loop k (d\<lparr>dbuf := rest, ddynTab := dt1\<rparr>)" "tables_sync n e (d\<lparr>ddynTab := dt1\<rparr>)"
      "allowedMaxSize dt1 = allowedMaxSize (ddynTab d)"
  proof (cases "minSize e < ?mx")
    case True
    then have "minSize e \<le> allowedMaxSize (ddynTab d)" using a(3) by simp
    from update_step [OF a(1) this a(4)] True show ?thesis by (auto intro: that)
  next
    case False
    then show ?thesis using a(1) by (intro that [of "ddynTab d"]) simp_all
  qed
  obtain dt2 where d2: "\<And>k rest. write_loop k (d\<lparr>ddynTab := dt1, dbuf := appendTableSize [] ?mx @ rest\<rparr>) =
      write_loop k (d\<lparr>ddynTab := dt1, dbuf := rest, ddynTab := dt2\<rparr>)"
      "tables_sync n e (d\<lparr>ddynTab := dt1, ddynTab := dt2\<rparr>)" "maxSize dt2 = ?mx"
      "allowedMaxSize dt2 = allowedMaxSize (ddynTab d)"
    using update_step [OF d1(2), of ?mx] a(2,3) d1(3) by auto
  have buf: "ebuf (flushSizeUpdate (e\<lparr>ebuf := []\<rparr>)) =
      (if minSize e < ?mx then appendTableSize [] (minSize e) else []) @ appendTableSize [] ?mx"
    using True appendTableSize_append [of "appendTableSize [] (minSize e)" ?mx] by (simp add: flushSizeUpdate_def Let_def)
  have "write_loop k (d\<lparr>dbuf := ebuf (flushSizeUpdate (e\<lparr>ebuf := []\<rparr>)) @ rest\<rparr>) =
      write_loop k (d\<lparr>dbuf := rest, ddynTab := dt2\<rparr>)" for k rest
  proof -
    have "write_loop k (d\<lparr>dbuf := ebuf (flushSizeUpdate (e\<lparr>ebuf := []\<rparr>)) @ rest\<rparr>) =
        write_loop k (d\<lparr>dbuf := appendTableSize [] ?mx @ rest, ddynTab := dt1\<rparr>)"
      unfolding buf append.assoc by (rule d1(1))
    also have "d\<lparr>dbuf := appendTableSize [] ?mx @ rest, ddynTab := dt1\<rparr> = d\<lparr>ddynTab := dt1, dbuf := appendTableSize [] ?mx @ rest\<rparr>"
      by simp
    also note d2(1)
    also have "d\<lparr>ddynTab := dt1, dbuf := rest, ddynTab := dt2\<rparr> = d\<lparr>dbuf := rest, ddynTab := dt2\<rparr>" by simp
    finally show ?thesis .
  qed
  then show ?thesis
    using True assms d2(2-4)
    by (intro exI [of _ dt2]) (simp add: flushSizeUpdate_def codec_sync_def tables_sync_def Let_def)
qed

section \<open>Sessions\<close>

datatype codec_op = SendField HeaderField | SetTableSize u32 | SetTableLimit u32

text \<open>What the encoder writes for each field is handed to the decoder.\<close>

fun session :: "codec_op list \<Rightarrow> Encoder \<Rightarrow> Decoder \<Rightarrow> (hpack_error, Encoder \<times> Decoder) go" where
  "session [] e d = Ret (e, d)"
| "session (SendField f # ops) e d =
     go_bind (encodeField e f) (\<lambda>e. go_bind (Decoder_Write d (ebuf e)) (\<lambda>(_, d, err).
       case err of None \<Rightarrow> session ops e d | Some x \<Rightarrow> Fail x))"
| "session (SetTableSize v # ops) e d =
     go_bind (Encoder_SetMaxDynamicTableSize e v) (\<lambda>e. session ops e d)"
| "session (SetTableLimit v # ops) e d =
     go_bind (SetMaxDynamicTableSizeLimit e v) (\<lambda>e. session ops e d)"

fun sent_fields :: "codec_op list \<Rightarrow> HeaderField list" where
  "sent_fields [] = []"
| "sent_fields (SendField f # ops) = f # sent_fields ops"
| "sent_fields (op # ops) = sent_fields ops"

fun op_ok :: "Decoder \<Rightarrow> codec_op \<Rightarrow> bool" where
  "op_ok d (SendField f) = field_fits d f"
| "op_ok d (SetTableSize v) = True"
| "op_ok d (SetTableLimit v) = (v \<le> allowedMaxSize (ddynTab d))"

lemma send_ok:
  assumes "codec_sync (Suc n) e d" "field_fits d f" "emit d (emitted d @ [f])"
  shows "\<exists>e' d'. encodeField e f = Ret e' \<and> Decoder_Write d (ebuf e') = Ret (length (ebuf e'), d', None) \<and>
    codec_sync n e' d' \<and> emitted d' = emitted d @ [f] \<and> maxStrLen d' = maxStrLen d \<and> emit d' = emit d \<and>
    allowedMaxSize (ddynTab d') = allowedMaxSize (ddynTab d)"
proof -
  let ?e = "flushSizeUpdate (e\<lparr>ebuf := []\<rparr>)"
  obtain dt where dt: "\<And>k rest. write_loop k (d\<lparr>dbuf := ebuf ?e @ rest\<rparr>) = write_loop k (d\<lparr>dbuf := rest, ddynTab := dt\<rparr>)"
      "codec_sync (Suc n) ?e (d\<lparr>ddynTab := dt\<rparr>)" "\<not> tableSizeUpdate ?e" "allowedMaxSize dt = allowedMaxSize (ddynTab d)"
    using flush_ok [OF assms(1)] by blast
  let ?d = "d\<lparr>ddynTab := dt\<rparr>"
  have s: "tables_sync (Suc n) ?e ?d" "maxSize (edynTab ?e) \<le> maxSize (ddynTab ?d)"
      "dsize (edynTab ?e) \<le> maxSize (edynTab ?e)" "field_fits ?d f" "takes ?d f"
    using dt(2,3) assms(2,3) by (auto simp: codec_sync_def)
  obtain e' R dt' where w: "writeRepr ?e f = Ret (?e\<lparr>edynTab := edynTab e', ebuf := ebuf ?e @ R\<rparr>)"
      "\<And>rest. parseHeaderFieldRepr (?d\<lparr>dbuf := R @ rest\<rparr>) =
         Ret (?d\<lparr>dbuf := rest, ddynTab := dt', emitted := emitted ?d @ [f]\<rparr>, None)"
      "tables_sync n e' (?d\<lparr>ddynTab := dt'\<rparr>)" "maxSize (edynTab e') \<le> maxSize dt'"
      "dsize (edynTab e') \<le> maxSize (edynTab e')" "maxSize (edynTab e') = maxSize (edynTab ?e)"
      "allowedMaxSize dt' = allowedMaxSize (ddynTab ?d)"
    using writeRepr_ok [OF s] by blast
  let ?e' = "?e\<lparr>edynTab := edynTab e', ebuf := ebuf ?e @ R\<rparr>"
  let ?d' = "?d\<lparr>dbuf := [], ddynTab := dt', emitted := emitted ?d @ [f]\<rparr>"
  have "R \<noteq> []" using w(2) [of "[]"] by (auto simp: parseHeaderFieldRepr_def)
  then have "Decoder_Write d (ebuf ?e @ R) = write_loop (length (ebuf ?e @ R)) (d\<lparr>dbuf := ebuf ?e @ R\<rparr>)"
    using assms(1) by (simp add: Decoder_Write_def codec_sync_def)
  also have "\<dots> = write_loop (length (ebuf ?e @ R)) (d\<lparr>dbuf := R, ddynTab := dt\<rparr>)" by (rule dt(1))
  also have "d\<lparr>dbuf := R, ddynTab := dt\<rparr> = ?d\<lparr>dbuf := R @ []\<rparr>" by simp
  also have "write_loop (length (ebuf ?e @ R)) (?d\<lparr>dbuf := R @ []\<rparr>) = write_loop (length (ebuf ?e @ R)) ?d'" by (rule write_loop_step) (rule w(2))
  also have "\<dots> = Ret (length (ebuf ?e @ R), ?d', None)" by (simp add: write_loop.simps)
  finally have "Decoder_Write d (ebuf ?e') = Ret (length (ebuf ?e'), ?d', None)" by simp
  moreover have "codec_sync n ?e' ?d'"
    using dt(2,3) w(3-7) by (auto simp: codec_sync_def tables_sync_def)
  ultimately show ?thesis using w(1,7) dt(4) by (intro exI [of _ ?e'] exI [of _ ?d']) (simp add: encodeField_def)
qed

lemma setMaxSize_sync:
  assumes "codec_sync n e d"
  shows "\<exists>dt. setMaxSize (edynTab e) v = Ret dt \<and> dyn_wf dt \<and> suffix (dyn_ents dt) (dyn_ents (ddynTab d)) \<and>
    dsize dt \<le> v \<and> dsize dt \<le> minSize e \<and> maxSize dt = v \<and> table_count (table dt) = table_count (table (edynTab e))"
proof -
  have c: "dyn_wf (edynTab e)" "table_count (table (edynTab e)) < 2 ^ 64"
      "suffix (dyn_ents (edynTab e)) (dyn_ents (ddynTab d))" "dsize (edynTab e) \<le> minSize e"
    using assms by (auto simp: codec_sync_def tables_sync_def uint32Max_def split: if_splits)
  from setMaxSize_eq_spec [OF c(1,2), of v]
  obtain dt where dt: "setMaxSize (edynTab e) v = Ret dt" "dyn_wf dt" "dyn_ents dt = evict_spec v (dyn_ents (edynTab e))"
      "dsize dt \<le> maxSize dt" "maxSize dt = v" "table_count (table dt) = table_count (table (edynTab e))" by auto
  have "dsize dt \<le> minSize e"
  proof (cases "v < minSize e")
    case False
    then have "evict_spec v (dyn_ents (edynTab e)) = dyn_ents (edynTab e)"
      using c(1,4) by (intro evict_spec_fits) (auto simp: dyn_wf_def)
    then show ?thesis using dt(2,3) c(1,4) by (simp add: dyn_wf_def)
  qed (use dt(4,5) in simp)
  then show ?thesis using dt c(3) evict_spec_suffix suffix_order.trans by fastforce
qed

lemma setsize_ok:
  assumes "codec_sync n e d"
  shows "\<exists>e'. Encoder_SetMaxDynamicTableSize e v = Ret e' \<and> codec_sync n e' d"
proof -
  define w where "w = (if v > maxSizeLimit e then maxSizeLimit e else v)"
  obtain dt where dt: "setMaxSize (edynTab e) w = Ret dt" "dyn_wf dt" "suffix (dyn_ents dt) (dyn_ents (ddynTab d))"
      "dsize dt \<le> w" "dsize dt \<le> minSize e" "maxSize dt = w" "table_count (table dt) = table_count (table (edynTab e))"
    using setMaxSize_sync [OF assms] by blast
  have "w \<le> maxSizeLimit e" by (auto simp: w_def)
  then show ?thesis using dt assms
    by (auto simp: Encoder_SetMaxDynamicTableSize_def w_def [symmetric] Let_def codec_sync_def tables_sync_def)
qed

lemma setlimit_ok:
  assumes "codec_sync n e d" "v \<le> allowedMaxSize (ddynTab d)"
  shows "\<exists>e'. SetMaxDynamicTableSizeLimit e v = Ret e' \<and> codec_sync n e' d"
proof -
  obtain dt where "setMaxSize (edynTab e) v = Ret dt" "dyn_wf dt" "suffix (dyn_ents dt) (dyn_ents (ddynTab d))"
      "dsize dt \<le> v" "dsize dt \<le> minSize e" "maxSize dt = v" "table_count (table dt) = table_count (table (edynTab e))"
    using setMaxSize_sync [OF assms(1)] by blast
  then show ?thesis using assms
    by (auto simp: SetMaxDynamicTableSizeLimit_def Let_def codec_sync_def tables_sync_def)
qed

lemma session_ok:
  assumes "codec_sync (length (sent_fields ops)) e d" "\<forall>op \<in> set ops. op_ok d op" "emit d = (\<lambda>_. True)"
  shows "\<exists>e' d'. session ops e d = Ret (e', d') \<and> codec_sync 0 e' d' \<and> emitted d' = emitted d @ sent_fields ops"
  using assms
proof (induction ops arbitrary: e d)
  case (Cons op ops)
  show ?case
  proof (cases op)
    case (SendField f)
    with Cons.prems have "codec_sync (Suc (length (sent_fields ops))) e d" "field_fits d f" "emit d (emitted d @ [f])" by auto
    from send_ok [OF this] obtain e' d' where s: "encodeField e f = Ret e'"
        "Decoder_Write d (ebuf e') = Ret (length (ebuf e'), d', None)" "codec_sync (length (sent_fields ops)) e' d'"
        "emitted d' = emitted d @ [f]" "maxStrLen d' = maxStrLen d" "emit d' = emit d" "allowedMaxSize (ddynTab d') = allowedMaxSize (ddynTab d)"
      by blast
    have "op_ok d' x = op_ok d x" for x
      using s(5,7) by (cases x) (simp_all add: field_fits_def str_fits_def)
    then show ?thesis using Cons.IH [OF s(3)] Cons.prems(2,3) s SendField by auto
  next
    case (SetTableSize v)
    with Cons.prems obtain e' where "Encoder_SetMaxDynamicTableSize e v = Ret e'" "codec_sync (length (sent_fields ops)) e' d"
      using setsize_ok by fastforce
    then show ?thesis using Cons SetTableSize by auto
  next
    case (SetTableLimit v)
    with Cons.prems obtain e' where "SetMaxDynamicTableSizeLimit e v = Ret e'" "codec_sync (length (sent_fields ops)) e' d"
      using setlimit_ok by fastforce
    then show ?thesis using Cons SetTableLimit by auto
  qed
qed simp

lemma new_codec_sync:
  assumes "initialHeaderTableSize \<le> v" "NewEncoder = Ret e" "NewDecoder v = Ret d" "n < 2 ^ 62"
  shows "codec_sync n e d"
  using assms
  by (auto simp: NewEncoder_def NewDecoder_def setMaxSize_def evict_def evictOldest_def table_init_def table_len_def
      Let_def codec_sync_def tables_sync_def dyn_wf_def table_wf_def index_ok_init table_count_def)

section \<open>Properties\<close>

text \<open>C1: whatever header fields are written through a new encoder, sensitive or not, with the table size
  and its limit changed at any time in between (limits within what the decoder allows), the
  decoder that is handed the output of each call emits exactly those fields in that order and
  reports no error; neither end panics.\<close>

theorem hpack_session:
  assumes "NewEncoder = Ret e" "NewDecoder v = Ret d" "initialHeaderTableSize \<le> v"
    "\<forall>op \<in> set ops. op_ok d op" "length ops < 2 ^ 62"
  shows "\<exists>e' d'. session ops e d = Ret (e', d') \<and> emitted d' = sent_fields ops"
proof -
  have "length (sent_fields ops) \<le> length ops" by (induction ops rule: sent_fields.induct) auto
  then have "codec_sync (length (sent_fields ops)) e d" using assms by (intro new_codec_sync) auto
  moreover have "emitted d = []" "emit d = (\<lambda>_. True)" using assms(2) by (auto simp: NewDecoder_def go_bind_eq_Ret)
  ultimately show ?thesis using session_ok [of ops e d] assms(4) by auto
qed

definition example_field :: HeaderField where
  "example_field = \<lparr>Name = [120], Value = [49, 50], Sensitive = False\<rparr>"

lemma new_example:
  "NewEncoder = Ret \<lparr>edynTab = \<lparr>table = table_init, dsize = 0, maxSize = 4096, allowedMaxSize = 0\<rparr>,
     minSize = uint32Max, maxSizeLimit = 4096, tableSizeUpdate = False, ebuf = []\<rparr>"
  "NewDecoder 4096 = Ret \<lparr>ddynTab = \<lparr>table = table_init, dsize = 0, maxSize = 4096, allowedMaxSize = 4096\<rparr>,
     emit = \<lambda>_. True, emitEnabled = True, maxStrLen = 0, dbuf = [], saveBuf = [], emitted = []\<rparr>"
  by (simp_all add: NewEncoder_def NewDecoder_def setMaxSize_def evict_def evictOldest_def table_init_def
      table_len_def Let_def initialHeaderTableSize_def)

definition example_ops :: "codec_op list" where
  "example_ops = [SendField example_field, SetTableLimit 0, SetTableLimit 100, SetTableSize 4096,
     SendField (example_field\<lparr>Sensitive := True\<rparr>), SendField example_field]"

theorem hpack_session_witness:
  "\<exists>e d e' d'. NewEncoder = Ret e \<and> NewDecoder 4096 = Ret d \<and> session example_ops e d = Ret (e', d') \<and>
     emitted d' = [example_field, example_field\<lparr>Sensitive := True\<rparr>, example_field]"
proof -
  have "sent_fields example_ops = [example_field, example_field\<lparr>Sensitive := True\<rparr>, example_field]"
    "length example_ops < 2 ^ 62" by (simp_all add: example_ops_def)
  moreover have "\<forall>op \<in> set example_ops. op_ok d op" if "NewDecoder 4096 = Ret d" for d
    using that new_example(2) by (auto simp: example_ops_def example_field_def field_fits_def str_fits_def)
  ultimately show ?thesis
    using hpack_session [OF new_example, of example_ops] new_example
    by (auto simp: initialHeaderTableSize_def)
qed

end
