(* ===== verification/Go_Binary.thy ===== *)
theory Go_Binary
  imports Go_Prelude
begin

text \<open>
  Big-endian fixed-width integers (Go's \<open>encoding/binary\<close>) and decimal and hexadecimal numerals.
\<close>

section \<open>Big-endian integers\<close>

definition put16 :: "u16 \<Rightarrow> bytes" where
  "put16 v = [ucast (drop_bit 8 v), ucast v]"

definition put24 :: "nat \<Rightarrow> bytes" where
  "put24 n = [word_of_nat (drop_bit 16 n), word_of_nat (drop_bit 8 n), word_of_nat n]"

definition put32 :: "u32 \<Rightarrow> bytes" where
  "put32 v = [ucast (drop_bit 24 v), ucast (drop_bit 16 v), ucast (drop_bit 8 v), ucast v]"

definition get16 :: "byte \<Rightarrow> byte \<Rightarrow> u16" where
  "get16 a b = push_bit 8 (ucast a) OR ucast b"

definition get24 :: "byte \<Rightarrow> byte \<Rightarrow> byte \<Rightarrow> u32" where
  "get24 a b c = push_bit 16 (ucast a) OR push_bit 8 (ucast b) OR ucast c"

definition get32 :: "byte \<Rightarrow> byte \<Rightarrow> byte \<Rightarrow> byte \<Rightarrow> u32" where
  "get32 a b c d = push_bit 24 (ucast a) OR push_bit 16 (ucast b) OR push_bit 8 (ucast c) OR ucast d"

lemma length_put [simp]: "length (put16 v) = 2" "length (put24 n) = 3" "length (put32 w) = 4"
  by (simp_all add: put16_def put24_def put32_def)

lemma get16_put16 [simp]: "get16 (ucast (drop_bit 8 v)) (ucast v) = v"
proof (rule bit_word_eqI)
  fix i assume "i < LENGTH(16)"
  then have "i < 16" by simp
  then show "bit (get16 (ucast (drop_bit 8 v)) (ucast v)) i = bit v i"
    by (cases "i < 8") (auto simp: get16_def bit_simps not_less)
qed

lemma get32_put32 [simp]:
  "get32 (ucast (drop_bit 24 v)) (ucast (drop_bit 16 v)) (ucast (drop_bit 8 v)) (ucast v) = v"
proof (rule bit_word_eqI)
  fix i assume "i < LENGTH(32)"
  then have "i < 32" by simp
  then consider "i < 8" | "8 \<le> i" "i < 16" | "16 \<le> i" "i < 24" | "24 \<le> i" "i < 32" by linarith
  then show "bit (get32 (ucast (drop_bit 24 v)) (ucast (drop_bit 16 v)) (ucast (drop_bit 8 v)) (ucast v)) i = bit v i"
    by cases (auto simp: get32_def bit_simps)
qed

lemma get24_put24:
  assumes "n < 2 ^ 24"
  shows "get24 (word_of_nat (drop_bit 16 n)) (word_of_nat (drop_bit 8 n)) (word_of_nat n) = word_of_nat n"
proof (rule bit_word_eqI)
  fix i assume "i < LENGTH(32)"
  have hi: "\<not> bit n i" if "24 \<le> i"
  proof -
    have "n < 2 ^ i" using assms that by (meson less_le_trans power_increasing one_le_numeral)
    then show ?thesis by (simp add: bit_iff_odd)
  qed
  consider "i < 8" | "8 \<le> i" "i < 16" | "16 \<le> i" "i < 24" | "24 \<le> i" by linarith
  then show "bit (get24 (word_of_nat (drop_bit 16 n)) (word_of_nat (drop_bit 8 n)) (word_of_nat n)) i = bit (word_of_nat n :: u32) i"
    using \<open>i < LENGTH(32)\<close> hi
    by cases (auto simp: get24_def bit_simps)
qed

section \<open>Numerals\<close>

text \<open>\<open>strconv.Itoa\<close> and \<open>%x\<close> on natural numbers.\<close>

definition digit_char :: "nat \<Rightarrow> char" where
  "digit_char d = (if d < 10 then char_of (48 + d) else char_of (87 + d))"

fun numeral_acc :: "nat \<Rightarrow> nat \<Rightarrow> string \<Rightarrow> string" where
  "numeral_acc b n acc =
     (if b < 2 then [] else if n < b then digit_char n # acc
      else numeral_acc b (n div b) (digit_char (n mod b) # acc))"

definition decimal :: "nat \<Rightarrow> string" where
  "decimal n = numeral_acc 10 n []"

definition hexadecimal :: "nat \<Rightarrow> string" where
  "hexadecimal n = numeral_acc 16 n []"

end
