(* ===== verification/Http2_Frame.thy ===== *)
theory Http2_Frame
  imports Go_Binary
begin

text \<open>
  The HTTP/2 framer (golang.org/x/net/http2: frame.go, errors.go and the settings of http2.go):
  frame headers, the ten frame parsers, the write methods, and \<open>ReadFrame\<close> with its check of the
  frame order. A reader is the bytes it still delivers before EOF.
\<close>

section \<open>Errors\<close>

type_synonym ErrCode = u32

definition ErrCodeNo :: ErrCode where "ErrCodeNo = 0x0"
definition ErrCodeProtocol :: ErrCode where "ErrCodeProtocol = 0x1"
definition ErrCodeInternal :: ErrCode where "ErrCodeInternal = 0x2"
definition ErrCodeFlowControl :: ErrCode where "ErrCodeFlowControl = 0x3"
definition ErrCodeSettingsTimeout :: ErrCode where "ErrCodeSettingsTimeout = 0x4"
definition ErrCodeStreamClosed :: ErrCode where "ErrCodeStreamClosed = 0x5"
definition ErrCodeFrameSize :: ErrCode where "ErrCodeFrameSize = 0x6"
definition ErrCodeRefusedStream :: ErrCode where "ErrCodeRefusedStream = 0x7"
definition ErrCodeCancel :: ErrCode where "ErrCodeCancel = 0x8"
definition ErrCodeCompression :: ErrCode where "ErrCodeCompression = 0x9"
definition ErrCodeConnect :: ErrCode where "ErrCodeConnect = 0xa"
definition ErrCodeEnhanceYourCalm :: ErrCode where "ErrCodeEnhanceYourCalm = 0xb"
definition ErrCodeInadequateSecurity :: ErrCode where "ErrCodeInadequateSecurity = 0xc"
definition ErrCodeHTTP11Required :: ErrCode where "ErrCodeHTTP11Required = 0xd"

definition errCodeName :: "(ErrCode \<times> string) list" where
  "errCodeName =
     [(ErrCodeNo, ''NO_ERROR''),
      (ErrCodeProtocol, ''PROTOCOL_ERROR''),
      (ErrCodeInternal, ''INTERNAL_ERROR''),
      (ErrCodeFlowControl, ''FLOW_CONTROL_ERROR''),
      (ErrCodeSettingsTimeout, ''SETTINGS_TIMEOUT''),
      (ErrCodeStreamClosed, ''STREAM_CLOSED''),
      (ErrCodeFrameSize, ''FRAME_SIZE_ERROR''),
      (ErrCodeRefusedStream, ''REFUSED_STREAM''),
      (ErrCodeCancel, ''CANCEL''),
      (ErrCodeCompression, ''COMPRESSION_ERROR''),
      (ErrCodeConnect, ''CONNECT_ERROR''),
      (ErrCodeEnhanceYourCalm, ''ENHANCE_YOUR_CALM''),
      (ErrCodeInadequateSecurity, ''INADEQUATE_SECURITY''),
      (ErrCodeHTTP11Required, ''HTTP_1_1_REQUIRED'')]"

definition ErrCode_String :: "ErrCode \<Rightarrow> string" where
  "ErrCode_String e =
     (case map_of errCodeName e of
        Some s \<Rightarrow> s
      | None \<Rightarrow> ''unknown error code 0x'' @ hexadecimal (unat e))"

text \<open>
  The reason of a \<open>connError\<close> or the cause of a \<open>StreamError\<close>, which the framer keeps as its error
  detail. The texts built with \<open>fmt.Sprintf\<close> are kept as their arguments.
\<close>

datatype reason =
    Reason string
  | PrioritySize nat
  | ExpectedContinuation u8 u32 u8 u32
  | ContinuationStream u32 u32
  | UnexpectedContinuation u32
  | pseudoHeaderError bytes
  | duplicatePseudoHeaderError bytes
  | headerFieldNameError bytes
  | headerFieldValueError bytes
  | errMixPseudoHeaderTypes
  | errPseudoAfterRegular

datatype 'w frame_error =
    ConnectionError ErrCode
  | StreamError u32 ErrCode "reason option"
  | connError ErrCode reason
  | EOF
  | ErrUnexpectedEOF
  | ErrFrameTooLarge
  | errStreamID
  | errDepStreamID
  | errPadLength
  | errPadBytes
  | errWindowIncrement
  | IOError "'w write_error"
  | ErrorsNew string

section \<open>Frame types, flags, headers\<close>

type_synonym FrameType = u8

definition FrameData :: FrameType where "FrameData = 0x0"
definition FrameHeaders :: FrameType where "FrameHeaders = 0x1"
definition FramePriority :: FrameType where "FramePriority = 0x2"
definition FrameRSTStream :: FrameType where "FrameRSTStream = 0x3"
definition FrameSettings :: FrameType where "FrameSettings = 0x4"
definition FramePushPromise :: FrameType where "FramePushPromise = 0x5"
definition FramePing :: FrameType where "FramePing = 0x6"
definition FrameGoAway :: FrameType where "FrameGoAway = 0x7"
definition FrameWindowUpdate :: FrameType where "FrameWindowUpdate = 0x8"
definition FrameContinuation :: FrameType where "FrameContinuation = 0x9"

lemmas frame_types = FrameData_def FrameHeaders_def FramePriority_def FrameRSTStream_def FrameSettings_def
  FramePushPromise_def FramePing_def FrameGoAway_def FrameWindowUpdate_def FrameContinuation_def

definition frameName :: "(FrameType \<times> string) list" where
  "frameName =
     [(FrameData, ''DATA''),
      (FrameHeaders, ''HEADERS''),
      (FramePriority, ''PRIORITY''),
      (FrameRSTStream, ''RST_STREAM''),
      (FrameSettings, ''SETTINGS''),
      (FramePushPromise, ''PUSH_PROMISE''),
      (FramePing, ''PING''),
      (FrameGoAway, ''GOAWAY''),
      (FrameWindowUpdate, ''WINDOW_UPDATE''),
      (FrameContinuation, ''CONTINUATION'')]"

definition FrameType_String :: "FrameType \<Rightarrow> string" where
  "FrameType_String t =
     (case map_of frameName t of
        Some s \<Rightarrow> s
      | None \<Rightarrow> ''UNKNOWN_FRAME_TYPE_'' @ decimal (unat t))"

type_synonym Flags = u8

definition Has :: "Flags \<Rightarrow> Flags \<Rightarrow> bool" where
  "Has f v \<longleftrightarrow> f AND v = v"

definition FlagDataEndStream :: Flags where "FlagDataEndStream = 0x1"
definition FlagDataPadded :: Flags where "FlagDataPadded = 0x8"
definition FlagHeadersEndStream :: Flags where "FlagHeadersEndStream = 0x1"
definition FlagHeadersEndHeaders :: Flags where "FlagHeadersEndHeaders = 0x4"
definition FlagHeadersPadded :: Flags where "FlagHeadersPadded = 0x8"
definition FlagHeadersPriority :: Flags where "FlagHeadersPriority = 0x20"
definition FlagSettingsAck :: Flags where "FlagSettingsAck = 0x1"
definition FlagPingAck :: Flags where "FlagPingAck = 0x1"
definition FlagContinuationEndHeaders :: Flags where "FlagContinuationEndHeaders = 0x4"
definition FlagPushPromiseEndHeaders :: Flags where "FlagPushPromiseEndHeaders = 0x4"
definition FlagPushPromisePadded :: Flags where "FlagPushPromisePadded = 0x8"

lemmas frame_flags = FlagDataEndStream_def FlagDataPadded_def FlagHeadersEndStream_def FlagHeadersEndHeaders_def
  FlagHeadersPadded_def FlagHeadersPriority_def FlagSettingsAck_def FlagPingAck_def FlagContinuationEndHeaders_def
  FlagPushPromiseEndHeaders_def FlagPushPromisePadded_def

record FrameHeader =
  valid :: bool
  Type :: FrameType
  Flags :: Flags
  Length :: u32
  StreamID :: u32

definition invalidate :: "FrameHeader \<Rightarrow> FrameHeader" where
  "invalidate h = h\<lparr>valid := False\<rparr>"

text \<open>\<open>checkValid\<close> before an accessor returns \<open>x\<close>.\<close>

definition checkValid :: "FrameHeader \<Rightarrow> 'a \<Rightarrow> ('e, 'a) go" where
  "checkValid h x = (if \<not> valid h then Panic else Ret x)"

text \<open>\<open>io.ReadFull\<close> of \<open>n\<close> bytes: what is left of the reader, and the bytes or the error.\<close>

definition ReadFull :: "nat \<Rightarrow> bytes \<Rightarrow> bytes \<times> ('w frame_error + bytes)" where
  "ReadFull n r =
     (if n \<le> length r then (drop n r, Inr (take n r))
      else ([], Inl (if r = [] then EOF else ErrUnexpectedEOF)))"

definition frameHeaderLen :: nat where
  "frameHeaderLen = 9"

definition header_of :: "bytes \<Rightarrow> FrameHeader" where
  "header_of buf =
     \<lparr>valid = True,
      Type = buf ! 3,
      Flags = buf ! 4,
      Length = get24 (buf ! 0) (buf ! 1) (buf ! 2),
      StreamID = get32 (buf ! 5) (buf ! 6) (buf ! 7) (buf ! 8) AND 0x7fffffff\<rparr>"

definition readFrameHeader :: "bytes \<Rightarrow> bytes \<times> ('w frame_error + FrameHeader)" where
  "readFrameHeader r =
     (case ReadFull frameHeaderLen r of
        (r, Inl e) \<Rightarrow> (r, Inl e)
      | (r, Inr buf) \<Rightarrow> (r, Inr (header_of buf)))"

record PriorityParam =
  StreamDep :: u32
  Exclusive :: bool
  Weight :: u8

definition zero_priority :: PriorityParam where
  "zero_priority = \<lparr>StreamDep = 0, Exclusive = False, Weight = 0\<rparr>"

definition IsZero :: "PriorityParam \<Rightarrow> bool" where
  "IsZero p \<longleftrightarrow> p = zero_priority"

datatype frame =
    DataFrame FrameHeader bytes
  | HeadersFrame FrameHeader PriorityParam bytes
  | PriorityFrame FrameHeader PriorityParam
  | RSTStreamFrame FrameHeader ErrCode
  | SettingsFrame FrameHeader bytes
  | PushPromiseFrame FrameHeader u32 bytes
  | PingFrame FrameHeader bytes
  | GoAwayFrame FrameHeader u32 ErrCode bytes
  | WindowUpdateFrame FrameHeader u32
  | ContinuationFrame FrameHeader bytes
  | UnknownFrame FrameHeader bytes

fun Header :: "frame \<Rightarrow> FrameHeader" where
  "Header (DataFrame fh _) = fh"
| "Header (HeadersFrame fh _ _) = fh"
| "Header (PriorityFrame fh _) = fh"
| "Header (RSTStreamFrame fh _) = fh"
| "Header (SettingsFrame fh _) = fh"
| "Header (PushPromiseFrame fh _ _) = fh"
| "Header (PingFrame fh _) = fh"
| "Header (GoAwayFrame fh _ _ _) = fh"
| "Header (WindowUpdateFrame fh _) = fh"
| "Header (ContinuationFrame fh _) = fh"
| "Header (UnknownFrame fh _) = fh"

fun map_header :: "(FrameHeader \<Rightarrow> FrameHeader) \<Rightarrow> frame \<Rightarrow> frame" where
  "map_header g (DataFrame fh d) = DataFrame (g fh) d"
| "map_header g (HeadersFrame fh p b) = HeadersFrame (g fh) p b"
| "map_header g (PriorityFrame fh p) = PriorityFrame (g fh) p"
| "map_header g (RSTStreamFrame fh c) = RSTStreamFrame (g fh) c"
| "map_header g (SettingsFrame fh p) = SettingsFrame (g fh) p"
| "map_header g (PushPromiseFrame fh i b) = PushPromiseFrame (g fh) i b"
| "map_header g (PingFrame fh d) = PingFrame (g fh) d"
| "map_header g (GoAwayFrame fh i c d) = GoAwayFrame (g fh) i c d"
| "map_header g (WindowUpdateFrame fh n) = WindowUpdateFrame (g fh) n"
| "map_header g (ContinuationFrame fh b) = ContinuationFrame (g fh) b"
| "map_header g (UnknownFrame fh b) = UnknownFrame (g fh) b"

section \<open>Parsers\<close>

definition readByte :: "bytes \<Rightarrow> ('w frame_error, bytes \<times> byte) go" where
  "readByte p = (case p of [] \<Rightarrow> Fail ErrUnexpectedEOF | b # r \<Rightarrow> Ret (r, b))"

definition readUint32 :: "bytes \<Rightarrow> ('w frame_error, bytes \<times> u32) go" where
  "readUint32 p =
     (if length p < 4 then Fail ErrUnexpectedEOF
      else Ret (drop 4 p, get32 (p ! 0) (p ! 1) (p ! 2) (p ! 3)))"

type_synonym 'w frameParser = "FrameHeader \<Rightarrow> bytes \<Rightarrow> ('w frame_error, frame) go"

definition parseDataFrame :: "'w frameParser" where
  "parseDataFrame fh payload =
     (if StreamID fh = 0 then Fail (connError ErrCodeProtocol (Reason ''DATA frame with stream ID 0''))
      else go_bind (if Has (Flags fh) FlagDataPadded then readByte payload else Ret (payload, 0))
        (\<lambda>(payload, padSize).
           if unat padSize > length payload
           then Fail (connError ErrCodeProtocol (Reason ''pad size larger than data payload''))
           else Ret (DataFrame fh (take (length payload - unat padSize) payload))))"

definition SettingHeaderTableSize :: u16 where "SettingHeaderTableSize = 0x1"
definition SettingEnablePush :: u16 where "SettingEnablePush = 0x2"
definition SettingMaxConcurrentStreams :: u16 where "SettingMaxConcurrentStreams = 0x3"
definition SettingInitialWindowSize :: u16 where "SettingInitialWindowSize = 0x4"
definition SettingMaxFrameSize :: u16 where "SettingMaxFrameSize = 0x5"
definition SettingMaxHeaderListSize :: u16 where "SettingMaxHeaderListSize = 0x6"

record Setting =
  ID :: u16
  Val :: u32

text \<open>
  The settings of a payload, six bytes each; the slicing of an incomplete one panics.
\<close>

fun Value_loop :: "bytes \<Rightarrow> u16 \<Rightarrow> ('w frame_error, u32 option) go" where
  "Value_loop [] s = Ret None"
| "Value_loop (a # b # c # d # e # f # buf) s =
     (if get16 a b = s then Ret (Some (get32 c d e f)) else Value_loop buf s)"
| "Value_loop _ s = Panic"

text \<open>\<open>(*SettingsFrame).Value\<close>, on the payload of a valid frame.\<close>

definition settings_Value :: "FrameHeader \<Rightarrow> bytes \<Rightarrow> u16 \<Rightarrow> ('w frame_error, u32 option) go" where
  "settings_Value fh p s = go_bind (checkValid fh p) (\<lambda>buf. Value_loop buf s)"

fun Foreach_loop :: "bytes \<Rightarrow> (Setting \<Rightarrow> 's \<Rightarrow> 's \<times> 'w frame_error option) \<Rightarrow> 's \<Rightarrow>
    ('w frame_error, 's \<times> 'w frame_error option) go" where
  "Foreach_loop [] fn s = Ret (s, None)"
| "Foreach_loop (a # b # c # d # e # f # buf) fn s =
     (case fn \<lparr>ID = get16 a b, Val = get32 c d e f\<rparr> s of
        (s, Some err) \<Rightarrow> Ret (s, Some err)
      | (s, None) \<Rightarrow> Foreach_loop buf fn s)"
| "Foreach_loop _ fn s = Panic"

text \<open>\<open>ForeachSetting\<close>, with a callback that updates a state \<open>s\<close> and may fail.\<close>

definition ForeachSetting :: "FrameHeader \<Rightarrow> bytes \<Rightarrow> (Setting \<Rightarrow> 's \<Rightarrow> 's \<times> 'w frame_error option) \<Rightarrow> 's \<Rightarrow>
    ('w frame_error, 's \<times> 'w frame_error option) go" where
  "ForeachSetting fh p fn s = go_bind (checkValid fh p) (\<lambda>buf. Foreach_loop buf fn s)"

definition parseSettingsFrame :: "'w frameParser" where
  "parseSettingsFrame fh p =
     (if Has (Flags fh) FlagSettingsAck \<and> Length fh > 0 then Fail (ConnectionError ErrCodeFrameSize)
      else if StreamID fh \<noteq> 0 then Fail (ConnectionError ErrCodeProtocol)
      else if length p mod 6 \<noteq> 0 then Fail (ConnectionError ErrCodeFrameSize)
      else go_bind (settings_Value fh p SettingInitialWindowSize) (\<lambda>v.
        case v of
          Some v \<Rightarrow> if v > 0x7fffffff then Fail (ConnectionError ErrCodeFlowControl) else Ret (SettingsFrame fh p)
        | None \<Rightarrow> Ret (SettingsFrame fh p)))"

definition parsePingFrame :: "'w frameParser" where
  "parsePingFrame fh payload =
     (if length payload \<noteq> 8 then Fail (ConnectionError ErrCodeFrameSize)
      else if StreamID fh \<noteq> 0 then Fail (ConnectionError ErrCodeProtocol)
      else Ret (PingFrame fh payload))"

definition parseGoAwayFrame :: "'w frameParser" where
  "parseGoAwayFrame fh p =
     (if StreamID fh \<noteq> 0 then Fail (ConnectionError ErrCodeProtocol)
      else if length p < 8 then Fail (ConnectionError ErrCodeFrameSize)
      else Ret (GoAwayFrame fh (get32 (p ! 0) (p ! 1) (p ! 2) (p ! 3) AND 0x7fffffff)
                  (get32 (p ! 4) (p ! 5) (p ! 6) (p ! 7)) (drop 8 p)))"

definition parseUnknownFrame :: "'w frameParser" where
  "parseUnknownFrame fh p = Ret (UnknownFrame fh p)"

definition parseWindowUpdateFrame :: "'w frameParser" where
  "parseWindowUpdateFrame fh p =
     (if length p \<noteq> 4 then Fail (ConnectionError ErrCodeFrameSize)
      else let inc = get32 (p ! 0) (p ! 1) (p ! 2) (p ! 3) AND 0x7fffffff
           in if inc = 0
              then if StreamID fh = 0 then Fail (ConnectionError ErrCodeProtocol)
                   else Fail (StreamError (StreamID fh) ErrCodeProtocol None)
              else Ret (WindowUpdateFrame fh inc))"

text \<open>The optional priority block of a HEADERS frame.\<close>

definition readPriority :: "FrameHeader \<Rightarrow> bytes \<Rightarrow> ('w frame_error, bytes \<times> PriorityParam) go" where
  "readPriority fh p =
     (if Has (Flags fh) FlagHeadersPriority
      then go_bind (readUint32 p) (\<lambda>(p, v).
           let dep = v AND 0x7fffffff
           in go_bind (readByte p) (\<lambda>(p, weight).
                Ret (p, \<lparr>StreamDep = dep, Exclusive = (v \<noteq> dep), Weight = weight\<rparr>)))
      else Ret (p, zero_priority))"

definition parseHeadersFrame :: "'w frameParser" where
  "parseHeadersFrame fh p =
     (if StreamID fh = 0 then Fail (connError ErrCodeProtocol (Reason ''HEADERS frame with stream ID 0''))
      else go_bind (if Has (Flags fh) FlagHeadersPadded then readByte p else Ret (p, 0)) (\<lambda>(p, padLength).
           go_bind (readPriority fh p) (\<lambda>(p, prio).
           if int (length p) - int (unat padLength) \<le> 0 then Fail (StreamError (StreamID fh) ErrCodeProtocol None)
           else Ret (HeadersFrame fh prio (take (length p - unat padLength) p)))))"

definition parsePriorityFrame :: "'w frameParser" where
  "parsePriorityFrame fh payload =
     (if StreamID fh = 0 then Fail (connError ErrCodeProtocol (Reason ''PRIORITY frame with stream ID 0''))
      else if length payload \<noteq> 5 then Fail (connError ErrCodeFrameSize (PrioritySize (length payload)))
      else let v = get32 (payload ! 0) (payload ! 1) (payload ! 2) (payload ! 3);
               streamID = v AND 0x7fffffff
           in Ret (PriorityFrame fh \<lparr>StreamDep = streamID, Exclusive = (streamID \<noteq> v), Weight = payload ! 4\<rparr>))"

definition parseRSTStreamFrame :: "'w frameParser" where
  "parseRSTStreamFrame fh p =
     (if length p \<noteq> 4 then Fail (ConnectionError ErrCodeFrameSize)
      else if StreamID fh = 0 then Fail (ConnectionError ErrCodeProtocol)
      else Ret (RSTStreamFrame fh (get32 (p ! 0) (p ! 1) (p ! 2) (p ! 3))))"

definition parseContinuationFrame :: "'w frameParser" where
  "parseContinuationFrame fh p =
     (if StreamID fh = 0 then Fail (connError ErrCodeProtocol (Reason ''CONTINUATION frame with stream ID 0''))
      else Ret (ContinuationFrame fh p))"

definition parsePushPromise :: "'w frameParser" where
  "parsePushPromise fh p =
     (if StreamID fh = 0 then Fail (ConnectionError ErrCodeProtocol)
      else go_bind (if Has (Flags fh) FlagPushPromisePadded then readByte p else Ret (p, 0)) (\<lambda>(p, padLength).
           go_bind (readUint32 p) (\<lambda>(p, promiseID).
           let promiseID = promiseID AND 0x7fffffff
           in if unat padLength > length p then Fail (ConnectionError ErrCodeProtocol)
              else Ret (PushPromiseFrame fh promiseID (take (length p - unat padLength) p)))))"

definition typeFrameParser :: "FrameType \<Rightarrow> 'w frameParser" where
  "typeFrameParser t =
     (if t = FrameData then parseDataFrame
      else if t = FrameHeaders then parseHeadersFrame
      else if t = FramePriority then parsePriorityFrame
      else if t = FrameRSTStream then parseRSTStreamFrame
      else if t = FrameSettings then parseSettingsFrame
      else if t = FramePushPromise then parsePushPromise
      else if t = FramePing then parsePingFrame
      else if t = FrameGoAway then parseGoAwayFrame
      else if t = FrameWindowUpdate then parseWindowUpdateFrame
      else if t = FrameContinuation then parseContinuationFrame
      else parseUnknownFrame)"

section \<open>Accessors\<close>

fun StreamEnded :: "frame \<Rightarrow> bool" where
  "StreamEnded (DataFrame fh _) = Has (Flags fh) FlagDataEndStream"
| "StreamEnded (HeadersFrame fh _ _) = Has (Flags fh) FlagHeadersEndStream"
| "StreamEnded _ = False"

fun HeadersEnded :: "frame \<Rightarrow> bool" where
  "HeadersEnded (HeadersFrame fh _ _) = Has (Flags fh) FlagHeadersEndHeaders"
| "HeadersEnded (ContinuationFrame fh _) = Has (Flags fh) FlagContinuationEndHeaders"
| "HeadersEnded (PushPromiseFrame fh _ _) = Has (Flags fh) FlagPushPromiseEndHeaders"
| "HeadersEnded _ = False"

fun HeaderBlockFragment :: "frame \<Rightarrow> ('w frame_error, bytes) go" where
  "HeaderBlockFragment (HeadersFrame fh _ b) = checkValid fh b"
| "HeaderBlockFragment (ContinuationFrame fh b) = checkValid fh b"
| "HeaderBlockFragment (PushPromiseFrame fh _ b) = checkValid fh b"
| "HeaderBlockFragment _ = Panic"

fun HasPriority :: "frame \<Rightarrow> bool" where
  "HasPriority (HeadersFrame fh _ _) = Has (Flags fh) FlagHeadersPriority"
| "HasPriority _ = False"

fun IsAck :: "frame \<Rightarrow> bool" where
  "IsAck (SettingsFrame fh _) = Has (Flags fh) FlagSettingsAck"
| "IsAck (PingFrame fh _) = Has (Flags fh) FlagPingAck"
| "IsAck _ = False"

text \<open>\<open>Data\<close>, \<open>DebugData\<close> and \<open>Payload\<close> of the frames that have them.\<close>

fun frame_body :: "frame \<Rightarrow> ('w frame_error, bytes) go" where
  "frame_body (DataFrame fh d) = checkValid fh d"
| "frame_body (GoAwayFrame fh _ _ d) = checkValid fh d"
| "frame_body (UnknownFrame fh p) = checkValid fh p"
| "frame_body _ = Panic"

section \<open>The framer\<close>

record Framer =
  lastFrame :: "frame option"
  errDetail :: "reason option"
  lastHeaderStream :: u32
  maxReadSize :: u32
  wbuf :: bytes
  AllowIllegalWrites :: bool
  AllowIllegalReads :: bool
  MaxHeaderListSize :: u32

definition maxFrameSize :: u32 where
  "maxFrameSize = 0xffffff"

definition minMaxFrameSize :: u32 where
  "minMaxFrameSize = 0x4000"

definition SetMaxReadFrameSize :: "Framer \<Rightarrow> u32 \<Rightarrow> Framer" where
  "SetMaxReadFrameSize fr v = fr\<lparr>maxReadSize := (if v > maxFrameSize then maxFrameSize else v)\<rparr>"

definition NewFramer :: Framer where
  "NewFramer =
     SetMaxReadFrameSize
       \<lparr>lastFrame = None, errDetail = None, lastHeaderStream = 0, maxReadSize = 0, wbuf = [],
        AllowIllegalWrites = False, AllowIllegalReads = False, MaxHeaderListSize = 0\<rparr> maxFrameSize"

definition maxHeaderListSize :: "Framer \<Rightarrow> u32" where
  "maxHeaderListSize fr = (if MaxHeaderListSize fr = 0 then 0x1000000 else MaxHeaderListSize fr)"

definition ErrorDetail :: "Framer \<Rightarrow> reason option" where
  "ErrorDetail fr = errDetail fr"

fun terminalReadFrameError :: "'w frame_error option \<Rightarrow> bool" where
  "terminalReadFrameError (Some (StreamError _ _ _)) = False"
| "terminalReadFrameError err = (err \<noteq> None)"

subsection \<open>Writing\<close>

definition startWrite :: "Framer \<Rightarrow> FrameType \<Rightarrow> Flags \<Rightarrow> u32 \<Rightarrow> Framer" where
  "startWrite f ftype flags streamID = f\<lparr>wbuf := [0, 0, 0, ftype, flags] @ put32 streamID\<rparr>"

definition endWrite :: "'w writer \<Rightarrow> Framer \<Rightarrow> Framer \<times> 'w frame_error option" where
  "endWrite w f =
     (let len = length (wbuf f) - frameHeaderLen
      in if len \<ge> 2 ^ 24 then (f, Some ErrFrameTooLarge)
         else let f = f\<lparr>wbuf := put24 len @ drop 3 (wbuf f)\<rparr>
              in (f, map_option IOError (write_all w (wbuf f))))"

definition writeByte :: "Framer \<Rightarrow> byte \<Rightarrow> Framer" where
  "writeByte f v = f\<lparr>wbuf := wbuf f @ [v]\<rparr>"

definition writeBytes :: "Framer \<Rightarrow> bytes \<Rightarrow> Framer" where
  "writeBytes f v = f\<lparr>wbuf := wbuf f @ v\<rparr>"

definition writeUint16 :: "Framer \<Rightarrow> u16 \<Rightarrow> Framer" where
  "writeUint16 f v = f\<lparr>wbuf := wbuf f @ put16 v\<rparr>"

definition writeUint32 :: "Framer \<Rightarrow> u32 \<Rightarrow> Framer" where
  "writeUint32 f v = f\<lparr>wbuf := wbuf f @ put32 v\<rparr>"

lemmas write_defs = writeByte_def writeBytes_def writeUint16_def writeUint32_def

definition validStreamIDOrZero :: "u32 \<Rightarrow> bool" where
  "validStreamIDOrZero streamID \<longleftrightarrow> streamID AND 0x80000000 = 0"

definition validStreamID :: "u32 \<Rightarrow> bool" where
  "validStreamID streamID \<longleftrightarrow> streamID \<noteq> 0 \<and> streamID AND 0x80000000 = 0"

type_synonym 'w write_result = "Framer \<times> 'w frame_error option"

text \<open>A nil \<open>pad\<close> is \<open>None\<close>.\<close>

definition WriteDataPadded :: "'w writer \<Rightarrow> Framer \<Rightarrow> u32 \<Rightarrow> bool \<Rightarrow> bytes \<Rightarrow> bytes option \<Rightarrow> 'w write_result" where
  "WriteDataPadded w f streamID endStream data pad =
     (let padding = (case pad of None \<Rightarrow> [] | Some p \<Rightarrow> p)
      in if \<not> validStreamID streamID \<and> \<not> AllowIllegalWrites f then (f, Some errStreamID)
         else if length padding > 255 then (f, Some errPadLength)
         else if \<not> AllowIllegalWrites f \<and> (\<exists>b \<in> set padding. b \<noteq> 0) then (f, Some errPadBytes)
         else let flags = (if endStream then FlagDataEndStream else 0) OR (if pad \<noteq> None then FlagDataPadded else 0);
                  f = startWrite f FrameData flags streamID;
                  f = (if pad \<noteq> None then f\<lparr>wbuf := wbuf f @ [word_of_nat (length padding)]\<rparr> else f)
              in endWrite w (f\<lparr>wbuf := wbuf f @ data @ padding\<rparr>))"

definition WriteData :: "'w writer \<Rightarrow> Framer \<Rightarrow> u32 \<Rightarrow> bool \<Rightarrow> bytes \<Rightarrow> 'w write_result" where
  "WriteData w f streamID endStream data = WriteDataPadded w f streamID endStream data None"

definition WriteSettings :: "'w writer \<Rightarrow> Framer \<Rightarrow> Setting list \<Rightarrow> 'w write_result" where
  "WriteSettings w f settings =
     endWrite w (foldl (\<lambda>f s. writeUint32 (writeUint16 f (ID s)) (Val s)) (startWrite f FrameSettings 0 0) settings)"

definition WriteSettingsAck :: "'w writer \<Rightarrow> Framer \<Rightarrow> 'w write_result" where
  "WriteSettingsAck w f = endWrite w (startWrite f FrameSettings FlagSettingsAck 0)"

definition WritePing :: "'w writer \<Rightarrow> Framer \<Rightarrow> bool \<Rightarrow> bytes \<Rightarrow> 'w write_result" where
  "WritePing w f ack data =
     endWrite w (writeBytes (startWrite f FramePing (if ack then FlagPingAck else 0) 0) data)"

definition WriteGoAway :: "'w writer \<Rightarrow> Framer \<Rightarrow> u32 \<Rightarrow> ErrCode \<Rightarrow> bytes \<Rightarrow> 'w write_result" where
  "WriteGoAway w f maxStreamID code debugData =
     (let f = startWrite f FrameGoAway 0 0;
          f = writeUint32 f (maxStreamID AND 0x7fffffff);
          f = writeUint32 f code;
          f = writeBytes f debugData
      in endWrite w f)"

definition WriteWindowUpdate :: "'w writer \<Rightarrow> Framer \<Rightarrow> u32 \<Rightarrow> u32 \<Rightarrow> 'w write_result" where
  "WriteWindowUpdate w f streamID incr =
     (if (incr < 1 \<or> incr > 2147483647) \<and> \<not> AllowIllegalWrites f then (f, Some errWindowIncrement)
      else endWrite w (writeUint32 (startWrite f FrameWindowUpdate 0 streamID) incr))"

record HeadersFrameParam =
  hp_StreamID :: u32
  hp_BlockFragment :: bytes
  hp_EndStream :: bool
  hp_EndHeaders :: bool
  hp_PadLength :: u8
  hp_Priority :: PriorityParam

definition priority_word :: "PriorityParam \<Rightarrow> u32" where
  "priority_word p = (if Exclusive p then StreamDep p OR 0x80000000 else StreamDep p)"

definition WriteHeaders :: "'w writer \<Rightarrow> Framer \<Rightarrow> HeadersFrameParam \<Rightarrow> 'w write_result" where
  "WriteHeaders w f p =
     (if \<not> validStreamID (hp_StreamID p) \<and> \<not> AllowIllegalWrites f then (f, Some errStreamID)
      else let flags = (if hp_PadLength p \<noteq> 0 then FlagHeadersPadded else 0) OR
                       (if hp_EndStream p then FlagHeadersEndStream else 0) OR
                       (if hp_EndHeaders p then FlagHeadersEndHeaders else 0) OR
                       (if \<not> IsZero (hp_Priority p) then FlagHeadersPriority else 0);
               f = startWrite f FrameHeaders flags (hp_StreamID p);
               f = (if hp_PadLength p \<noteq> 0 then writeByte f (hp_PadLength p) else f)
           in if \<not> IsZero (hp_Priority p) \<and> \<not> validStreamIDOrZero (StreamDep (hp_Priority p)) \<and>
                 \<not> AllowIllegalWrites f
              then (f, Some errDepStreamID)
              else let f = (if \<not> IsZero (hp_Priority p)
                            then writeByte (writeUint32 f (priority_word (hp_Priority p))) (Weight (hp_Priority p))
                            else f)
                   in endWrite w (f\<lparr>wbuf := wbuf f @ hp_BlockFragment p @ replicate (unat (hp_PadLength p)) 0\<rparr>))"

definition WritePriority :: "'w writer \<Rightarrow> Framer \<Rightarrow> u32 \<Rightarrow> PriorityParam \<Rightarrow> 'w write_result" where
  "WritePriority w f streamID p =
     (if \<not> validStreamID streamID \<and> \<not> AllowIllegalWrites f then (f, Some errStreamID)
      else if \<not> validStreamIDOrZero (StreamDep p) then (f, Some errDepStreamID)
      else endWrite w (writeByte (writeUint32 (startWrite f FramePriority 0 streamID) (priority_word p)) (Weight p)))"

definition WriteRSTStream :: "'w writer \<Rightarrow> Framer \<Rightarrow> u32 \<Rightarrow> ErrCode \<Rightarrow> 'w write_result" where
  "WriteRSTStream w f streamID code =
     (if \<not> validStreamID streamID \<and> \<not> AllowIllegalWrites f then (f, Some errStreamID)
      else endWrite w (writeUint32 (startWrite f FrameRSTStream 0 streamID) code))"

definition WriteContinuation :: "'w writer \<Rightarrow> Framer \<Rightarrow> u32 \<Rightarrow> bool \<Rightarrow> bytes \<Rightarrow> 'w write_result" where
  "WriteContinuation w f streamID endHeaders headerBlockFragment =
     (if \<not> validStreamID streamID \<and> \<not> AllowIllegalWrites f then (f, Some errStreamID)
      else let f = startWrite f FrameContinuation (if endHeaders then FlagContinuationEndHeaders else 0) streamID
           in endWrite w (f\<lparr>wbuf := wbuf f @ headerBlockFragment\<rparr>))"

record PushPromiseParam =
  pp_StreamID :: u32
  pp_PromiseID :: u32
  pp_BlockFragment :: bytes
  pp_EndHeaders :: bool
  pp_PadLength :: u8

definition WritePushPromise :: "'w writer \<Rightarrow> Framer \<Rightarrow> PushPromiseParam \<Rightarrow> 'w write_result" where
  "WritePushPromise w f p =
     (if \<not> validStreamID (pp_StreamID p) \<and> \<not> AllowIllegalWrites f then (f, Some errStreamID)
      else let flags = (if pp_PadLength p \<noteq> 0 then FlagPushPromisePadded else 0) OR
                       (if pp_EndHeaders p then FlagPushPromiseEndHeaders else 0);
               f = startWrite f FramePushPromise flags (pp_StreamID p);
               f = (if pp_PadLength p \<noteq> 0 then writeByte f (pp_PadLength p) else f)
           in if \<not> validStreamID (pp_PromiseID p) \<and> \<not> AllowIllegalWrites f then (f, Some errStreamID)
              else let f = writeUint32 f (pp_PromiseID p)
                   in endWrite w (f\<lparr>wbuf := wbuf f @ pp_BlockFragment p @ replicate (unat (pp_PadLength p)) 0\<rparr>))"

definition WriteRawFrame :: "'w writer \<Rightarrow> Framer \<Rightarrow> FrameType \<Rightarrow> Flags \<Rightarrow> u32 \<Rightarrow> bytes \<Rightarrow> 'w write_result" where
  "WriteRawFrame w f t flags streamID payload = endWrite w (writeBytes (startWrite f t flags streamID) payload)"

subsection \<open>Reading\<close>

text \<open>\<open>(*Framer).connError\<close>: the reason is stashed away.\<close>

definition Framer_connError :: "Framer \<Rightarrow> ErrCode \<Rightarrow> reason \<Rightarrow> Framer \<times> 'w frame_error" where
  "Framer_connError fr code r = (fr\<lparr>errDetail := Some r\<rparr>, ConnectionError code)"

definition checkFrameOrder :: "Framer \<Rightarrow> frame \<Rightarrow> Framer \<times> 'w frame_error option" where
  "checkFrameOrder fr f =
     (let last_frame = lastFrame fr;
          fr = fr\<lparr>lastFrame := Some f\<rparr>;
          fh = Header f;
          fail = (\<lambda>r. map_prod id Some (Framer_connError fr ErrCodeProtocol r))
      in if AllowIllegalReads fr then (fr, None)
         else if lastHeaderStream fr \<noteq> 0 \<and> Type fh \<noteq> FrameContinuation
         then fail (ExpectedContinuation (Type fh) (StreamID fh)
                      (case last_frame of Some l \<Rightarrow> Type (Header l) | None \<Rightarrow> 0) (lastHeaderStream fr))
         else if lastHeaderStream fr \<noteq> 0 \<and> StreamID fh \<noteq> lastHeaderStream fr
         then fail (ContinuationStream (StreamID fh) (lastHeaderStream fr))
         else if lastHeaderStream fr = 0 \<and> Type fh = FrameContinuation
         then fail (UnexpectedContinuation (StreamID fh))
         else if Type fh = FrameHeaders \<or> Type fh = FrameContinuation
         then (fr\<lparr>lastHeaderStream := (if Has (Flags fh) FlagHeadersEndHeaders then 0 else StreamID fh)\<rparr>, None)
         else (fr, None))"

text \<open>
  \<open>ReadFrame\<close> without \<open>ReadMetaHeaders\<close>: the framer, the rest of the reader, and the frame or error.
\<close>

definition ReadFrame :: "Framer \<Rightarrow> bytes \<Rightarrow> ('w frame_error, Framer \<times> bytes \<times> ('w frame_error + frame)) go" where
  "ReadFrame fr r =
     (let fr = fr\<lparr>errDetail := None, lastFrame := map_option (map_header invalidate) (lastFrame fr)\<rparr>
      in case readFrameHeader r of
           (r, Inl e) \<Rightarrow> Ret (fr, r, Inl e)
         | (r, Inr fh) \<Rightarrow>
             if Length fh > maxReadSize fr then Ret (fr, r, Inl ErrFrameTooLarge)
             else case ReadFull (unat (Length fh)) r of
               (r, Inl e) \<Rightarrow> Ret (fr, r, Inl e)
             | (r, Inr payload) \<Rightarrow>
                 (case typeFrameParser (Type fh) fh payload of
                    Panic \<Rightarrow> Panic
                  | Fail (connError code reason) \<Rightarrow>
                      (case Framer_connError fr code reason of (fr, e) \<Rightarrow> Ret (fr, r, Inl e))
                  | Fail e \<Rightarrow> Ret (fr, r, Inl e)
                  | Ret f \<Rightarrow>
                      (case checkFrameOrder fr f of
                         (fr, Some e) \<Rightarrow> Ret (fr, r, Inl e)
                       | (fr, None) \<Rightarrow> Ret (fr, r, Inr f))))"

section \<open>Settings\<close>

definition Setting_Valid :: "Setting \<Rightarrow> 'w frame_error option" where
  "Setting_Valid s =
     (if ID s = SettingEnablePush
      then if Val s \<noteq> 1 \<and> Val s \<noteq> 0 then Some (ConnectionError ErrCodeProtocol) else None
      else if ID s = SettingInitialWindowSize
      then if Val s > 0x7fffffff then Some (ConnectionError ErrCodeFlowControl) else None
      else if ID s = SettingMaxFrameSize
      then if Val s < 16384 \<or> Val s > 0xffffff then Some (ConnectionError ErrCodeProtocol) else None
      else None)"

definition settingName :: "(u16 \<times> string) list" where
  "settingName =
     [(SettingHeaderTableSize, ''HEADER_TABLE_SIZE''),
      (SettingEnablePush, ''ENABLE_PUSH''),
      (SettingMaxConcurrentStreams, ''MAX_CONCURRENT_STREAMS''),
      (SettingInitialWindowSize, ''INITIAL_WINDOW_SIZE''),
      (SettingMaxFrameSize, ''MAX_FRAME_SIZE''),
      (SettingMaxHeaderListSize, ''MAX_HEADER_LIST_SIZE'')]"

definition SettingID_String :: "u16 \<Rightarrow> string" where
  "SettingID_String s =
     (case map_of settingName s of
        Some v \<Rightarrow> v
      | None \<Rightarrow> ''UNKNOWN_SETTING_'' @ decimal (unat s))"

definition Setting_String :: "Setting \<Rightarrow> string" where
  "Setting_String s = ''['' @ SettingID_String (ID s) @ '' = '' @ decimal (unat (Val s)) @ '']''"

end
