(* ===== verification/Http2_Read.thy ===== *)
theory Http2_Read
  imports Http2_Frame "HOL-Library.Sublist"
begin

text \<open>
  What \<open>ReadFrame\<close> promises on any input: it never panics and the frames it returns are well
  formed; and which sequences of frames the order check lets through.
\<close>

section \<open>Well-formed frames\<close>

fun frame_wf :: "frame \<Rightarrow> bool" where
  "frame_wf (DataFrame fh d) \<longleftrightarrow> Type fh = FrameData \<and> StreamID fh \<noteq> 0 \<and> length d \<le> unat (Length fh)"
| "frame_wf (HeadersFrame fh p b) \<longleftrightarrow> Type fh = FrameHeaders \<and> StreamID fh \<noteq> 0 \<and> b \<noteq> [] \<and>
     length b \<le> unat (Length fh) \<and> \<not> bit (StreamDep p) 31"
| "frame_wf (PriorityFrame fh p) \<longleftrightarrow> Type fh = FramePriority \<and> StreamID fh \<noteq> 0 \<and> Length fh = 5 \<and> \<not> bit (StreamDep p) 31"
| "frame_wf (RSTStreamFrame fh c) \<longleftrightarrow> Type fh = FrameRSTStream \<and> StreamID fh \<noteq> 0 \<and> Length fh = 4"
| "frame_wf (SettingsFrame fh p) \<longleftrightarrow> Type fh = FrameSettings \<and> StreamID fh = 0 \<and> length p = unat (Length fh) \<and>
     6 dvd length p \<and> (Has (Flags fh) FlagSettingsAck \<longrightarrow> p = [])"
| "frame_wf (PushPromiseFrame fh i b) \<longleftrightarrow> Type fh = FramePushPromise \<and> StreamID fh \<noteq> 0 \<and> \<not> bit i 31 \<and>
     length b \<le> unat (Length fh)"
| "frame_wf (PingFrame fh d) \<longleftrightarrow> Type fh = FramePing \<and> StreamID fh = 0 \<and> length d = 8"
| "frame_wf (GoAwayFrame fh i c d) \<longleftrightarrow> Type fh = FrameGoAway \<and> StreamID fh = 0 \<and> \<not> bit i 31 \<and>
     length d + 8 = unat (Length fh)"
| "frame_wf (WindowUpdateFrame fh n) \<longleftrightarrow> Type fh = FrameWindowUpdate \<and> n \<noteq> 0 \<and> \<not> bit n 31"
| "frame_wf (ContinuationFrame fh b) \<longleftrightarrow> Type fh = FrameContinuation \<and> StreamID fh \<noteq> 0 \<and> length b = unat (Length fh)"
| "frame_wf (UnknownFrame fh p) \<longleftrightarrow> 9 < Type fh \<and> length p = unat (Length fh)"

lemma bit_mask_31 [simp]: "\<not> bit (v AND 0x7fffffff :: u32) 31"
proof -
  have "v AND 0x7fffffff = take_bit 31 v" by (simp add: take_bit_eq_mask mask_eq_exp_minus_1)
  then show ?thesis by (simp add: bit_take_bit_iff)
qed

lemma readByte_Ret: "readByte p = Ret (r, b) \<longleftrightarrow> p = b # r"
  by (auto simp: readByte_def split: list.splits)

lemma readUint32_Ret: "readUint32 p = Ret (r, v) \<Longrightarrow> length p = length r + 4"
  by (auto simp: readUint32_def split: if_splits)

lemma no_panic [simp]: "readByte p \<noteq> Panic" "readUint32 p \<noteq> Panic" "readPriority fh p \<noteq> Panic"
proof -
  show r: "readByte p \<noteq> Panic" "readUint32 p \<noteq> Panic" for p
    by (auto simp: readByte_def readUint32_def split: list.splits)
  then show "readPriority fh p \<noteq> Panic"
    by (auto simp: readPriority_def go_bind_eq_Panic Let_def)
qed

lemma readPriority_Ret: "readPriority fh p = Ret (r, pr) \<Longrightarrow> length r \<le> length p \<and> \<not> bit (StreamDep pr) 31"
  by (auto simp: readPriority_def go_bind_eq_Ret readByte_Ret zero_priority_def Let_def split: if_splits dest!: readUint32_Ret)

lemma Value_loop_no_panic: "6 dvd length p \<Longrightarrow> Value_loop p s \<noteq> Panic"
  by (induction p s rule: Value_loop.induct) (auto simp: dvd_def, presburger+)

lemmas parser_defs = parseDataFrame_def parseHeadersFrame_def parsePriorityFrame_def parseRSTStreamFrame_def
  parseSettingsFrame_def parsePushPromise_def parsePingFrame_def parseGoAwayFrame_def
  parseWindowUpdateFrame_def parseContinuationFrame_def parseUnknownFrame_def

lemma unat_eq_u32: "unat (x :: u32) = unat y \<longleftrightarrow> x = y"
  by (simp add: word_unat_eq_iff)

lemma Length_eq: "unat (x :: u32) = 5 \<Longrightarrow> x = 5" "unat (x :: u32) = 4 \<Longrightarrow> x = 4"
  by (simp_all flip: unat_eq_u32)

lemma parseData_wf: "parseDataFrame fh p = Ret f \<Longrightarrow> length p = unat (Length fh) \<Longrightarrow> Type fh = FrameData \<Longrightarrow>
    frame_wf f \<and> Header f = fh"
  by (auto simp: parseDataFrame_def go_bind_eq_Ret readByte_Ret split: if_splits)

lemma pad_cond: "int m - int k \<le> 0 \<longleftrightarrow> m \<le> k"
  by simp

lemma parseHeaders_wf: "parseHeadersFrame fh p = Ret f \<Longrightarrow> length p = unat (Length fh) \<Longrightarrow> Type fh = FrameHeaders \<Longrightarrow>
    frame_wf f \<and> Header f = fh"
  unfolding parseHeadersFrame_def pad_cond
  by (auto simp: go_bind_eq_Ret readByte_Ret split: if_splits dest!: readPriority_Ret)

lemma parsePriority_wf: "parsePriorityFrame fh p = Ret f \<Longrightarrow> length p = unat (Length fh) \<Longrightarrow> Type fh = FramePriority \<Longrightarrow>
    frame_wf f \<and> Header f = fh"
  by (auto simp: parsePriorityFrame_def Let_def Length_eq split: if_splits)

lemma parseRSTStream_wf: "parseRSTStreamFrame fh p = Ret f \<Longrightarrow> length p = unat (Length fh) \<Longrightarrow> Type fh = FrameRSTStream \<Longrightarrow>
    frame_wf f \<and> Header f = fh"
  by (auto simp: parseRSTStreamFrame_def Length_eq split: if_splits)

lemma parseSettings_wf: "parseSettingsFrame fh p = Ret f \<Longrightarrow> length p = unat (Length fh) \<Longrightarrow> Type fh = FrameSettings \<Longrightarrow>
    frame_wf f \<and> Header f = fh"
  unfolding parseSettingsFrame_def go_bind_eq_Ret
  by (cases "StreamID fh = 0"; cases "Length fh = 0"; cases "Has (Flags fh) FlagSettingsAck")
    (auto simp: go_bind_eq_Ret word_neq_0_conv [symmetric] word_gt_0 mod_eq_0_iff_dvd split: if_splits option.split_asm)

lemma parsePushPromise_wf: "parsePushPromise fh p = Ret f \<Longrightarrow> length p = unat (Length fh) \<Longrightarrow> Type fh = FramePushPromise \<Longrightarrow>
    frame_wf f \<and> Header f = fh"
  by (auto simp: parsePushPromise_def go_bind_eq_Ret readByte_Ret Let_def split: if_splits dest!: readUint32_Ret)

lemma parseOther_wf:
  "parsePingFrame fh p = Ret f \<Longrightarrow> Type fh = FramePing \<Longrightarrow> frame_wf f \<and> Header f = fh"
  "parseGoAwayFrame fh p = Ret f \<Longrightarrow> length p = unat (Length fh) \<Longrightarrow> Type fh = FrameGoAway \<Longrightarrow>
     frame_wf f \<and> Header f = fh"
  "parseWindowUpdateFrame fh p = Ret f \<Longrightarrow> Type fh = FrameWindowUpdate \<Longrightarrow> frame_wf f \<and> Header f = fh"
  "parseContinuationFrame fh p = Ret f \<Longrightarrow> length p = unat (Length fh) \<Longrightarrow> Type fh = FrameContinuation \<Longrightarrow>
     frame_wf f \<and> Header f = fh"
  "parseUnknownFrame fh p = Ret f \<Longrightarrow> length p = unat (Length fh) \<Longrightarrow> 9 < Type fh \<Longrightarrow> frame_wf f \<and> Header f = fh"
  by (auto simp: parser_defs Let_def split: if_splits)

lemma u8_above_9: "t \<noteq> 0 \<Longrightarrow> t \<noteq> 1 \<Longrightarrow> t \<noteq> 2 \<Longrightarrow> t \<noteq> 3 \<Longrightarrow> t \<noteq> 4 \<Longrightarrow> t \<noteq> 5 \<Longrightarrow> t \<noteq> 6 \<Longrightarrow> t \<noteq> 7 \<Longrightarrow>
    t \<noteq> 8 \<Longrightarrow> t \<noteq> 9 \<Longrightarrow> (9 :: u8) < t"
  by (auto simp: word_less_nat_alt word_unat_eq_iff)

lemma typeFrameParser_wf:
  assumes "typeFrameParser (Type fh) fh p = Ret f" "length p = unat (Length fh)"
  shows "frame_wf f \<and> Header f = fh"
proof -
  have "9 < Type fh" if "Type fh \<notin> {FrameData, FrameHeaders, FramePriority, FrameRSTStream, FrameSettings,
      FramePushPromise, FramePing, FrameGoAway, FrameWindowUpdate, FrameContinuation}"
    by (rule u8_above_9; use that in \<open>simp add: frame_types\<close>)
  with assms show ?thesis
    unfolding typeFrameParser_def
    by (simp split: if_splits add: parseData_wf parseHeaders_wf parsePriority_wf parseRSTStream_wf
          parseSettings_wf parsePushPromise_wf parseOther_wf)
qed

lemma parser_no_panic:
  "parseDataFrame fh p \<noteq> Panic" "parseHeadersFrame fh p \<noteq> Panic" "parsePriorityFrame fh p \<noteq> Panic"
  "parseRSTStreamFrame fh p \<noteq> Panic" "parsePushPromise fh p \<noteq> Panic" "parsePingFrame fh p \<noteq> Panic"
  "parseGoAwayFrame fh p \<noteq> Panic" "parseWindowUpdateFrame fh p \<noteq> Panic"
  "parseContinuationFrame fh p \<noteq> Panic" "parseUnknownFrame fh p \<noteq> Panic"
           apply (auto simp: parseDataFrame_def go_bind_eq_Panic split: if_splits)[]
          apply (auto simp: parseHeadersFrame_def go_bind_eq_Panic split: if_splits)[]
         apply (simp add: parsePriorityFrame_def Let_def)
        apply (simp add: parseRSTStreamFrame_def)
       apply (auto simp: parsePushPromise_def go_bind_eq_Panic Let_def split: if_splits)[]
      apply (simp_all add: parser_defs Let_def)
  done

lemma parseSettings_no_panic: "valid fh \<Longrightarrow> parseSettingsFrame fh p \<noteq> Panic"
  by (auto simp: parseSettingsFrame_def go_bind_eq_Panic settings_Value_def checkValid_def
        Value_loop_no_panic mod_eq_0_iff_dvd split: option.split_asm if_splits)

lemma typeFrameParser_no_panic: "valid fh \<Longrightarrow> typeFrameParser t fh p \<noteq> Panic"
  by (simp add: typeFrameParser_def parser_no_panic parseSettings_no_panic)

lemma ReadFull_Inr: "ReadFull n r = (r', Inr b) \<Longrightarrow> r = b @ r' \<and> length b = n"
  by (auto simp: ReadFull_def split: if_splits)

lemma ReadFull_suffix: "ReadFull n r = (r', x) \<Longrightarrow> suffix r' r"
  by (auto simp: ReadFull_def suffix_drop split: if_splits)

lemma readFrameHeader_Inr:
  "readFrameHeader r = (r', Inr fh) \<Longrightarrow> length r = length r' + 9 \<and> valid fh \<and> \<not> bit (StreamID fh) 31"
  by (auto simp: readFrameHeader_def frameHeaderLen_def header_of_def
        split: prod.splits sum.splits dest!: ReadFull_Inr)

lemma readFrameHeader_suffix: "readFrameHeader r = (r', x) \<Longrightarrow> suffix r' r"
  by (auto simp: readFrameHeader_def split: prod.splits sum.splits dest!: ReadFull_suffix)

text \<open>What the order check leaves of the framer.\<close>

lemma checkFrameOrder_keeps:
  "checkFrameOrder fr f = (fr', x) \<Longrightarrow> maxReadSize fr' = maxReadSize fr \<and> lastFrame fr' = Some f \<and>
     AllowIllegalReads fr' = AllowIllegalReads fr"
  by (auto simp: checkFrameOrder_def Framer_connError_def Let_def split: if_splits)

definition read_ok :: "Framer \<Rightarrow> bytes \<Rightarrow> Framer \<times> bytes \<times> ('w frame_error + frame) \<Rightarrow> bool" where
  "read_ok fr r = (\<lambda>(fr', r', x). suffix r' r \<and> maxReadSize fr' = maxReadSize fr \<and>
     (case x of
        Inl e \<Rightarrow> (\<forall>c why. e \<noteq> connError c why)
      | Inr f \<Rightarrow> frame_wf f \<and> valid (Header f) \<and> \<not> bit (StreamID (Header f)) 31 \<and> lastFrame fr' = Some f \<and>
          Length (Header f) \<le> maxReadSize fr \<and> length r = length r' + 9 + unat (Length (Header f))))"

lemma ReadFrame_read_ok: "\<exists>y :: Framer \<times> bytes \<times> ('w frame_error + frame). ReadFrame fr r = Ret y \<and> read_ok fr r y"
proof -
  obtain r1 and h :: "'w frame_error + FrameHeader" where h: "readFrameHeader r = (r1, h)" by fastforce
  have s1: "suffix r1 r" by (rule readFrameHeader_suffix [OF h])
  have ne1: "e \<noteq> connError c w" if "h = Inl e" for e c w
    using h that by (auto simp: readFrameHeader_def ReadFull_def split: if_splits)
  show ?thesis
  proof (cases h)
    case (Inl e)
    then show ?thesis using s1 ne1 h by (simp add: ReadFrame_def read_ok_def)
  next
    case (Inr fh)
    note h' = readFrameHeader_Inr [OF h [unfolded Inr]]
    obtain r2 and b :: "'w frame_error + bytes" where b: "ReadFull (unat (Length fh)) r1 = (r2, b)" by fastforce
    have s2: "suffix r2 r" using ReadFull_suffix [OF b] s1 by (rule suffix_order.trans)
    show ?thesis
    proof (cases "Length fh > maxReadSize fr")
      case True
      then show ?thesis using s1 h Inr by (simp add: ReadFrame_def read_ok_def)
    next
      case small: False
      show ?thesis
      proof (cases b)
        case (Inl e)
        have "e \<noteq> connError c w" for c w using b Inl by (auto simp: ReadFull_def split: if_splits)
        then show ?thesis using s2 h Inr small b Inl by (simp add: ReadFrame_def read_ok_def)
      next
        case payload: (Inr p)
        note p' = ReadFull_Inr [OF b [unfolded payload]]
        show ?thesis
        proof (cases "typeFrameParser (Type fh) fh p :: ('w frame_error, frame) go")
          case (Ret f)
          have wf: "frame_wf f \<and> Header f = fh" using typeFrameParser_wf [OF Ret] p' by simp
          let ?fr = "fr\<lparr>errDetail := None, lastFrame := map_option (map_header invalidate) (lastFrame fr)\<rparr>"
          obtain fr' and x :: "'w frame_error option" where o: "checkFrameOrder ?fr f = (fr', x)" by fastforce
          have "x \<noteq> Some (connError c w)" for c w
            using o by (auto simp: checkFrameOrder_def Framer_connError_def Let_def split: if_splits)
          then show ?thesis
            using s2 h Inr small b payload Ret o wf checkFrameOrder_keeps [OF o] h' p'
            by (cases x) (simp_all add: ReadFrame_def read_ok_def)
        next
          case (Fail e)
          then show ?thesis using s2 h Inr small b payload
            by (cases e) (simp_all add: ReadFrame_def read_ok_def Framer_connError_def)
        next
          case Panic
          then show ?thesis using typeFrameParser_no_panic h' by blast
        qed
      qed
    qed
  qed
qed


section \<open>The order of frames\<close>

text \<open>The order check along a sequence of frames: the framer it ends in, \<open>None\<close> when a frame is refused.\<close>

fun check_seq :: "Framer \<Rightarrow> frame list \<Rightarrow> Framer option" where
  "check_seq fr [] = Some fr"
| "check_seq fr (f # fs) =
     (case checkFrameOrder fr f :: Framer \<times> unit frame_error option of
        (fr, None) \<Rightarrow> check_seq fr fs
      | (_, Some _) \<Rightarrow> None)"

text \<open>
  Header blocks as RFC 7540, section 6.10 has them: a HEADERS frame, then CONTINUATION frames of the
  same stream and nothing else, up to the first of these frames that has END_HEADERS.
\<close>

abbreviation ends_headers :: "frame \<Rightarrow> bool" where
  "ends_headers f \<equiv> Has (Flags (Header f)) FlagHeadersEndHeaders"

inductive continues :: "u32 \<Rightarrow> bool \<Rightarrow> frame list \<Rightarrow> bool" where
  ended: "continues sid True []"
| continued: "Type (Header c) = FrameContinuation \<Longrightarrow> StreamID (Header c) = sid \<Longrightarrow>
    continues sid (ends_headers c) cs \<Longrightarrow> continues sid False (c # cs)"

inductive contiguous :: "frame list \<Rightarrow> bool" where
  none: "contiguous []"
| other: "Type (Header f) \<noteq> FrameHeaders \<Longrightarrow> Type (Header f) \<noteq> FrameContinuation \<Longrightarrow> contiguous fs \<Longrightarrow>
    contiguous (f # fs)"
| block: "Type (Header h) = FrameHeaders \<Longrightarrow> continues (StreamID (Header h)) (ends_headers h) cs \<Longrightarrow>
    contiguous fs \<Longrightarrow> contiguous (h # cs @ fs)"

inductive_simps continues_True [simp]: "continues sid True cs"
inductive_cases continues_FalseE: "continues sid False cs"

lemma FrameHeaders_neq [simp]: "FrameHeaders \<noteq> FrameContinuation" "FrameContinuation \<noteq> FrameHeaders"
  by (simp_all add: frame_types)

text \<open>The check reads and writes nothing of the framer but \<open>lastHeaderStream\<close>.\<close>

definition next_stream :: "frame \<Rightarrow> u32" where
  "next_stream f = (if ends_headers f then 0 else StreamID (Header f))"

lemma check_seq_Cons:
  assumes "\<not> AllowIllegalReads fr"
  shows "check_seq fr (f # fs) =
    (if lastHeaderStream fr = 0
     then if Type (Header f) = FrameContinuation then None
          else if Type (Header f) = FrameHeaders
          then check_seq (fr\<lparr>lastFrame := Some f, lastHeaderStream := next_stream f\<rparr>) fs
          else check_seq (fr\<lparr>lastFrame := Some f\<rparr>) fs
     else if Type (Header f) = FrameContinuation \<and> StreamID (Header f) = lastHeaderStream fr
     then check_seq (fr\<lparr>lastFrame := Some f, lastHeaderStream := next_stream f\<rparr>) fs
     else None)"
  using assms by (auto simp: checkFrameOrder_def Framer_connError_def Let_def next_stream_def)

definition accepted :: "Framer \<Rightarrow> frame list \<Rightarrow> bool" where
  "accepted fr fs \<longleftrightarrow> (\<exists>fr'. check_seq fr fs = Some fr' \<and> lastHeaderStream fr' = 0)"

lemma accepted_continues:
  assumes "continues sid e cs" "sid \<noteq> 0" "\<not> AllowIllegalReads fr"
    "lastHeaderStream fr = (if e then 0 else sid)"
    "\<And>fr. \<not> AllowIllegalReads fr \<Longrightarrow> lastHeaderStream fr = 0 \<Longrightarrow> accepted fr fs"
  shows "accepted fr (cs @ fs)"
  using assms
  by (induction arbitrary: fr rule: continues.induct)
     (auto simp: accepted_def check_seq_Cons next_stream_def simp del: check_seq.simps(2))

lemma contiguous_accepted:
  assumes "contiguous fs" "\<not> AllowIllegalReads fr" "lastHeaderStream fr = 0"
    "\<And>f. f \<in> set fs \<Longrightarrow> Type (Header f) = FrameHeaders \<Longrightarrow> StreamID (Header f) \<noteq> 0"
  shows "accepted fr fs"
  using assms
proof (induction arbitrary: fr rule: contiguous.induct)
  case none
  then show ?case by (simp add: accepted_def)
next
  case (other f fs)
  then show ?case by (simp add: accepted_def check_seq_Cons del: check_seq.simps(2))
next
  case (block h cs fs)
  have "accepted (fr\<lparr>lastFrame := Some h, lastHeaderStream := next_stream h\<rparr>) (cs @ fs)"
    by (rule accepted_continues [OF block.hyps(2)])
       (use block in \<open>simp_all add: next_stream_def\<close>)
  then show ?case using block.prems block.hyps(1)
    by (simp add: accepted_def check_seq_Cons del: check_seq.simps(2))
qed

lemma accepted_open_block:
  assumes "accepted fr fs" "\<not> AllowIllegalReads fr" "lastHeaderStream fr \<noteq> 0"
  shows "\<exists>cs fs' fr'. fs = cs @ fs' \<and> continues (lastHeaderStream fr) False cs \<and> accepted fr' fs' \<and>
    \<not> AllowIllegalReads fr' \<and> lastHeaderStream fr' = 0"
  using assms
proof (induction fs arbitrary: fr)
  case Nil
  then show ?case by (simp add: accepted_def)
next
  case (Cons c fs)
  let ?fr = "fr\<lparr>lastFrame := Some c, lastHeaderStream := next_stream c\<rparr>"
  have c: "Type (Header c) = FrameContinuation" "StreamID (Header c) = lastHeaderStream fr" and acc: "accepted ?fr fs"
    using Cons.prems by (auto simp: accepted_def check_seq_Cons simp del: check_seq.simps(2) split: if_splits)
  show ?case
  proof (cases "ends_headers c")
    case True
    then have "continues (lastHeaderStream fr) False [c]" using c by (simp add: continues.continued)
    then show ?thesis using acc Cons.prems True
      by (intro exI [of _ "[c]"] exI [of _ fs] exI [of _ ?fr]) (simp add: next_stream_def)
  next
    case False
    then obtain cs fs' fr' where "fs = cs @ fs'" "continues (lastHeaderStream fr) False cs" "accepted fr' fs'"
      "\<not> AllowIllegalReads fr'" "lastHeaderStream fr' = 0"
      using Cons.IH [OF acc] Cons.prems c by (auto simp: next_stream_def)
    then show ?thesis using c False
      by (intro exI [of _ "c # cs"] exI [of _ fs'] exI [of _ fr']) (simp add: continues.continued)
  qed
qed

lemma accepted_contiguous:
  assumes "accepted fr fs" "\<not> AllowIllegalReads fr" "lastHeaderStream fr = 0"
    "\<And>f. f \<in> set fs \<Longrightarrow> Type (Header f) = FrameHeaders \<Longrightarrow> StreamID (Header f) \<noteq> 0"
  shows "contiguous fs"
  using assms
proof (induction "length fs" arbitrary: fs fr rule: less_induct)
  case less
  show ?case
  proof (cases fs)
    case Nil
    then show ?thesis by (simp add: contiguous.none)
  next
    case (Cons f fs1)
    show ?thesis
    proof (cases "Type (Header f) = FrameHeaders")
      case False
      then have "Type (Header f) \<noteq> FrameContinuation" "accepted (fr\<lparr>lastFrame := Some f\<rparr>) fs1"
        using less.prems Cons by (auto simp: accepted_def check_seq_Cons simp del: check_seq.simps(2) split: if_splits)
      with False show ?thesis using less.hyps [of fs1 "fr\<lparr>lastFrame := Some f\<rparr>"] less.prems Cons
        by (auto intro: contiguous.other)
    next
      case True
      let ?fr = "fr\<lparr>lastFrame := Some f, lastHeaderStream := next_stream f\<rparr>"
      have acc: "accepted ?fr fs1" using less.prems Cons True
        by (simp add: accepted_def check_seq_Cons del: check_seq.simps(2))
      have sid: "StreamID (Header f) \<noteq> 0" using less.prems(4) Cons True by simp
      obtain cs fs' fr' where rest: "fs1 = cs @ fs'" "continues (StreamID (Header f)) (ends_headers f) cs"
        "accepted fr' fs'" "\<not> AllowIllegalReads fr'" "lastHeaderStream fr' = 0"
      proof (cases "ends_headers f")
        case e: True
        show thesis by (rule that [of "[]" fs1 ?fr]) (use acc less.prems e in \<open>simp_all add: next_stream_def\<close>)
      next
        case e: False
        then show thesis using that accepted_open_block [OF acc] less.prems sid by (auto simp: next_stream_def)
      qed
      have "contiguous fs'" using less.hyps [of fs' fr'] less.prems(4) rest Cons by simp
      then show ?thesis using contiguous.block [OF True rest(2)] rest(1) Cons by simp
    qed
  qed
qed

text \<open>C19: The order check of \<open>checkFrameOrder\<close> is exactly the grammar of header blocks. Take a framer
  between header blocks that does not allow illegal reads, and frames whose HEADERS frames have a
  non-zero stream (\<open>parseHeadersFrame\<close> refuses the others). The check lets the whole sequence
  through and ends between header blocks if and only if every HEADERS frame without END_HEADERS is
  followed at once by CONTINUATION frames of its stream up to one that has END_HEADERS, and no
  CONTINUATION frame stands elsewhere.
\<close>

theorem checkFrameOrder_grammar:
  assumes "\<not> AllowIllegalReads fr" "lastHeaderStream fr = 0"
    and "\<forall>f \<in> set fs. Type (Header f) = FrameHeaders \<longrightarrow> StreamID (Header f) \<noteq> 0"
  shows "(\<exists>fr'. check_seq fr fs = Some fr' \<and> lastHeaderStream fr' = 0) \<longleftrightarrow> contiguous fs"
  using assms contiguous_accepted [of fs fr] accepted_contiguous [of fr fs] unfolding accepted_def by blast

definition example_block :: "frame list" where
  "example_block =
     [HeadersFrame \<lparr>valid = True, Type = FrameHeaders, Flags = 0, Length = 1, StreamID = 3\<rparr> zero_priority [130],
      ContinuationFrame \<lparr>valid = True, Type = FrameContinuation, Flags = 4, Length = 1, StreamID = 3\<rparr> [132],
      PingFrame \<lparr>valid = True, Type = FramePing, Flags = 0, Length = 8, StreamID = 0\<rparr> (replicate 8 0)]"

theorem checkFrameOrder_grammar_witness:
  "\<not> AllowIllegalReads NewFramer \<and> lastHeaderStream NewFramer = 0 \<and> contiguous example_block"
proof -
  have c: "\<not> AllowIllegalReads NewFramer" "lastHeaderStream NewFramer = 0"
    by (simp_all add: NewFramer_def SetMaxReadFrameSize_def)
  have s: "\<forall>f \<in> set example_block. Type (Header f) = FrameHeaders \<longrightarrow> StreamID (Header f) \<noteq> 0"
    by (simp add: example_block_def frame_types)
  have "\<exists>fr'. check_seq NewFramer example_block = Some fr' \<and> lastHeaderStream fr' = 0"
    by (simp add: example_block_def NewFramer_def SetMaxReadFrameSize_def checkFrameOrder_def Framer_connError_def
          frame_types frame_flags Has_def)
  then show ?thesis using checkFrameOrder_grammar [OF c s] c by simp
qed

text \<open>C40: A header block that a PUSH_PROMISE frame opens cannot be continued. The check lets a PUSH_PROMISE
  frame through between header blocks, whatever its flags, but does not record its stream; the
  CONTINUATION frame that has to follow one without END_HEADERS is then refused as unexpected.
\<close>

theorem PushPromise_not_continued:
  assumes "\<not> AllowIllegalReads fr" "lastHeaderStream fr = 0"
    and "Type (Header f) = FramePushPromise" "Type (Header c) = FrameContinuation"
  shows "checkFrameOrder fr f = (fr\<lparr>lastFrame := Some f\<rparr>, None) \<and>
    checkFrameOrder (fr\<lparr>lastFrame := Some f\<rparr>) c =
      (fr\<lparr>lastFrame := Some c, errDetail := Some (UnexpectedContinuation (StreamID (Header c)))\<rparr>,
       Some (ConnectionError ErrCodeProtocol))"
  using assms by (simp add: checkFrameOrder_def Framer_connError_def Let_def frame_types)

definition example_push :: frame where
  "example_push = PushPromiseFrame \<lparr>valid = True, Type = FramePushPromise, Flags = 0, Length = 5, StreamID = 3\<rparr> 2 [130]"

definition example_continuation :: frame where
  "example_continuation =
     ContinuationFrame \<lparr>valid = True, Type = FrameContinuation, Flags = 4, Length = 1, StreamID = 3\<rparr> [132]"

theorem PushPromise_not_continued_witness:
  "\<not> HeadersEnded example_push \<and> StreamID (Header example_push) = StreamID (Header example_continuation) \<and>
   snd (checkFrameOrder (NewFramer\<lparr>lastFrame := Some example_push\<rparr>) example_continuation :: unit write_result) =
     Some (ConnectionError ErrCodeProtocol)"
proof -
  have "\<not> AllowIllegalReads NewFramer" "lastHeaderStream NewFramer = 0"
    by (simp_all add: NewFramer_def SetMaxReadFrameSize_def)
  moreover have "Type (Header example_push) = FramePushPromise" "Type (Header example_continuation) = FrameContinuation"
    by (simp_all add: example_push_def example_continuation_def)
  ultimately have "snd (checkFrameOrder (NewFramer\<lparr>lastFrame := Some example_push\<rparr>) example_continuation :: unit write_result) =
      Some (ConnectionError ErrCodeProtocol)"
    by (simp add: PushPromise_not_continued)
  then show ?thesis by (simp add: example_push_def example_continuation_def frame_flags Has_def)
qed

end
