(* ===== verification/Http2_Roundtrip.thy ===== *)
theory Http2_Roundtrip
  imports Http2_Frame
begin

text \<open>
  What the framer writes the framer reads: frame by frame for every frame type, and over whole
  sequences of frames, for which the header blocks have to be contiguous.
\<close>

section \<open>Masks and flags\<close>

lemma and_31: "v AND 0x7fffffff = take_bit 31 (v :: u32)"
  by (simp add: take_bit_eq_mask mask_eq_exp_minus_1)

lemma bit_31: "bit (0x80000000 :: u32) i \<longleftrightarrow> i = 31"
proof -
  have "(0x80000000 :: u32) = 2 ^ 31" by simp
  then show ?thesis by (simp only: bit_exp_iff) auto
qed

lemma bit_31_int [simp]: "bit (2147483648 :: int) i \<longleftrightarrow> i = 31"
proof -
  have "(2147483648 :: int) = 2 ^ 31" by simp
  then show ?thesis by (simp only: bit_exp_iff) auto
qed

lemma high_bit_zero: "(v :: u32) AND 0x80000000 = 0 \<longleftrightarrow> \<not> bit v 31"
proof
  show "\<not> bit v 31" if "v AND 0x80000000 = 0"
  proof
    assume "bit v 31"
    then have "bit (v AND 0x80000000) 31" by (simp add: bit_simps bit_31)
    with that show False by simp
  qed
  show "v AND 0x80000000 = 0" if "\<not> bit v 31"
    using that by (intro bit_word_eqI) (auto simp: bit_simps bit_31)
qed

lemma take_bit_31: "\<not> bit (v :: u32) 31 \<Longrightarrow> take_bit 31 v = v"
proof (rule bit_word_eqI)
  fix i assume "\<not> bit v 31" "i < LENGTH(32)"
  then show "bit (take_bit 31 v) i = bit v i" by (cases "i = 31") (auto simp: bit_simps)
qed

lemma valid_mask: "v AND 0x80000000 = (0 :: u32) \<Longrightarrow> v AND 0x7fffffff = v"
  by (simp add: and_31 high_bit_zero take_bit_31)

lemma priority_word_dep:
  assumes "validStreamIDOrZero (StreamDep p)"
  shows "priority_word p AND 0x7fffffff = StreamDep p" "priority_word p \<noteq> StreamDep p \<longleftrightarrow> Exclusive p"
proof -
  have b: "\<not> bit (StreamDep p) 31" using assms by (simp add: validStreamIDOrZero_def high_bit_zero)
  have "take_bit 31 (StreamDep p OR 0x80000000) = StreamDep p"
  proof (rule bit_word_eqI)
    fix i assume "i < LENGTH(32)"
    then show "bit (take_bit 31 (StreamDep p OR 0x80000000)) i = bit (StreamDep p) i"
      using b by (cases "i = 31") (auto simp: bit_simps bit_31)
  qed
  then show "priority_word p AND 0x7fffffff = StreamDep p"
    using take_bit_31 [OF b] by (simp add: priority_word_def and_31)
  have "bit (StreamDep p OR 0x80000000) 31" by (simp add: bit_simps bit_31)
  then show "priority_word p \<noteq> StreamDep p \<longleftrightarrow> Exclusive p"
    using b by (auto simp: priority_word_def)
qed

section \<open>Requests\<close>

text \<open>The write methods as one type, with the frame each is meant to put on the wire.\<close>

datatype request =
    ReqData u32 bool bytes "bytes option"
  | ReqHeaders HeadersFrameParam
  | ReqPriority u32 PriorityParam
  | ReqRSTStream u32 ErrCode
  | ReqSettings "Setting list"
  | ReqSettingsAck
  | ReqPushPromise PushPromiseParam
  | ReqPing bool bytes
  | ReqGoAway u32 ErrCode bytes
  | ReqWindowUpdate u32 u32
  | ReqContinuation u32 bool bytes

fun do_write :: "'w writer \<Rightarrow> Framer \<Rightarrow> request \<Rightarrow> 'w write_result" where
  "do_write w f (ReqData sid e d pad) = WriteDataPadded w f sid e d pad"
| "do_write w f (ReqHeaders p) = WriteHeaders w f p"
| "do_write w f (ReqPriority sid p) = WritePriority w f sid p"
| "do_write w f (ReqRSTStream sid c) = WriteRSTStream w f sid c"
| "do_write w f (ReqSettings ss) = WriteSettings w f ss"
| "do_write w f ReqSettingsAck = WriteSettingsAck w f"
| "do_write w f (ReqPushPromise p) = WritePushPromise w f p"
| "do_write w f (ReqPing a d) = WritePing w f a d"
| "do_write w f (ReqGoAway i c d) = WriteGoAway w f i c d"
| "do_write w f (ReqWindowUpdate sid n) = WriteWindowUpdate w f sid n"
| "do_write w f (ReqContinuation sid e b) = WriteContinuation w f sid e b"

definition setting_bytes :: "Setting \<Rightarrow> bytes" where
  "setting_bytes s = put16 (ID s) @ put32 (Val s)"

definition opt_bytes :: "bytes option \<Rightarrow> bytes" where
  "opt_bytes p = (case p of None \<Rightarrow> [] | Some p \<Rightarrow> p)"

fun req_type :: "request \<Rightarrow> FrameType" where
  "req_type (ReqData _ _ _ _) = FrameData"
| "req_type (ReqHeaders _) = FrameHeaders"
| "req_type (ReqPriority _ _) = FramePriority"
| "req_type (ReqRSTStream _ _) = FrameRSTStream"
| "req_type (ReqSettings _) = FrameSettings"
| "req_type ReqSettingsAck = FrameSettings"
| "req_type (ReqPushPromise _) = FramePushPromise"
| "req_type (ReqPing _ _) = FramePing"
| "req_type (ReqGoAway _ _ _) = FrameGoAway"
| "req_type (ReqWindowUpdate _ _) = FrameWindowUpdate"
| "req_type (ReqContinuation _ _ _) = FrameContinuation"

fun req_flags :: "request \<Rightarrow> Flags" where
  "req_flags (ReqData _ e _ pad) = (if e then 0x1 else 0) OR (if pad \<noteq> None then 0x8 else 0)"
| "req_flags (ReqHeaders p) = (if hp_PadLength p \<noteq> 0 then 0x8 else 0) OR (if hp_EndStream p then 0x1 else 0) OR
     (if hp_EndHeaders p then 0x4 else 0) OR (if \<not> IsZero (hp_Priority p) then 0x20 else 0)"
| "req_flags ReqSettingsAck = 0x1"
| "req_flags (ReqPushPromise p) = (if pp_PadLength p \<noteq> 0 then 0x8 else 0) OR (if pp_EndHeaders p then 0x4 else 0)"
| "req_flags (ReqPing a _) = (if a then 0x1 else 0)"
| "req_flags (ReqContinuation _ e _) = (if e then 0x4 else 0)"
| "req_flags _ = 0"

fun req_stream :: "request \<Rightarrow> u32" where
  "req_stream (ReqData sid _ _ _) = sid"
| "req_stream (ReqHeaders p) = hp_StreamID p"
| "req_stream (ReqPriority sid _) = sid"
| "req_stream (ReqRSTStream sid _) = sid"
| "req_stream (ReqPushPromise p) = pp_StreamID p"
| "req_stream (ReqWindowUpdate sid _) = sid"
| "req_stream (ReqContinuation sid _ _) = sid"
| "req_stream _ = 0"

fun req_payload :: "request \<Rightarrow> bytes" where
  "req_payload (ReqData _ _ d pad) =
     (if pad \<noteq> None then [word_of_nat (length (opt_bytes pad))] else []) @ d @ opt_bytes pad"
| "req_payload (ReqHeaders p) =
     (if hp_PadLength p \<noteq> 0 then [hp_PadLength p] else []) @
     (if \<not> IsZero (hp_Priority p) then put32 (priority_word (hp_Priority p)) @ [Weight (hp_Priority p)] else []) @
     hp_BlockFragment p @ replicate (unat (hp_PadLength p)) 0"
| "req_payload (ReqPriority _ p) = put32 (priority_word p) @ [Weight p]"
| "req_payload (ReqRSTStream _ c) = put32 c"
| "req_payload (ReqSettings ss) = concat (map setting_bytes ss)"
| "req_payload ReqSettingsAck = []"
| "req_payload (ReqPushPromise p) =
     (if pp_PadLength p \<noteq> 0 then [pp_PadLength p] else []) @ put32 (pp_PromiseID p) @
     pp_BlockFragment p @ replicate (unat (pp_PadLength p)) 0"
| "req_payload (ReqPing _ d) = d"
| "req_payload (ReqGoAway i c d) = put32 (i AND 0x7fffffff) @ put32 c @ d"
| "req_payload (ReqWindowUpdate _ n) = put32 n"
| "req_payload (ReqContinuation _ _ b) = b"

definition req_header :: "request \<Rightarrow> FrameHeader" where
  "req_header q = \<lparr>valid = True, Type = req_type q, Flags = req_flags q,
     Length = word_of_nat (length (req_payload q)), StreamID = req_stream q\<rparr>"

fun frame_of :: "request \<Rightarrow> frame" where
  "frame_of (ReqData sid e d pad) = DataFrame (req_header (ReqData sid e d pad)) d"
| "frame_of (ReqHeaders p) = HeadersFrame (req_header (ReqHeaders p)) (hp_Priority p) (hp_BlockFragment p)"
| "frame_of (ReqPriority sid p) = PriorityFrame (req_header (ReqPriority sid p)) p"
| "frame_of (ReqRSTStream sid c) = RSTStreamFrame (req_header (ReqRSTStream sid c)) c"
| "frame_of (ReqSettings ss) = SettingsFrame (req_header (ReqSettings ss)) (concat (map setting_bytes ss))"
| "frame_of ReqSettingsAck = SettingsFrame (req_header ReqSettingsAck) []"
| "frame_of (ReqPushPromise p) = PushPromiseFrame (req_header (ReqPushPromise p)) (pp_PromiseID p) (pp_BlockFragment p)"
| "frame_of (ReqPing a d) = PingFrame (req_header (ReqPing a d)) d"
| "frame_of (ReqGoAway i c d) = GoAwayFrame (req_header (ReqGoAway i c d)) (i AND 0x7fffffff) c d"
| "frame_of (ReqWindowUpdate sid n) = WindowUpdateFrame (req_header (ReqWindowUpdate sid n)) n"
| "frame_of (ReqContinuation sid e b) = ContinuationFrame (req_header (ReqContinuation sid e b)) b"

text \<open>
  What the write methods leave to their caller although the reader refuses it: an empty HEADERS
  fragment, the high bit of a WINDOW_UPDATE's stream, a window size beyond the maximum. (The type
  of a PING's data fixes its length.)
\<close>

fun readable :: "request \<Rightarrow> bool" where
  "readable (ReqHeaders p) \<longleftrightarrow> hp_BlockFragment p \<noteq> []"
| "readable (ReqSettings ss) \<longleftrightarrow> (\<forall>s \<in> set ss. ID s = SettingInitialWindowSize \<longrightarrow> Val s \<le> 0x7fffffff)"
| "readable (ReqPing _ d) \<longleftrightarrow> length d = 8"
| "readable (ReqWindowUpdate sid _) \<longleftrightarrow> validStreamIDOrZero sid"
| "readable _ \<longleftrightarrow> True"

text \<open>What a write method has checked when it succeeds.\<close>

fun checked :: "request \<Rightarrow> bool" where
  "checked (ReqData sid _ _ pad) \<longleftrightarrow> validStreamID sid \<and> length (opt_bytes pad) \<le> 255"
| "checked (ReqHeaders p) \<longleftrightarrow> validStreamID (hp_StreamID p) \<and>
     (IsZero (hp_Priority p) \<or> validStreamIDOrZero (StreamDep (hp_Priority p)))"
| "checked (ReqPriority sid p) \<longleftrightarrow> validStreamID sid \<and> validStreamIDOrZero (StreamDep p)"
| "checked (ReqRSTStream sid _) \<longleftrightarrow> validStreamID sid"
| "checked (ReqPushPromise p) \<longleftrightarrow> validStreamID (pp_StreamID p) \<and> validStreamID (pp_PromiseID p)"
| "checked (ReqWindowUpdate _ n) \<longleftrightarrow> n \<noteq> 0 \<and> n \<le> 0x7fffffff"
| "checked (ReqContinuation sid _ _) \<longleftrightarrow> validStreamID sid"
| "checked _ \<longleftrightarrow> True"

definition wire :: "request \<Rightarrow> bytes" where
  "wire q = put24 (length (req_payload q)) @ [req_type q, req_flags q] @ put32 (req_stream q) @ req_payload q"

lemma endWrite_wire:
  assumes "endWrite w f = (f', None)" "wbuf f = [0, 0, 0, t, fl] @ put32 sid @ p"
  shows "wbuf f' = put24 (length p) @ [t, fl] @ put32 sid @ p \<and> length p < 2 ^ 24"
  using assms by (auto simp: endWrite_def frameHeaderLen_def Let_def split: if_splits)

lemma settings_fold:
  "wbuf (foldl (\<lambda>f s. writeUint32 (writeUint16 f (ID s)) (Val s)) f ss) = wbuf f @ concat (map setting_bytes ss)"
  by (induction ss arbitrary: f) (simp_all add: write_defs setting_bytes_def)

lemma do_write_wire:
  assumes "do_write w f q = (f', None)" "\<not> AllowIllegalWrites f"
  shows "wbuf f' = wire q \<and> length (req_payload q) < 2 ^ 24 \<and> checked q"
proof (cases q)
  case (ReqData sid e d pad)
  with assms show ?thesis
    by (auto simp: WriteDataPadded_def startWrite_def Let_def wire_def opt_bytes_def frame_flags
        split: if_splits option.splits dest!: endWrite_wire)
next
  case (ReqHeaders p)
  with assms show ?thesis
    by (auto simp: WriteHeaders_def startWrite_def Let_def wire_def write_defs frame_flags
        split: if_splits dest!: endWrite_wire)
next
  case (ReqSettings ss)
  with assms show ?thesis
    by (auto simp: WriteSettings_def startWrite_def wire_def settings_fold dest!: endWrite_wire)
qed (use assms in \<open>auto simp: WritePriority_def WriteRSTStream_def WriteSettingsAck_def
    WritePushPromise_def WritePing_def WriteGoAway_def WriteWindowUpdate_def WriteContinuation_def
    startWrite_def Let_def wire_def write_defs frame_flags not_less split: if_splits dest!: endWrite_wire\<close>)

section \<open>Reading a written frame\<close>

definition fresh :: "Framer \<Rightarrow> Framer" where
  "fresh fr = fr\<lparr>errDetail := None, lastFrame := map_option (map_header invalidate) (lastFrame fr)\<rparr>"

lemma nth_put32 [simp]:
  "(put32 v @ x) ! 0 = ucast (drop_bit 24 v)" "(put32 v @ x) ! Suc 0 = ucast (drop_bit 16 v)"
  "(put32 v @ x) ! 2 = ucast (drop_bit 8 v)" "(put32 v @ x) ! 3 = ucast v"
  by (simp_all add: put32_def)

lemma wire_header:
  assumes "length (req_payload q) < 2 ^ 24" "\<not> bit (req_stream q) 31"
  shows "readFrameHeader (wire q @ rest) = (req_payload q @ rest, Inr (req_header q))"
  using assms get24_put24 [OF assms(1)]
  by (simp add: readFrameHeader_def ReadFull_def frameHeaderLen_def header_of_def req_header_def wire_def
      put24_def put32_def and_31 take_bit_31)

lemma checked_stream: "checked q \<Longrightarrow> readable q \<Longrightarrow> \<not> bit (req_stream q) 31"
  by (cases q) (auto simp: validStreamID_def validStreamIDOrZero_def high_bit_zero)

lemma Value_loop_settings:
  "Value_loop (concat (map setting_bytes ss)) i = Ret (map_option Val (find (\<lambda>s. ID s = i) ss))"
  by (induction ss) (auto simp: setting_bytes_def put16_def put32_def)

lemma find_Some_mem: "find P xs = Some x \<Longrightarrow> x \<in> set xs \<and> P x"
  by (auto simp: find_Some_iff)

lemma length_settings: "length (concat (map setting_bytes ss)) = 6 * length ss"
  by (induction ss) (simp_all add: setting_bytes_def)

lemma req_header_simps [simp]:
  "valid (req_header q)" "Type (req_header q) = req_type q" "Flags (req_header q) = req_flags q"
  "Length (req_header q) = word_of_nat (length (req_payload q))" "StreamID (req_header q) = req_stream q"
  by (simp_all add: req_header_def)

lemma parse_wire_data:
  assumes "checked (ReqData sid e d pad)"
  shows "parseDataFrame (req_header (ReqData sid e d pad)) (req_payload (ReqData sid e d pad)) =
    Ret (frame_of (ReqData sid e d pad))"
proof -
  have "unat (word_of_nat (length (opt_bytes pad)) :: byte) = length (opt_bytes pad)"
    using assms by (simp add: unat_of_nat)
  then show ?thesis using assms
    by (cases pad) (auto simp: parseDataFrame_def Has_def validStreamID_def FlagDataPadded_def readByte_def opt_bytes_def)
qed

lemma read_priority_word:
  assumes "validStreamIDOrZero (StreamDep p)" "\<not> IsZero p \<Longrightarrow> Has (Flags fh) FlagHeadersPriority"
    "IsZero p \<Longrightarrow> \<not> Has (Flags fh) FlagHeadersPriority"
  shows "readPriority fh ((if \<not> IsZero p then put32 (priority_word p) @ [Weight p] else []) @ b) = Ret (b, p)"
proof (cases "IsZero p")
  case True
  with assms show ?thesis by (simp add: readPriority_def IsZero_def)
next
  case False
  have "\<lparr>StreamDep = StreamDep p, Exclusive = Exclusive p, Weight = Weight p\<rparr> = p" by simp
  with False assms priority_word_dep [OF assms(1)] show ?thesis
    by (simp add: readPriority_def readUint32_def readByte_def put32_def Let_def)
qed

lemma headers_flags:
  "Has (req_flags (ReqHeaders p)) FlagHeadersPadded \<longleftrightarrow> hp_PadLength p \<noteq> 0"
  "Has (req_flags (ReqHeaders p)) FlagHeadersPriority \<longleftrightarrow> \<not> IsZero (hp_Priority p)"
  "Has (req_flags (ReqHeaders p)) FlagHeadersEndHeaders \<longleftrightarrow> hp_EndHeaders p"
  "Has (req_flags (ReqHeaders p)) FlagHeadersEndStream \<longleftrightarrow> hp_EndStream p"
  by (simp_all add: Has_def frame_flags)

lemma parse_wire_headers:
  assumes "checked (ReqHeaders p)" "readable (ReqHeaders p)"
  shows "parseHeadersFrame (req_header (ReqHeaders p)) (req_payload (ReqHeaders p)) = Ret (frame_of (ReqHeaders p))"
proof -
  let ?b = "hp_BlockFragment p @ replicate (unat (hp_PadLength p)) 0"
  let ?prio = "if \<not> IsZero (hp_Priority p) then put32 (priority_word (hp_Priority p)) @ [Weight (hp_Priority p)] else []"
  have "validStreamIDOrZero (StreamDep (hp_Priority p))"
    using assms(1) by (auto simp: IsZero_def zero_priority_def validStreamIDOrZero_def)
  then have rp: "readPriority (req_header (ReqHeaders p)) (?prio @ ?b) = Ret (?b, hp_Priority p)"
    by (rule read_priority_word) (simp_all only: req_header_simps headers_flags simp_thms)
  have sid: "(hp_StreamID p = 0) = False" using assms(1) by (simp add: validStreamID_def)
  have pad: "(if Has (req_flags (ReqHeaders p)) FlagHeadersPadded then readByte (req_payload (ReqHeaders p))
      else Ret (req_payload (ReqHeaders p), 0)) = Ret (?prio @ ?b, hp_PadLength p)"
    unfolding headers_flags by (simp add: readByte_def)
  show ?thesis
    using assms(2) unfolding parseHeadersFrame_def
    by (simp only: req_header_simps req_stream.simps sid if_False pad rp go_bind.simps prod.case) simp
qed

lemma parse_wire_push:
  assumes "checked (ReqPushPromise p)"
  shows "parsePushPromise (req_header (ReqPushPromise p)) (req_payload (ReqPushPromise p)) = Ret (frame_of (ReqPushPromise p))"
proof -
  have "Has (req_flags (ReqPushPromise p)) FlagPushPromisePadded \<longleftrightarrow> pp_PadLength p \<noteq> 0"
    by (simp add: Has_def frame_flags)
  moreover have "pp_PromiseID p AND 0x7fffffff = pp_PromiseID p" "pp_StreamID p \<noteq> 0"
    using assms by (simp_all add: validStreamID_def valid_mask)
  ultimately show ?thesis
    by (cases "pp_PadLength p = 0")
      (simp_all add: parsePushPromise_def readByte_def readUint32_def put32_def del: req_flags.simps)
qed

lemma parse_wire:
  assumes "checked q" "readable q" "length (req_payload q) < 2 ^ 24"
  shows "typeFrameParser (req_type q) (req_header q) (req_payload q) = Ret (frame_of q)"
proof (cases q)
  case (ReqData sid e d pad)
  with assms show ?thesis
    by (simp add: typeFrameParser_def parse_wire_data del: req_payload.simps frame_of.simps)
next
  case (ReqHeaders p)
  with assms parse_wire_headers [of p] show ?thesis
    by (simp add: typeFrameParser_def frame_types del: req_payload.simps frame_of.simps)
next
  case (ReqPushPromise p)
  with assms parse_wire_push [of p] show ?thesis
    by (simp add: typeFrameParser_def frame_types del: req_payload.simps frame_of.simps)
next
  case (ReqSettings ss)
  with assms show ?thesis
    by (auto simp: typeFrameParser_def frame_types parseSettingsFrame_def settings_Value_def checkValid_def
        Value_loop_settings length_settings Has_def frame_flags not_less split: option.splits dest!: find_Some_mem)
next
  case (ReqPriority sid p)
  with assms priority_word_dep [of p] show ?thesis
    by (cases p) (auto simp: typeFrameParser_def frame_types parsePriorityFrame_def validStreamID_def Let_def put32_def)
next
  case (ReqGoAway i c d)
  define v where "v = i AND 0x7fffffff"
  have "v AND 0x7fffffff = v" by (simp add: v_def and_31)
  with ReqGoAway show ?thesis
    by (simp add: typeFrameParser_def frame_types parseGoAwayFrame_def flip: v_def) (simp add: put32_def)
next
  case (ReqWindowUpdate sid n)
  with assms have "n AND 0x7fffffff = n" by (simp add: and_31 take_bit_word_self word_le_nat_alt)
  with ReqWindowUpdate assms show ?thesis
    by (simp add: typeFrameParser_def frame_types parseWindowUpdateFrame_def put32_def)
qed (use assms in \<open>simp_all add: typeFrameParser_def frame_types parseRSTStreamFrame_def
    parseSettingsFrame_def parsePingFrame_def parseContinuationFrame_def validStreamID_def valid_mask put32_def Let_def
    settings_Value_def checkValid_def Has_def frame_flags\<close>)

lemma ReadFrame_wire:
  assumes "checked q" "readable q" "length (req_payload q) < 2 ^ 24" "maxReadSize fr = maxFrameSize"
  shows "ReadFrame fr (wire q @ rest) =
    (case checkFrameOrder (fresh fr) (frame_of q) of
       (fr, Some e) \<Rightarrow> Ret (fr, rest, Inl e)
     | (fr, None) \<Rightarrow> Ret (fr, rest, Inr (frame_of q)))"
proof -
  have len: "unat (word_of_nat (length (req_payload q)) :: u32) = length (req_payload q)"
    using assms(3) by (simp add: unat_of_nat)
  then have "\<not> word_of_nat (length (req_payload q)) > maxFrameSize"
    using assms(3) by (simp add: maxFrameSize_def word_less_nat_alt)
  with len show ?thesis
    by (simp add: ReadFrame_def ReadFull_def fresh_def Let_def assms(4)
        wire_header [OF assms(3) checked_stream [OF assms(1,2)]] parse_wire [OF assms(1-3)])
qed

section \<open>Sequences of frames\<close>

fun write_seq :: "'w writer \<Rightarrow> Framer \<Rightarrow> request list \<Rightarrow> bytes \<times> Framer \<times> 'w frame_error option" where
  "write_seq w f [] = ([], f, None)"
| "write_seq w f (q # qs) =
     (case do_write w f q of
        (f, Some e) \<Rightarrow> ([], f, Some e)
      | (f, None) \<Rightarrow> (case write_seq w f qs of (b, r) \<Rightarrow> (wbuf f @ b, r)))"

fun read_seq :: "nat \<Rightarrow> Framer \<Rightarrow> bytes \<Rightarrow> ('w frame_error, ('w frame_error + frame) list \<times> Framer \<times> bytes) go" where
  "read_seq 0 fr r = Ret ([], fr, r)"
| "read_seq (Suc n) fr r =
     go_bind (ReadFrame fr r) (\<lambda>(fr, r, x).
       case x of
         Inl e \<Rightarrow> Ret ([Inl e], fr, r)
       | Inr f \<Rightarrow> go_bind (read_seq n fr r) (\<lambda>(xs, fr, r). Ret (Inr f # xs, fr, r)))"

text \<open>The header block left open by a frame, and whether a request may follow an open block \<open>s\<close>.\<close>

fun block_after :: "request \<Rightarrow> u32" where
  "block_after (ReqHeaders p) = (if hp_EndHeaders p then 0 else hp_StreamID p)"
| "block_after (ReqContinuation sid e _) = (if e then 0 else sid)"
| "block_after _ = 0"

fun may_follow :: "u32 \<Rightarrow> request \<Rightarrow> bool" where
  "may_follow s (ReqContinuation sid _ _) \<longleftrightarrow> s = sid"
| "may_follow s _ \<longleftrightarrow> s = 0"

fun blocks_ok :: "u32 \<Rightarrow> request list \<Rightarrow> bool" where
  "blocks_ok s [] \<longleftrightarrow> True"
| "blocks_ok s (q # qs) \<longleftrightarrow> may_follow s q \<and> blocks_ok (block_after q) qs"

lemma do_write_framer: "do_write w f q = (f', r) \<Longrightarrow> AllowIllegalWrites f' = AllowIllegalWrites f"
proof -
  have e: "endWrite w g = (f', r) \<Longrightarrow> AllowIllegalWrites f' = AllowIllegalWrites g" for g
    by (auto simp: endWrite_def Let_def split: if_splits)
  have s: "AllowIllegalWrites (foldl (\<lambda>f s. writeUint32 (writeUint16 f (ID s)) (Val s)) g ss) = AllowIllegalWrites g" for g ss
    by (induction ss arbitrary: g) (simp_all add: write_defs)
  show "do_write w f q = (f', r) \<Longrightarrow> AllowIllegalWrites f' = AllowIllegalWrites f"
    by (cases q) (auto simp: WriteDataPadded_def WriteHeaders_def WritePriority_def WriteRSTStream_def WriteSettings_def
        WriteSettingsAck_def WritePushPromise_def WritePing_def WriteGoAway_def WriteWindowUpdate_def
        WriteContinuation_def startWrite_def Let_def write_defs s [unfolded write_defs, simplified] split: if_splits dest!: e)
qed

lemma Header_frame_of [simp]: "Header (frame_of q) = req_header q"
  by (cases q) simp_all

lemma order_step:
  assumes "may_follow (lastHeaderStream fr) q" "checked q" "\<not> AllowIllegalReads fr"
  shows "checkFrameOrder fr (frame_of q) =
    (fr\<lparr>lastFrame := Some (frame_of q), lastHeaderStream := block_after q\<rparr>, None)"
  using assms
  by (cases q) (auto simp: checkFrameOrder_def Let_def frame_types headers_flags validStreamID_def
      Has_def FlagHeadersEndHeaders_def)

lemma read_write_seq:
  assumes "write_seq w f qs = (b, f', None)" "\<not> AllowIllegalWrites f" "\<forall>q \<in> set qs. readable q"
    "blocks_ok (lastHeaderStream fr) qs" "\<not> AllowIllegalReads fr" "maxReadSize fr = maxFrameSize"
  shows "\<exists>fr'. (read_seq (length qs) fr (b @ rest) :: ('v frame_error, ('v frame_error + frame) list \<times> Framer \<times> bytes) go) =
    Ret (map (\<lambda>q. Inr (frame_of q)) qs, fr', rest)"
  using assms
proof (induction qs arbitrary: f fr b)
  case (Cons q qs)
  from Cons.prems(1) obtain g c where g: "do_write w f q = (g, None)" "write_seq w g qs = (c, f', None)" "b = wbuf g @ c"
    by (auto split: prod.splits option.splits)
  note q = do_write_wire [OF g(1) Cons.prems(2)]
  have ff: "checkFrameOrder (fresh fr) (frame_of q) =
      ((fresh fr)\<lparr>lastFrame := Some (frame_of q), lastHeaderStream := block_after q\<rparr>, None)"
    using Cons.prems q by (intro order_step) (auto simp: fresh_def)
  let ?fr = "(fresh fr)\<lparr>lastFrame := Some (frame_of q), lastHeaderStream := block_after q\<rparr>"
  have "readable q" "blocks_ok (lastHeaderStream ?fr) qs" "\<not> AllowIllegalReads ?fr" "maxReadSize ?fr = maxFrameSize"
    using Cons.prems by (auto simp: fresh_def)
  moreover have "\<not> AllowIllegalWrites g" using do_write_framer [OF g(1)] Cons.prems(2) by simp
  ultimately obtain fr' where "(read_seq (length qs) ?fr (c @ rest) ::
      ('v frame_error, ('v frame_error + frame) list \<times> Framer \<times> bytes) go) = Ret (map (\<lambda>q. Inr (frame_of q)) qs, fr', rest)"
    using Cons.IH [OF g(2), of ?fr] Cons.prems(3) by auto
  with q g(3) Cons.prems \<open>readable q\<close> show ?case by (simp add: ReadFrame_wire ff)
qed simp

section \<open>Properties\<close>

text \<open>C3: any sequence of frames of all types written by a framer whose write methods accept it is read
  back as exactly those frames, in order and with nothing left over, if header blocks are not
  interrupted and the three conditions the write methods do not check hold.\<close>

theorem framer_roundtrip:
  assumes "write_seq w NewFramer qs = (b, f', None)" "\<forall>q \<in> set qs. readable q" "blocks_ok 0 qs"
  shows "\<exists>fr'. (read_seq (length qs) NewFramer b :: ('v frame_error, ('v frame_error + frame) list \<times> Framer \<times> bytes) go) =
    Ret (map (\<lambda>q. Inr (frame_of q)) qs, fr', [])"
proof -
  have "\<not> AllowIllegalWrites NewFramer" "lastHeaderStream NewFramer = 0" "\<not> AllowIllegalReads NewFramer"
    "maxReadSize NewFramer = maxFrameSize"
    by (simp_all add: NewFramer_def SetMaxReadFrameSize_def)
  then show ?thesis using read_write_seq [OF assms(1) _ assms(2), of NewFramer "[]"] assms(3) by simp
qed

definition accept_writer :: "unit writer" where
  "accept_writer b = (int (length b), None)"

definition example_reqs :: "request list" where
  "example_reqs =
     [ReqSettings [\<lparr>ID = 4, Val = 65535\<rparr>],
      ReqHeaders \<lparr>hp_StreamID = 3, hp_BlockFragment = [0x82], hp_EndStream = False, hp_EndHeaders = False,
        hp_PadLength = 2, hp_Priority = \<lparr>StreamDep = 1, Exclusive = True, Weight = 7\<rparr>\<rparr>,
      ReqContinuation 3 True [0x86],
      ReqData 3 True [1, 2, 3] (Some [0, 0]),
      ReqGoAway 3 2 [9]]"

lemma example_reqs_written: "snd (snd (write_seq accept_writer NewFramer example_reqs)) = None"
  by (simp add: example_reqs_def WriteSettings_def WriteHeaders_def WriteContinuation_def WriteDataPadded_def WriteGoAway_def
      validStreamID_def validStreamIDOrZero_def IsZero_def zero_priority_def startWrite_def endWrite_def write_defs
      write_all_def accept_writer_def frameHeaderLen_def NewFramer_def SetMaxReadFrameSize_def priority_word_def Let_def)

theorem framer_roundtrip_witness:
  "\<exists>fr'. (read_seq 5 NewFramer (fst (write_seq accept_writer NewFramer example_reqs)) ::
       (unit frame_error, (unit frame_error + frame) list \<times> Framer \<times> bytes) go) =
     Ret (map (\<lambda>q. Inr (frame_of q)) example_reqs, fr', [])"
proof -
  obtain b f' where w: "write_seq accept_writer NewFramer example_reqs = (b, f', None)"
    using example_reqs_written by (metis prod.collapse)
  have "\<forall>q \<in> set example_reqs. readable q" "blocks_ok 0 example_reqs" "length example_reqs = 5"
    by (simp_all add: example_reqs_def SettingInitialWindowSize_def)
  with framer_roundtrip [OF w] w show ?thesis by simp
qed

end
