(* ===== verification/Http2_Meta.thy ===== *)
theory Http2_Meta
  imports Httplex Hpack_Stream Hpack_Roundtrip Http2_Read Http2_Roundtrip
begin

text \<open>
  Header blocks as header lists (frame.go): \<open>ReadFrame\<close> of a framer with \<open>ReadMetaHeaders\<close> merges a
  HEADERS frame with its CONTINUATION frames, decodes the fragments with the HPACK decoder and checks
  the fields, producing a \<open>MetaHeadersFrame\<close>.
\<close>

section \<open>Meta headers\<close>

text \<open>The variables that the emit function of \<open>readMetaFrame\<close> captures.\<close>

record meta_state =
  invalid :: "reason option"
  sawRegular :: bool
  remainSize :: u32
  Fields :: "HeaderField list"
  Truncated :: bool

definition HasPrefix :: "bytes \<Rightarrow> bytes \<Rightarrow> bool" where
  "HasPrefix s p \<longleftrightarrow> length s \<ge> length p \<and> take (length p) s = p"

definition meta_emit :: "meta_state \<Rightarrow> HeaderField \<Rightarrow> meta_state" where
  "meta_emit st hf =
     (let st = (if \<not> ValidHeaderFieldValue (Value hf) then st\<lparr>invalid := Some (headerFieldValueError (Value hf))\<rparr> else st);
          st = (if HasPrefix (Name hf) (bytes_of '':'')
                then if sawRegular st then st\<lparr>invalid := Some errPseudoAfterRegular\<rparr> else st
                else let st = st\<lparr>sawRegular := True\<rparr>
                     in if \<not> validWireHeaderFieldName (Name hf) then st\<lparr>invalid := Some (headerFieldNameError (Name hf))\<rparr> else st)
      in if invalid st \<noteq> None then st
         else if Size hf > remainSize st then st\<lparr>Truncated := True\<rparr>
         else st\<lparr>remainSize := remainSize st - Size hf, Fields := Fields st @ [hf]\<rparr>)"

text \<open>After the call, emission is still on unless the field was refused or did not fit.\<close>

definition meta_on :: "meta_state \<Rightarrow> bool" where
  "meta_on st \<longleftrightarrow> invalid st = None \<and> \<not> Truncated st"

definition meta_init :: "Framer \<Rightarrow> meta_state" where
  "meta_init fr = \<lparr>invalid = None, sawRegular = False, remainSize = maxHeaderListSize fr, Fields = [], Truncated = False\<rparr>"

definition meta_after :: "Framer \<Rightarrow> HeaderField list \<Rightarrow> meta_state" where
  "meta_after fr calls = foldl meta_emit (meta_init fr) calls"

record MetaHeadersFrame =
  mh_HeadersFrame :: frame
  mh_Fields :: "HeaderField list"
  mh_Truncated :: bool

fun PseudoValue_loop :: "HeaderField list \<Rightarrow> bytes \<Rightarrow> bytes" where
  "PseudoValue_loop [] pseudo = []"
| "PseudoValue_loop (hf # fs) pseudo =
     (if \<not> IsPseudo hf then []
      else if drop 1 (Name hf) = pseudo then Value hf
      else PseudoValue_loop fs pseudo)"

definition PseudoValue :: "MetaHeadersFrame \<Rightarrow> bytes \<Rightarrow> bytes" where
  "PseudoValue mh pseudo = PseudoValue_loop (mh_Fields mh) pseudo"

fun RegularFields_loop :: "HeaderField list \<Rightarrow> HeaderField list" where
  "RegularFields_loop [] = []"
| "RegularFields_loop (hf # fs) = (if \<not> IsPseudo hf then hf # fs else RegularFields_loop fs)"

definition RegularFields :: "MetaHeadersFrame \<Rightarrow> HeaderField list" where
  "RegularFields mh = RegularFields_loop (mh_Fields mh)"

fun PseudoFields_loop :: "HeaderField list \<Rightarrow> HeaderField list" where
  "PseudoFields_loop [] = []"
| "PseudoFields_loop (hf # fs) = (if \<not> IsPseudo hf then [] else hf # PseudoFields_loop fs)"

definition PseudoFields :: "MetaHeadersFrame \<Rightarrow> HeaderField list" where
  "PseudoFields mh = PseudoFields_loop (mh_Fields mh)"

definition request_pseudos :: "bytes list" where
  "request_pseudos = [bytes_of '':method'', bytes_of '':path'', bytes_of '':scheme'', bytes_of '':authority'']"

text \<open>The loop over the pseudo fields; \<open>seen\<close> is \<open>pf[:i]\<close>.\<close>

fun pseudo_loop :: "bool \<Rightarrow> bool \<Rightarrow> HeaderField list \<Rightarrow> HeaderField list \<Rightarrow> reason option" where
  "pseudo_loop isRequest isResponse seen [] = (if isRequest \<and> isResponse then Some errMixPseudoHeaderTypes else None)"
| "pseudo_loop isRequest isResponse seen (hf # pf) =
     (let isReq = Name hf \<in> set request_pseudos;
          isResp = Name hf = bytes_of '':status''
      in if \<not> isReq \<and> \<not> isResp then Some (pseudoHeaderError (Name hf))
         else if list_ex (\<lambda>hf2. Name hf = Name hf2) seen then Some (duplicatePseudoHeaderError (Name hf))
         else pseudo_loop (isRequest \<or> isReq) (isResponse \<or> isResp) (seen @ [hf]) pf)"

definition checkPseudos :: "MetaHeadersFrame \<Rightarrow> reason option" where
  "checkPseudos mh = pseudo_loop False False [] (PseudoFields mh)"

definition maxHeaderStringLen :: "Framer \<Rightarrow> int" where
  "maxHeaderStringLen fr =
     (let v = maxHeaderListSize fr
      in if (word_of_int (uint v) :: u32) = v then uint v else 0)"

section \<open>Reading\<close>

text \<open>The decoder as \<open>readMetaFrame\<close> sets it up, and as its deferred call leaves it.\<close>

definition meta_decoder :: "Framer \<Rightarrow> Decoder \<Rightarrow> Decoder" where
  "meta_decoder fr hdec =
     SetEmitFunc (SetMaxStringLength (SetEmitEnabled hdec True) (maxHeaderStringLen fr)) (\<lambda>calls. meta_on (meta_after fr calls)) []"

definition drop_emit :: "Decoder \<Rightarrow> Decoder" where
  "drop_emit hdec = SetEmitFunc hdec (\<lambda>_. True) []"

type_synonym 'w meta_result = "('w frame_error, Framer \<times> Decoder \<times> bytes \<times> ('w frame_error + MetaHeadersFrame)) go"

fun clear_fragment :: "frame \<Rightarrow> frame" where
  "clear_fragment (HeadersFrame fh p _) = HeadersFrame fh p []"
| "clear_fragment f = f"

text \<open>After the loop: the end of the block, then the errors found by the emit function and in the pseudo fields.\<close>

definition meta_finish :: "Framer \<Rightarrow> Decoder \<Rightarrow> frame \<Rightarrow> bytes \<Rightarrow> 'w meta_result" where
  "meta_finish fr hdec hf r =
     (let st = meta_after fr (emitted hdec);
          mh = \<lparr>mh_HeadersFrame = map_header invalidate (clear_fragment hf), mh_Fields = Fields st, mh_Truncated = Truncated st\<rparr>
      in case Decoder_Close hdec of
           (hdec, Some e) \<Rightarrow> Ret (fr, drop_emit hdec, r, Inl (ConnectionError ErrCodeCompression))
         | (hdec, None) \<Rightarrow>
             (case invalid st of
                Some e \<Rightarrow> Ret (fr\<lparr>errDetail := Some e\<rparr>, drop_emit hdec, r, Inl (StreamError (StreamID (Header hf)) ErrCodeProtocol (Some e)))
              | None \<Rightarrow>
                  (case checkPseudos mh of
                     Some e \<Rightarrow> Ret (fr\<lparr>errDetail := Some e\<rparr>, drop_emit hdec, r, Inl (StreamError (StreamID (Header hf)) ErrCodeProtocol (Some e)))
                   | None \<Rightarrow> Ret (fr, drop_emit hdec, r, Inr mh))))"

definition illegal_meta :: "'w frame_error" where
  "illegal_meta = ErrorsNew ''illegal use of AllowIllegalReads with ReadMetaHeaders''"

lemma ReadFrame_shorter:
  assumes "ReadFrame fr r = Ret (fr', r', Inr f :: 'w frame_error + frame)"
  shows "length r' < length r"
  using ReadFrame_read_ok [where 'w = 'w, of fr r] assms by (auto simp: read_ok_def)

text \<open>
  The loop over the HEADERS frame and its CONTINUATION frames. A HEADERS frame inside it would be read
  by a nested \<open>readMetaFrame\<close>, and anything else than a CONTINUATION frame fails the type assertion.
\<close>

function meta_loop :: "Framer \<Rightarrow> Decoder \<Rightarrow> frame \<Rightarrow> frame \<Rightarrow> bytes \<Rightarrow> 'w meta_result" where
  "meta_loop fr hdec hf hc r =
     go_bind (HeaderBlockFragment hc) (\<lambda>frag.
       case Decoder_Write hdec frag of
         Panic \<Rightarrow> Panic
       | Fail _ \<Rightarrow> Ret (fr, drop_emit hdec, r, Inl (ConnectionError ErrCodeCompression))
       | Ret (_, hdec, Some err) \<Rightarrow> Ret (fr, drop_emit hdec, r, Inl (ConnectionError ErrCodeCompression))
       | Ret (_, hdec, None) \<Rightarrow>
           if HeadersEnded hc then meta_finish fr hdec hf r
           else case ReadFrame fr r of
             Panic \<Rightarrow> Panic
           | Fail err \<Rightarrow> Fail err
           | Ret (fr, r, Inl err) \<Rightarrow> Ret (fr, drop_emit hdec, r, Inl err)
           | Ret (fr, r, Inr f) \<Rightarrow>
               if Type (Header f) = FrameHeaders
               then if AllowIllegalReads fr then Ret (fr, drop_emit hdec, r, Inl illegal_meta)
                    else (case meta_loop fr (meta_decoder fr hdec) f f r of
                            Ret (fr, hdec, r, Inl err) \<Rightarrow> Ret (fr, drop_emit hdec, r, Inl err)
                          | Ret (fr, hdec, r, Inr mh) \<Rightarrow> Panic
                          | Fail err \<Rightarrow> Fail err
                          | Panic \<Rightarrow> Panic)
               else (case f of
                       ContinuationFrame _ _ \<Rightarrow> meta_loop fr hdec hf f r
                     | _ \<Rightarrow> Panic))"
  by pat_completeness auto

termination
  by (relation "measure (\<lambda>(fr, hdec, hf, hc, r). length r)") (auto dest: ReadFrame_shorter)

declare meta_loop.simps [simp del]

definition readMetaFrame :: "Framer \<Rightarrow> Decoder \<Rightarrow> frame \<Rightarrow> bytes \<Rightarrow> 'w meta_result" where
  "readMetaFrame fr hdec hf r =
     (if AllowIllegalReads fr then Ret (fr, hdec, r, Inl illegal_meta)
      else meta_loop fr (meta_decoder fr hdec) hf hf r)"

text \<open>\<open>ReadFrame\<close> of a framer whose \<open>ReadMetaHeaders\<close> is \<open>hdec\<close>.\<close>

definition ReadFrame_meta :: "Framer \<Rightarrow> Decoder \<Rightarrow> bytes \<Rightarrow>
    ('w frame_error, Framer \<times> Decoder \<times> bytes \<times> ('w frame_error + (frame + MetaHeadersFrame))) go" where
  "ReadFrame_meta fr hdec r =
     go_bind (ReadFrame fr r) (\<lambda>(fr, r, x).
       case x of
         Inl err \<Rightarrow> Ret (fr, hdec, r, Inl err)
       | Inr f \<Rightarrow>
           if Type (Header f) = FrameHeaders
           then go_bind (readMetaFrame fr hdec f r) (\<lambda>(fr, hdec, r, y).
                  Ret (fr, hdec, r, case y of Inl err \<Rightarrow> Inl err | Inr mh \<Rightarrow> Inr (Inr mh)))
           else Ret (fr, hdec, r, Inr (Inl f)))"

section \<open>Which header lists are accepted\<close>

text \<open>
  RFC 7540, section 8.1.2: pseudo fields first, each known and at most once, those of requests and of
  responses not mixed; names and values of the grammar; and no more than the announced list size.
\<close>

definition pseudos_ok :: "HeaderField list \<Rightarrow> bool" where
  "pseudos_ok ps \<longleftrightarrow> distinct (map Name ps) \<and>
     (Name ` set ps \<subseteq> set request_pseudos \<or> Name ` set ps \<subseteq> {bytes_of '':status''})"

definition fields_ok :: "HeaderField list \<Rightarrow> bool" where
  "fields_ok fs \<longleftrightarrow> (\<exists>ps rs. fs = ps @ rs \<and> list_all IsPseudo ps \<and> list_all (\<lambda>f. \<not> IsPseudo f \<and> validWireHeaderFieldName (Name f)) rs) \<and>
     list_all (\<lambda>f. ValidHeaderFieldValue (Value f)) fs"

definition list_size :: "HeaderField list \<Rightarrow> nat" where
  "list_size fs = sum_list (map (\<lambda>f. unat (Size f)) fs)"

lemma HasPrefix_colon: "HasPrefix (Name hf) (bytes_of '':'') = IsPseudo hf"
  by (cases "Name hf") (auto simp: HasPrefix_def IsPseudo_def bytes_of_def)

lemma status_not_request: "bytes_of '':status'' \<notin> set request_pseudos"
  by (simp add: request_pseudos_def bytes_of_def)

lemma pseudo_loop_None:
  "pseudo_loop rq rp seen ps = None \<longleftrightarrow>
     Name ` set ps \<subseteq> insert (bytes_of '':status'') (set request_pseudos) \<and>
     distinct (map Name ps) \<and> Name ` set ps \<inter> Name ` set seen = {} \<and>
     \<not> ((rq \<or> Name ` set ps \<inter> set request_pseudos \<noteq> {}) \<and> (rp \<or> bytes_of '':status'' \<in> Name ` set ps))"
proof (induction ps arbitrary: rq rp seen)
  case (Cons f ps)
  have seen: "list_ex (\<lambda>hf2. n = Name hf2) seen \<longleftrightarrow> n \<in> Name ` set seen" for n by (auto simp: list_ex_iff)
  consider "Name f \<in> set request_pseudos" "Name f \<noteq> bytes_of '':status''" | "Name f = bytes_of '':status''" "Name f \<notin> set request_pseudos"
    | "Name f \<notin> set request_pseudos" "Name f \<noteq> bytes_of '':status''"
    using status_not_request by metis
  then show ?case by cases (auto simp: Let_def seen Cons.IH)
qed simp

lemma PseudoFields_append:
  "list_all IsPseudo ps \<Longrightarrow> list_all (\<lambda>f. \<not> IsPseudo f \<and> Q f) rs \<Longrightarrow> PseudoFields_loop (ps @ rs) = ps"
  by (induction ps) (auto, cases rs, auto)

lemma checkPseudos_ok:
  "pseudo_loop False False [] ps = None \<longleftrightarrow> pseudos_ok ps"
proof -
  have "s \<notin> R \<Longrightarrow> (N \<subseteq> insert s R \<and> d \<and> N \<inter> {} = {} \<and> \<not> ((False \<or> N \<inter> R \<noteq> {}) \<and> (False \<or> s \<in> N))) =
      (d \<and> (N \<subseteq> R \<or> N \<subseteq> {s}))" for s :: bytes and R N d by blast
  then show ?thesis using status_not_request by (simp only: pseudo_loop_None pseudos_ok_def list.set image_empty)
qed

section \<open>The emit function\<close>

text \<open>What the captured variables say as long as no field was refused.\<close>

definition meta_inv :: "nat \<Rightarrow> meta_state \<Rightarrow> bool" where
  "meta_inv lim st \<longleftrightarrow> (invalid st = None \<longrightarrow>
     fields_ok (Fields st) \<and> (\<not> sawRegular st \<longrightarrow> list_all IsPseudo (Fields st)) \<and>
     list_size (Fields st) + unat (remainSize st) = lim)"

lemma fields_ok_snoc:
  assumes "fields_ok fs" "ValidHeaderFieldValue (Value f)"
    "if IsPseudo f then list_all IsPseudo fs else validWireHeaderFieldName (Name f)"
  shows "fields_ok (fs @ [f])"
proof -
  obtain ps rs where p: "fs = ps @ rs" "list_all IsPseudo ps" "list_all (\<lambda>f. \<not> IsPseudo f \<and> validWireHeaderFieldName (Name f)) rs"
    using assms(1) unfolding fields_ok_def by blast
  have "\<exists>ps' rs'. fs @ [f] = ps' @ rs' \<and> list_all IsPseudo ps' \<and> list_all (\<lambda>f. \<not> IsPseudo f \<and> validWireHeaderFieldName (Name f)) rs'"
  proof (cases "IsPseudo f")
    case True
    then show ?thesis using assms(3) by (intro exI [of _ "fs @ [f]"] exI [of _ "[]"]) simp
  next
    case False
    then show ?thesis using p assms(3) by (intro exI [of _ ps] exI [of _ "rs @ [f]"]) simp
  qed
  then show ?thesis using assms(1,2) unfolding fields_ok_def by simp
qed

lemma meta_emit_inv:
  assumes "meta_inv lim st"
  shows "meta_inv lim (meta_emit st f)"
proof (cases "invalid (meta_emit st f) = None")
  case False
  then show ?thesis by (auto simp: meta_inv_def)
next
  case True
  then have ok: "invalid st = None" "ValidHeaderFieldValue (Value f)" "IsPseudo f \<Longrightarrow> \<not> sawRegular st"
    "\<not> IsPseudo f \<Longrightarrow> validWireHeaderFieldName (Name f)"
    by (auto simp: meta_emit_def HasPrefix_colon Let_def split: if_splits)
  have old: "fields_ok (Fields st)" "\<not> sawRegular st \<Longrightarrow> list_all IsPseudo (Fields st)"
    "list_size (Fields st) + unat (remainSize st) = lim" using assms ok(1) by (simp_all add: meta_inv_def)
  let ?s = "sawRegular st \<or> \<not> IsPseudo f"
  have em: "meta_emit st f = (if Size f > remainSize st then st\<lparr>sawRegular := ?s, Truncated := True\<rparr>
      else st\<lparr>sawRegular := ?s, remainSize := remainSize st - Size f, Fields := Fields st @ [f]\<rparr>)"
    using ok by (cases st) (auto simp: meta_emit_def HasPrefix_colon Let_def)
  have "fields_ok (Fields st @ [f])" using fields_ok_snoc [OF old(1) ok(2)] old(2) ok(3,4) by simp
  moreover have "list_size (Fields st @ [f]) + unat (remainSize st - Size f) = lim" if "\<not> Size f > remainSize st"
  proof -
    have le: "Size f \<le> remainSize st" using that by simp
    have "unat (remainSize st - Size f) = unat (remainSize st) - unat (Size f)" using le by (rule unat_sub)
    then show ?thesis using old(3) le by (simp add: list_size_def word_le_nat_alt)
  qed
  ultimately show ?thesis using old ok by (auto simp: em meta_inv_def)
qed

lemma meta_after_inv: "meta_inv (unat (maxHeaderListSize fr)) (meta_after fr calls)"
proof -
  have "meta_inv lim st \<Longrightarrow> meta_inv lim (foldl meta_emit st calls)" for lim st
    by (induction calls arbitrary: st) (simp_all add: meta_emit_inv)
  moreover have "meta_inv (unat (maxHeaderListSize fr)) (meta_init fr)"
    by (simp add: meta_inv_def meta_init_def fields_ok_def list_size_def)
  ultimately show ?thesis by (simp add: meta_after_def)
qed

lemma fields_ok_butlast:
  assumes "fields_ok (fs @ [f])"
  shows "fields_ok fs" "ValidHeaderFieldValue (Value f)" "IsPseudo f \<Longrightarrow> list_all IsPseudo fs"
    "\<not> IsPseudo f \<Longrightarrow> validWireHeaderFieldName (Name f)"
proof -
  obtain ps rs where p: "fs @ [f] = ps @ rs" "list_all IsPseudo ps" "list_all (\<lambda>f. \<not> IsPseudo f \<and> validWireHeaderFieldName (Name f)) rs"
    using assms unfolding fields_ok_def by blast
  have val: "list_all (\<lambda>f. ValidHeaderFieldValue (Value f)) fs" "ValidHeaderFieldValue (Value f)"
    using assms unfolding fields_ok_def by simp_all
  have "(list_all IsPseudo fs \<and> IsPseudo f) \<or> (\<exists>rs'. fs = ps @ rs' \<and> rs = rs' @ [f])"
  proof (cases rs rule: rev_cases)
    case Nil
    then have "list_all IsPseudo (fs @ [f])" using p by simp
    then show ?thesis by simp
  next
    case (snoc rs' g)
    then show ?thesis using p(1) by simp
  qed
  then have "(fields_ok fs \<and> list_all IsPseudo fs \<and> IsPseudo f) \<or> (fields_ok fs \<and> \<not> IsPseudo f \<and> validWireHeaderFieldName (Name f))"
  proof
    assume a: "list_all IsPseudo fs \<and> IsPseudo f"
    then have "fields_ok fs" using val(1) unfolding fields_ok_def by (intro conjI exI [of _ fs] exI [of _ "[]"]) simp_all
    then show ?thesis using a by blast
  next
    assume "\<exists>rs'. fs = ps @ rs' \<and> rs = rs' @ [f]"
    then obtain rs' where r: "fs = ps @ rs'" "rs = rs' @ [f]" by blast
    then have "fields_ok fs" using val(1) p(2,3) unfolding fields_ok_def by (intro conjI exI [of _ ps] exI [of _ rs']) simp_all
    then show ?thesis using r p(3) by simp
  qed
  then show "fields_ok fs" "ValidHeaderFieldValue (Value f)" "IsPseudo f \<Longrightarrow> list_all IsPseudo fs"
    "\<not> IsPseudo f \<Longrightarrow> validWireHeaderFieldName (Name f)" using val(2) by blast+
qed

lemma meta_accepts:
  assumes "fields_ok fs" "list_size fs \<le> unat (maxHeaderListSize fr)"
  shows "meta_on (meta_after fr fs) \<and> Fields (meta_after fr fs) = fs \<and>
    (sawRegular (meta_after fr fs) \<longleftrightarrow> \<not> list_all IsPseudo fs) \<and>
    unat (remainSize (meta_after fr fs)) = unat (maxHeaderListSize fr) - list_size fs"
  using assms
proof (induction fs rule: rev_induct)
  case Nil
  then show ?case by (simp add: meta_after_def meta_init_def meta_on_def list_size_def)
next
  case (snoc f fs)
  note b = fields_ok_butlast [OF snoc.prems(1)]
  let ?st = "meta_after fr fs"
  have sz: "list_size (fs @ [f]) = list_size fs + unat (Size f)" by (simp add: list_size_def)
  have ih: "meta_on ?st" "Fields ?st = fs" "sawRegular ?st \<longleftrightarrow> \<not> list_all IsPseudo fs"
    "unat (remainSize ?st) = unat (maxHeaderListSize fr) - list_size fs"
    using snoc.IH [OF b(1)] snoc.prems(2) sz by simp_all
  have fit: "Size f \<le> remainSize ?st" using ih(4) snoc.prems(2) sz by (simp add: word_le_nat_alt)
  have "invalid ?st = None" "\<not> Truncated ?st" using ih(1) by (simp_all add: meta_on_def)
  then have "meta_emit ?st f = ?st\<lparr>sawRegular := sawRegular ?st \<or> \<not> IsPseudo f, remainSize := remainSize ?st - Size f, Fields := fs @ [f]\<rparr>"
    using b ih(2,3) fit by (cases ?st) (auto simp: meta_emit_def HasPrefix_colon Let_def)
  moreover have "meta_after fr (fs @ [f]) = meta_emit ?st f" by (simp add: meta_after_def)
  moreover have "unat (remainSize ?st - Size f) = unat (remainSize ?st) - unat (Size f)" using fit by (rule unat_sub)
  ultimately show ?case using ih sz by (auto simp: meta_on_def)
qed

section \<open>Safety on any input\<close>

lemma ReadFrame_Inr:
  assumes "ReadFrame fr r = Ret (fr', r', Inr f :: 'w frame_error + frame)"
  shows "checkFrameOrder (fresh fr) f = (fr', None :: 'w frame_error option)"
  using assms unfolding ReadFrame_def Let_def
  by (auto simp: fresh_def Framer_connError_def split: prod.splits sum.splits if_splits go.splits frame_error.splits option.splits)

lemma checkFrameOrder_settings:
  "checkFrameOrder fr f = (fr', x) \<Longrightarrow> MaxHeaderListSize fr' = MaxHeaderListSize fr \<and> AllowIllegalReads fr' = AllowIllegalReads fr"
  by (auto simp: checkFrameOrder_def Framer_connError_def Let_def split: if_splits)

lemma ReadFrame_settings:
  assumes "ReadFrame fr r = Ret (fr', r', x :: 'w frame_error + frame)"
  shows "MaxHeaderListSize fr' = MaxHeaderListSize fr \<and> AllowIllegalReads fr' = AllowIllegalReads fr"
  using assms unfolding ReadFrame_def Let_def
  by (auto simp: Framer_connError_def dest: checkFrameOrder_settings split: prod.splits sum.splits if_splits go.splits frame_error.splits option.splits)

lemma ReadFrame_order:
  assumes "ReadFrame fr r = Ret (fr', r', Inr f :: 'w frame_error + frame)" "\<not> AllowIllegalReads fr"
  shows "lastHeaderStream fr \<noteq> 0 \<longrightarrow> Type (Header f) = FrameContinuation"
    "Type (Header f) = FrameHeaders \<or> Type (Header f) = FrameContinuation \<longrightarrow>
       lastHeaderStream fr' = (if Has (Flags (Header f)) FlagHeadersEndHeaders then 0 else StreamID (Header f))"
  using ReadFrame_Inr [OF assms(1)] assms(2)
  by (auto simp: checkFrameOrder_def Framer_connError_def fresh_def Let_def split: if_splits)

definition mh_ok :: "u32 \<Rightarrow> MetaHeadersFrame \<Rightarrow> bool" where
  "mh_ok lim mh \<longleftrightarrow> fields_ok (mh_Fields mh) \<and> pseudos_ok (PseudoFields mh) \<and> list_size (mh_Fields mh) \<le> unat lim"

definition meta_ok :: "Framer \<Rightarrow> bytes \<Rightarrow> Framer \<times> Decoder \<times> bytes \<times> ('w frame_error + MetaHeadersFrame) \<Rightarrow> bool" where
  "meta_ok fr r = (\<lambda>(fr', d', r', y). dec_wf d' \<and> suffix r' r \<and> MaxHeaderListSize fr' = MaxHeaderListSize fr \<and>
     (case y of
        Inl e \<Rightarrow> (\<forall>c why. e \<noteq> connError c why)
      | Inr mh \<Rightarrow> mh_ok (maxHeaderListSize fr) mh))"

lemma dec_wf_emit [simp]: "dec_wf (SetEmitFunc d f l) = dec_wf d" "dec_wf (drop_emit d) = dec_wf d"
  "dec_wf (SetEmitEnabled d b) = dec_wf d" "dec_wf (SetMaxStringLength d n) = dec_wf d" "dec_wf (d\<lparr>saveBuf := x\<rparr>) = dec_wf d"
  by (simp_all add: SetEmitFunc_def drop_emit_def SetEmitEnabled_def SetMaxStringLength_def dec_wf_def)

lemma meta_finish_ok:
  assumes "dec_wf d"
  shows "\<exists>y :: Framer \<times> Decoder \<times> bytes \<times> ('w frame_error + MetaHeadersFrame). meta_finish fr d hf r = Ret y \<and> meta_ok fr r y"
proof -
  let ?st = "meta_after fr (emitted d)"
  let ?mh = "\<lparr>mh_HeadersFrame = map_header invalidate (clear_fragment hf), mh_Fields = Fields ?st, mh_Truncated = Truncated ?st\<rparr>"
  have mh: "mh_ok (maxHeaderListSize fr) ?mh" if "invalid ?st = None" "checkPseudos ?mh = None"
  proof -
    have "pseudos_ok (PseudoFields ?mh)" using that(2) checkPseudos_ok unfolding checkPseudos_def by blast
    moreover have "fields_ok (Fields ?st)" "list_size (Fields ?st) + unat (remainSize ?st) = unat (maxHeaderListSize fr)"
      using meta_after_inv [of fr "emitted d"] that(1) by (simp_all add: meta_inv_def)
    ultimately show ?thesis by (simp add: mh_ok_def)
  qed
  show ?thesis
  proof (cases "saveBuf d = []")
    case False
    then show ?thesis using assms by (simp add: meta_finish_def Let_def Decoder_Close_def meta_ok_def)
  next
    case True
    then show ?thesis
      using assms mh by (cases "invalid ?st"; cases "checkPseudos ?mh")
        (simp_all add: meta_finish_def Let_def Decoder_Close_def meta_ok_def)
  qed
qed

lemma continuation_frame:
  assumes "frame_wf f" "Type (Header f) = FrameContinuation"
  shows "\<exists>fh b. f = ContinuationFrame fh b"
  using assms by (cases f) (auto simp: frame_types)

lemma meta_loop_safe:
  assumes "dec_wf d" "HeaderBlockFragment hc = (Ret frag :: ('w frame_error, bytes) go)"
    "adds d + length (saveBuf d) + length frag + length r < 2 ^ 64"
    "\<not> AllowIllegalReads fr" "HeadersEnded hc \<or> lastHeaderStream fr \<noteq> 0"
  shows "\<exists>y :: Framer \<times> Decoder \<times> bytes \<times> ('w frame_error + MetaHeadersFrame). meta_loop fr d hf hc r = Ret y \<and> meta_ok fr r y"
  using assms
proof (induction "length r" arbitrary: fr d hc r frag rule: less_induct)
  case less
  obtain k d1 e where w: "Decoder_Write d frag = Ret (k, d1, e)" "dec_wf d1"
    "adds d1 + length (saveBuf d1) \<le> adds d + length (saveBuf d) + length frag"
    using Write_safe [OF less.prems(1), of frag] less.prems(3) by auto
  note step = meta_loop.simps [of fr d hf hc r, where 'a = 'w]
  show ?case
  proof (cases e)
    case (Some err)
    then show ?thesis using w less.prems(2) by (simp add: step meta_ok_def)
  next
    case None
    show ?thesis
    proof (cases "HeadersEnded hc")
      case True
      then show ?thesis using meta_finish_ok [OF w(2)] w(1) None less.prems(2) by (simp add: step)
    next
      case False
      obtain fr2 r2 and x :: "'w frame_error + frame" where rd: "ReadFrame fr r = Ret (fr2, r2, x)" "read_ok fr r (fr2, r2, x)"
        using ReadFrame_read_ok [where 'w = 'w, of fr r] by (metis prod_cases3)
      have set: "MaxHeaderListSize fr2 = MaxHeaderListSize fr" "AllowIllegalReads fr2 = AllowIllegalReads fr"
        using ReadFrame_settings [OF rd(1)] by simp_all
      show ?thesis
      proof (cases x)
        case (Inl err)
        then show ?thesis using w None less.prems(2) False rd set by (simp add: step meta_ok_def read_ok_def)
      next
        case (Inr f)
        have f: "frame_wf f" "valid (Header f)" "length r = length r2 + 9 + unat (Length (Header f))" "suffix r2 r"
          using rd(2) Inr by (simp_all add: read_ok_def)
        have ty: "Type (Header f) = FrameContinuation" using ReadFrame_order(1) [OF rd(1) [unfolded Inr] less.prems(4)] less.prems(5) False by simp
        obtain fh b where c: "f = ContinuationFrame fh b" using continuation_frame [OF f(1) ty] by blast
        have b: "HeaderBlockFragment f = (Ret b :: ('w frame_error, bytes) go)" using f(2) c by (simp add: checkValid_def)
        have "lastHeaderStream fr2 = (if Has (Flags fh) FlagHeadersEndHeaders then 0 else StreamID fh)"
          using ReadFrame_order(2) [OF rd(1) [unfolded Inr] less.prems(4)] ty c by simp
        then have blk: "HeadersEnded f \<or> lastHeaderStream fr2 \<noteq> 0"
          using f(1) c by (simp add: FlagHeadersEndHeaders_def FlagContinuationEndHeaders_def)
        have len: "length r2 < length r" "adds d1 + length (saveBuf d1) + length b + length r2 < 2 ^ 64"
          using f(1,3) c w(3) less.prems(3) by simp_all
        obtain y :: "Framer \<times> Decoder \<times> bytes \<times> ('w frame_error + MetaHeadersFrame)" where y:
          "meta_loop fr2 d1 hf f r2 = Ret y" "meta_ok fr2 r2 y"
          using less.hyps [OF len(1) w(2) b len(2) _ blk] less.prems(4) set by blast
        have "meta_loop fr d hf hc r = Ret y" using w None less.prems(2) False rd(1) Inr ty c y(1) by (simp add: step frame_types)
        moreover have "meta_ok fr r y" using y(2) f(4) set(1) suffix_order.trans [of _ r2 r] by (auto simp: meta_ok_def maxHeaderListSize_def split: sum.splits)
        ultimately show ?thesis by blast
      qed
    qed
  qed
qed

section \<open>Properties\<close>

text \<open>C9: Reading header lists is safe on every input and every list it returns is well formed. From a well-formed
  decoder, \<open>ReadFrame\<close> with \<open>ReadMetaHeaders\<close> returns on any bytes: no panic, in particular the type assertion
  that the frame after an unfinished block is a CONTINUATION frame never fails, and no internal \<open>connError\<close>
  escapes. The decoder stays well formed even when the list was refused or truncated. In a returned header
  list the pseudo fields come first, are known, distinct and of one kind; all names and values follow the
  grammar; and the list is no larger than \<open>MaxHeaderListSize\<close> allows.\<close>

theorem ReadFrame_meta_well_formed:
  assumes "dec_wf d" "adds d + length (saveBuf d) + length r < 2 ^ 64" "\<not> AllowIllegalReads fr"
  shows "\<exists>fr' d' r' x. ReadFrame_meta fr d r = (Ret (fr', d', r', x) :: ('w frame_error, _) go) \<and> dec_wf d' \<and> suffix r' r \<and>
    (case x of
       Inl e \<Rightarrow> (\<forall>c why. e \<noteq> connError c why)
     | Inr (Inl f) \<Rightarrow> frame_wf f
     | Inr (Inr mh) \<Rightarrow> fields_ok (mh_Fields mh) \<and> pseudos_ok (PseudoFields mh) \<and>
         list_size (mh_Fields mh) \<le> unat (maxHeaderListSize fr))"
proof -
  obtain fr1 r1 and x :: "'w frame_error + frame" where rd: "ReadFrame fr r = Ret (fr1, r1, x)" "read_ok fr r (fr1, r1, x)"
    using ReadFrame_read_ok [where 'w = 'w, of fr r] by (metis prod_cases3)
  have set: "MaxHeaderListSize fr1 = MaxHeaderListSize fr" "AllowIllegalReads fr1 = AllowIllegalReads fr"
    using ReadFrame_settings [OF rd(1)] by simp_all
  show ?thesis
  proof (cases x)
    case (Inl e)
    then show ?thesis using rd assms(1) by (auto simp: ReadFrame_meta_def read_ok_def)
  next
    case (Inr f)
    have f: "frame_wf f" "valid (Header f)" "length r = length r1 + 9 + unat (Length (Header f))" "suffix r1 r"
      using rd(2) Inr by (simp_all add: read_ok_def)
    show ?thesis
    proof (cases "Type (Header f) = FrameHeaders")
      case False
      then show ?thesis using rd(1) Inr f assms(1) by (auto simp: ReadFrame_meta_def)
    next
      case True
      then obtain fh p b where h: "f = HeadersFrame fh p b" using f(1) by (cases f) (auto simp: frame_types)
      have b: "HeaderBlockFragment f = (Ret b :: ('w frame_error, bytes) go)" using f(2) h by (simp add: checkValid_def)
      have "HeadersEnded f \<or> lastHeaderStream fr1 \<noteq> 0"
        using ReadFrame_order(2) [OF rd(1) [unfolded Inr] assms(3)] True f(1) h by simp
      moreover have "adds (meta_decoder fr1 d) + length (saveBuf (meta_decoder fr1 d)) + length b + length r1 < 2 ^ 64"
        using assms(2) f(1,3) h by (simp add: meta_decoder_def SetEmitFunc_def SetMaxStringLength_def SetEmitEnabled_def)
      moreover have "dec_wf (meta_decoder fr1 d)" using assms(1) by (simp add: meta_decoder_def)
      ultimately obtain fr2 d2 r2 and y :: "'w frame_error + MetaHeadersFrame" where y:
        "meta_loop fr1 (meta_decoder fr1 d) f f r1 = Ret (fr2, d2, r2, y)" "meta_ok fr1 r1 (fr2, d2, r2, y)"
        using meta_loop_safe [OF _ b, of "meta_decoder fr1 d" r1 fr1 f] assms(3) set(2) by (metis prod_cases4)
      have "suffix r2 r" "dec_wf d2" using y(2) f(4) suffix_order.trans by (auto simp: meta_ok_def)
      then show ?thesis using rd(1) Inr True y set assms(3)
        by (cases y) (auto simp: ReadFrame_meta_def readMetaFrame_def meta_ok_def mh_ok_def maxHeaderListSize_def)
    qed
  qed
qed

theorem ReadFrame_meta_well_formed_witness:
  "\<exists>fr' d' r' x. ReadFrame_meta NewFramer example_decoder [0, 0, 2, 1, 4, 0, 0, 0, 1, 0x82, 0x84] =
     (Ret (fr', d', r', x) :: (unit frame_error, _) go) \<and> dec_wf d'"
proof -
  have "\<not> AllowIllegalReads NewFramer" by (simp add: NewFramer_def SetMaxReadFrameSize_def)
  then show ?thesis
    using ReadFrame_meta_well_formed [where 'w = unit, of example_decoder "[0, 0, 2, 1, 4, 0, 0, 0, 1, 0x82, 0x84]" NewFramer]
    by (auto simp: example_decoder_wf)
qed

end
