(* ===== verification/Http2_Meta_Roundtrip.thy ===== *)
theory Http2_Meta_Roundtrip
  imports Http2_Meta
begin

text \<open>
  Header lists from end to end: fields encoded with HPACK, cut into fragments, written as HEADERS and
  CONTINUATION frames, read back by a framer with \<open>ReadMetaHeaders\<close>.
\<close>

section \<open>The length of a block\<close>

lemma appendVarInt_loop_length: "unat v < 2 ^ (7 * k) \<Longrightarrow> 0 < k \<Longrightarrow> length (appendVarInt_loop [] v) \<le> k"
proof (induction k arbitrary: v)
  case (Suc k)
  show ?case
  proof (cases "128 \<le> v")
    case False
    then show ?thesis by (simp add: appendVarInt_loop.simps [of "[]" v])
  next
    case True
    then have big: "128 \<le> unat v" by (simp add: word_le_nat_alt)
    have "unat v < 2 ^ (7 * k) * 128" using Suc.prems(1) by (simp add: power_add)
    then have "unat (drop_bit 7 v) < 2 ^ (7 * k)" by (simp add: unat_drop_bit less_mult_imp_div_less)
    moreover have "0 < k" using big Suc.prems(1) by (cases k) simp_all
    ultimately have "length (appendVarInt_loop [] (drop_bit 7 v)) \<le> k" using Suc.IH by blast
    then show ?thesis using True by (simp add: appendVarInt_loop_cont)
  qed
qed simp

lemma appendVarInt_length: "length (appendVarInt dst n v) \<le> length dst + 11"
proof -
  have "unat w < 2 ^ 64" for w :: u64 using unsigned_less [of w, where ?'a = nat] by simp
  moreover have "(2 :: nat) ^ 64 \<le> 2 ^ (7 * 10)" by simp
  ultimately have "unat w < 2 ^ (7 * 10)" for w :: u64 by (rule less_le_trans)
  then have "length (appendVarInt_loop [] w) \<le> 10" for w using appendVarInt_loop_length [of w 10] by simp
  moreover have "appendVarInt_loop [x] w = x # appendVarInt_loop [] w" for x w using appendVarInt_loop_append [of "[x]" "[]" w] by simp
  ultimately have "length (appendVarInt [] n v) \<le> 11" by (simp add: appendVarInt_def Let_def)
  then show ?thesis using appendVarInt_append [of dst n v] by simp
qed

lemma or_at_length [simp]: "length (or_at k b s) = length s"
  by (simp add: or_at_def)

lemma appendHpackString_length:
  assumes "length s < 2 ^ 58" "appendHpackString dst s = Ret out"
  shows "length out \<le> length dst + 11 + length s"
proof -
  obtain v where v: "AppendHuffmanString [] s = Ret v" using AppendHuffmanString_bits [of "[]" s] by blast
  then have len: "unat (HuffmanEncodeLength s) = length v"
    using enc_bits_le [of s] assms(1) by (intro HuffmanEncodeLength_eq) auto
  show ?thesis
    using assms(2) len AppendHuffmanString_append [OF v] appendVarInt_length [of dst 7 "HuffmanEncodeLength s"]
      appendVarInt_length [of dst 7 "word_of_nat (length s)"]
    by (auto simp: appendHpackString_def Let_def split: if_splits)
qed

lemma flush_length: "length (ebuf (flushSizeUpdate (e\<lparr>ebuf := []\<rparr>))) \<le> 22"
proof -
  have "length (appendTableSize [] v) \<le> 11" for v using appendVarInt_length [of "[]" 5 "ucast v"] by (simp add: appendTableSize_def)
  from this [of "minSize e"] this [of "maxSize (edynTab e)"]
  show ?thesis using appendTableSize_append [of "appendTableSize [] (minSize e)" "maxSize (edynTab e)"]
    by (simp add: flushSizeUpdate_def Let_def)
qed

lemma writeRepr_length:
  assumes "writeRepr e f = Ret e'" "length (Name f) < 2 ^ 58" "length (Value f) < 2 ^ 58"
  shows "length (ebuf e') \<le> length (ebuf e) + 33 + length (Name f) + length (Value f)"
proof -
  have nw: "length out \<le> length dst + 33 + length (Name f) + length (Value f)" if nw: "appendNewName dst f ix = Ret out" for dst ix out
  proof -
    obtain mid where m: "appendHpackString (dst @ [encodeTypeByte ix (Sensitive f)]) (Name f) = Ret mid" "appendHpackString mid (Value f) = Ret out"
      using nw by (auto simp: appendNewName_def go_bind_eq_Ret)
    then show ?thesis using appendHpackString_length [OF assms(2) m(1)] appendHpackString_length [OF assms(3) m(2)] by simp
  qed
  have ixd: "length out \<le> length dst + 33 + length (Name f) + length (Value f)" if "appendIndexedName dst f i ix = Ret out" for dst i ix out
    using appendHpackString_length [OF assms(3) that [unfolded appendIndexedName_def Let_def]]
      appendVarInt_length [of dst "if ix then 6 else 4" i] by simp
  have "length (appendIndexed dst i) \<le> length dst + 33 + length (Name f) + length (Value f)" for dst i
    using appendVarInt_length [of dst 7 i] by (simp add: appendIndexed_def)
  then show ?thesis
    using assms(1) nw ixd by (auto simp: writeRepr_def go_bind_eq_Ret Let_def split: if_splits)
qed

lemma encodeField_length:
  assumes "encodeField e f = Ret e'" "length (Name f) < 2 ^ 58" "length (Value f) < 2 ^ 58"
  shows "length (ebuf e') \<le> 55 + length (Name f) + length (Value f)"
  using writeRepr_length [OF assms(1) [unfolded encodeField_def] assms(2,3)] flush_length [of e] by simp

section \<open>One block through the codec\<close>

text \<open>The fields written one after the other into a buffer.\<close>

fun encode_block :: "Encoder \<Rightarrow> HeaderField list \<Rightarrow> (hpack_error, Encoder \<times> bytes) go" where
  "encode_block e [] = Ret (e, [])"
| "encode_block e (f # fs) =
     go_bind (encodeField e f) (\<lambda>e1. go_bind (encode_block e1 fs) (\<lambda>(e2, b). Ret (e2, ebuf e1 @ b)))"

definition header_size :: "HeaderField \<Rightarrow> nat" where
  "header_size f = length (Name f) + length (Value f) + 32"

lemma encode_block_length:
  "encode_block e fs = Ret (e', b) \<Longrightarrow> \<forall>f \<in> set fs. length (Name f) < 2 ^ 58 \<and> length (Value f) < 2 ^ 58 \<Longrightarrow>
   length b \<le> 2 * sum_list (map header_size fs)"
proof (induction fs arbitrary: e e' b)
  case (Cons f fs)
  obtain e1 b1 where s: "encodeField e f = Ret e1" "encode_block e1 fs = Ret (e', b1)" "b = ebuf e1 @ b1"
    using Cons.prems(1) by (auto simp: go_bind_eq_Ret)
  have "length b1 \<le> 2 * sum_list (map header_size fs)" using Cons.IH [OF s(2)] Cons.prems(2) by simp
  moreover have "length (ebuf e1) \<le> 55 + length (Name f) + length (Value f)" using encodeField_length [OF s(1)] Cons.prems(2) by simp
  moreover have "55 + length (Name f) + length (Value f) \<le> 2 * header_size f" by (simp add: header_size_def)
  ultimately show ?case unfolding s(3) by simp
qed simp

lemma block_ok:
  assumes "codec_sync (n + length fs) e d" "\<forall>f \<in> set fs. field_fits d f"
    "\<forall>k < length fs. emit d (emitted d @ take (Suc k) fs)"
  shows "\<exists>e' b. encode_block e fs = Ret (e', b) \<and> (fs \<noteq> [] \<longrightarrow> b \<noteq> []) \<and>
    (maxStrLen d = 0 \<or> int (length b) \<le> 2 * (maxStrLen d + varIntOverhead) \<longrightarrow>
     (\<exists>d'. outcome (Decoder_Write d b) = Ret (d', None) \<and> codec_sync n e' d' \<and> emitted d' = emitted d @ fs))"
  using assms
proof (induction fs arbitrary: e d)
  case Nil
  then show ?case by (simp add: Decoder_Write_def codec_sync_def tables_sync_def)
next
  case (Cons f fs)
  have "codec_sync (Suc (n + length fs)) e d" "field_fits d f" "emit d (emitted d @ [f])"
    using Cons.prems by (simp, simp) (use Cons.prems(3) in force)
  from send_ok [OF this] obtain e1 d1 where s: "encodeField e f = Ret e1"
      "Decoder_Write d (ebuf e1) = Ret (length (ebuf e1), d1, None)" "codec_sync (n + length fs) e1 d1"
      "emitted d1 = emitted d @ [f]" "maxStrLen d1 = maxStrLen d" "emit d1 = emit d"
    by blast
  have "ebuf e1 \<noteq> []" using s(2,4) by (auto simp: Decoder_Write_def)
  have "field_fits d1 g = field_fits d g" for g using s(5) by (simp add: field_fits_def str_fits_def)
  moreover have "\<forall>k < length fs. emit d1 (emitted d1 @ take (Suc k) fs)"
    using Cons.prems(3) s(4,6) by auto
  ultimately obtain e' b where ih: "encode_block e1 fs = Ret (e', b)"
    "maxStrLen d1 = 0 \<or> int (length b) \<le> 2 * (maxStrLen d1 + varIntOverhead) \<longrightarrow>
     (\<exists>d'. outcome (Decoder_Write d1 b) = Ret (d', None) \<and> codec_sync n e' d' \<and> emitted d' = emitted d1 @ fs)"
    using Cons.IH [OF s(3)] Cons.prems(2) by auto
  have "\<exists>d'. outcome (Decoder_Write d (ebuf e1 @ b)) = Ret (d', None) \<and> codec_sync n e' d' \<and> emitted d' = emitted d @ f # fs"
    if lim: "maxStrLen d = 0 \<or> int (length (ebuf e1 @ b)) \<le> 2 * (maxStrLen d + varIntOverhead)"
  proof -
    have "saveBuf d = []" using Cons.prems(1) by (simp add: codec_sync_def)
    then have "outcome (Decoder_Write d (ebuf e1 @ b)) = outcome (Decoder_Write d1 b)"
      using Write_split [of d "ebuf e1" b] lim s(2) by simp
    moreover have "maxStrLen d1 = 0 \<or> int (length b) \<le> 2 * (maxStrLen d1 + varIntOverhead)" using lim s(5) by auto
    ultimately show ?thesis using ih(2) s(4) by auto
  qed
  then show ?case using s(1) ih(1) \<open>ebuf e1 \<noteq> []\<close> by auto
qed

section \<open>One block through the framer\<close>

fun conts :: "u32 \<Rightarrow> bytes list \<Rightarrow> request list" where
  "conts sid [] = []"
| "conts sid (b # bs) = ReqContinuation sid (bs = []) b # conts sid bs"

text \<open>A block in fragments: a HEADERS frame with the first and a CONTINUATION frame for each of the others.\<close>

fun block_requests :: "HeadersFrameParam \<Rightarrow> bytes list \<Rightarrow> request list" where
  "block_requests p [] = []"
| "block_requests p (b # bs) = ReqHeaders (p\<lparr>hp_BlockFragment := b, hp_EndHeaders := (bs = [])\<rparr>) # conts (hp_StreamID p) bs"

lemma write_seq_wire:
  "write_seq w f qs = (b, f', None) \<Longrightarrow> \<not> AllowIllegalWrites f \<Longrightarrow>
   b = concat (map wire qs) \<and> (\<forall>q \<in> set qs. checked q \<and> length (req_payload q) < 2 ^ 24) \<and> \<not> AllowIllegalWrites f'"
proof (induction qs arbitrary: f b)
  case (Cons q qs)
  from Cons.prems(1) obtain g c where g: "do_write w f q = (g, None)" "write_seq w g qs = (c, f', None)" "b = wbuf g @ c"
    by (auto split: prod.splits option.splits)
  have "\<not> AllowIllegalWrites g" using do_write_framer [OF g(1)] Cons.prems(2) by simp
  then show ?case using Cons.IH [OF g(2)] do_write_wire [OF g(1) Cons.prems(2)] g(3) by simp
qed simp

lemma HeadersEnded_cont: "HeadersEnded (frame_of (ReqContinuation sid e b)) = e"
  by (simp add: req_header_def Has_def FlagContinuationEndHeaders_def)

lemma meta_loop_frames:
  assumes "HeaderBlockFragment hc = (Ret b :: ('w frame_error, bytes) go)" "HeadersEnded hc \<longleftrightarrow> bs = []"
    "outcome (Decoder_Write d (b @ concat bs)) = Ret (d', None)"
    "maxStrLen d = 0 \<or> int (length (saveBuf d) + length b + length (concat bs)) \<le> 2 * (maxStrLen d + varIntOverhead)"
    "lastHeaderStream fr = (if bs = [] then 0 else sid)" "\<not> AllowIllegalReads fr" "maxReadSize fr = maxFrameSize"
    "\<forall>q \<in> set (conts sid bs). checked q \<and> length (req_payload q) < 2 ^ 24"
  shows "\<exists>fr' d2. meta_loop fr d hf hc (concat (map wire (conts sid bs)) @ rest) = (meta_finish fr' d2 hf rest :: 'w meta_result) \<and>
    d2\<lparr>dbuf := []\<rparr> = d' \<and> lastHeaderStream fr' = 0 \<and> AllowIllegalReads fr' = AllowIllegalReads fr \<and>
    maxReadSize fr' = maxReadSize fr \<and> MaxHeaderListSize fr' = MaxHeaderListSize fr"
  using assms
proof (induction bs arbitrary: b d fr hc)
  case Nil
  obtain k d2 where "Decoder_Write d b = Ret (k, d2, None)" "d2\<lparr>dbuf := []\<rparr> = d'"
    using Nil.prems(3) by (cases "Decoder_Write d b") auto
  then show ?case using Nil.prems
    by (intro exI [of _ fr] exI [of _ d2]) (simp add: meta_loop.simps [of fr d hf hc])
next
  case (Cons c bs)
  have lim: "maxStrLen d = 0 \<or> int (length (saveBuf d) + length b + length (concat (c # bs))) \<le> 2 * (maxStrLen d + varIntOverhead)"
    using Cons.prems(4) .
  have sp: "outcome (then_write (Decoder_Write d b) (c @ concat bs)) = Ret (d', None)"
    using Write_split [OF lim] Cons.prems(3) by simp
  obtain k d1 where w: "Decoder_Write d b = Ret (k, d1, None)" "outcome (Decoder_Write d1 (c @ concat bs)) = Ret (d', None)"
    using sp by (cases "(Decoder_Write d b, c @ concat bs)" rule: then_write.cases) auto
  let ?q = "ReqContinuation sid (bs = []) c"
  let ?fr = "(fresh fr)\<lparr>lastFrame := Some (frame_of ?q), lastHeaderStream := block_after ?q\<rparr>"
  let ?in = "concat (map wire (conts sid bs)) @ rest"
  have q: "checked ?q" "length (req_payload ?q) < 2 ^ 24" "readable ?q" using Cons.prems(8) by simp_all
  have "checkFrameOrder (fresh fr) (frame_of ?q) = (?fr, None :: 'w frame_error option)"
    using Cons.prems(5,6) q(1) by (intro order_step) (auto simp: fresh_def)
  then have rd: "ReadFrame fr (wire ?q @ ?in) = (Ret (?fr, ?in, Inr (frame_of ?q)) :: ('w frame_error, _) go)"
    by (simp only: ReadFrame_wire [OF q(1,3,2) Cons.prems(7)] prod.case option.case)
  have fb: "HeaderBlockFragment (frame_of ?q) = (Ret c :: ('w frame_error, bytes) go)" by (simp add: checkValid_def req_header_def)
  have step: "meta_loop fr d hf hc (wire ?q @ ?in) = (meta_loop ?fr d1 hf (frame_of ?q) ?in :: 'w meta_result)"
    using Cons.prems(1,2) w(1) rd by (simp add: meta_loop.simps [of fr d hf hc] req_header_def frame_types)
  have "\<exists>fr' d2. meta_loop ?fr d1 hf (frame_of ?q) ?in = (meta_finish fr' d2 hf rest :: 'w meta_result) \<and>
    d2\<lparr>dbuf := []\<rparr> = d' \<and> lastHeaderStream fr' = 0 \<and> AllowIllegalReads fr' = AllowIllegalReads ?fr \<and>
    maxReadSize fr' = maxReadSize ?fr \<and> MaxHeaderListSize fr' = MaxHeaderListSize ?fr"
  proof (rule Cons.IH [OF fb HeadersEnded_cont w(2)])
    show "maxStrLen d1 = 0 \<or> int (length (saveBuf d1) + length c + length (concat bs)) \<le> 2 * (maxStrLen d1 + varIntOverhead)"
      using lim Write_keeps(1,3) [OF w(1)] by auto
    show "lastHeaderStream ?fr = (if bs = [] then 0 else sid)" by simp
    show "\<not> AllowIllegalReads ?fr" "maxReadSize ?fr = maxFrameSize" using Cons.prems(6,7) by (simp_all add: fresh_def)
    show "\<forall>q \<in> set (conts sid bs). checked q \<and> length (req_payload q) < 2 ^ 24" using Cons.prems(8) by simp
  qed
  then show ?case using step by (simp add: fresh_def)
qed

section \<open>One block from end to end\<close>

text \<open>What the sender must respect: RFC 7540, section 8.1.2, and the reader's limit on the list.\<close>

definition header_list_ok :: "u32 \<Rightarrow> HeaderField list \<Rightarrow> bool" where
  "header_list_ok lim fs \<longleftrightarrow> fs \<noteq> [] \<and> fields_ok fs \<and> pseudos_ok (PseudoFields_loop fs) \<and>
     sum_list (map header_size fs) \<le> unat lim"

lemma header_size_le: "f \<in> set fs \<Longrightarrow> header_size f \<le> sum_list (map header_size fs)"
  by (induction fs) auto

lemma list_size_header_size:
  assumes "sum_list (map header_size fs) \<le> unat (lim :: u32)"
  shows "list_size fs = sum_list (map header_size fs)"
  using assms
proof (induction fs)
  case (Cons f fs)
  have "unat lim < 2 ^ 32" using unsigned_less [of lim, where ?'a = nat] by simp
  then have "header_size f < 2 ^ 32" using Cons.prems by simp
  then have "unat (Size f) = header_size f" by (simp add: Size_def header_size_def [symmetric] unat_of_nat)
  then show ?case using Cons by (simp add: list_size_def)
qed (simp add: list_size_def)

lemma maxHeaderStringLen_eq: "maxHeaderStringLen fr = int (unat (maxHeaderListSize fr))"
  by (simp add: maxHeaderStringLen_def Let_def)

lemma fits_bound:
  "a \<le> m \<Longrightarrow> m < 2 ^ 32 \<Longrightarrow> a < 2 ^ 58 \<and> (int m = 0 \<or> int a \<le> int m \<and> int m < 2 ^ 63)" for a m :: nat
  by auto

lemma block_bound: "a \<le> 2 * m \<Longrightarrow> int m = 0 \<or> int a \<le> 2 * (int m + 8)" for a m :: nat
  by simp

lemma fields_ok_take: "fields_ok fs \<Longrightarrow> fields_ok (take k fs)"
proof (induction fs rule: rev_induct)
  case (snoc f fs)
  then show ?case using fields_ok_butlast(1) [OF snoc.prems] by (cases "k \<le> length fs") simp_all
qed simp

lemma meta_decoder_simps [simp]:
  "emitted (meta_decoder fr d) = []" "maxStrLen (meta_decoder fr d) = maxHeaderStringLen fr" "saveBuf (meta_decoder fr d) = saveBuf d"
  "emit (meta_decoder fr d) = (\<lambda>calls. meta_on (meta_after fr calls))"
  by (simp_all add: meta_decoder_def SetEmitFunc_def SetMaxStringLength_def SetEmitEnabled_def)

lemma codec_sync_meta: "codec_sync n e d \<Longrightarrow> codec_sync n e (meta_decoder fr d)"
  by (simp add: meta_decoder_def SetEmitFunc_def SetMaxStringLength_def SetEmitEnabled_def codec_sync_def tables_sync_def)

lemma codec_sync_drop: "codec_sync n e (d\<lparr>dbuf := x\<rparr>) \<Longrightarrow> codec_sync n e (drop_emit d)"
  by (auto simp: drop_emit_def SetEmitFunc_def codec_sync_def tables_sync_def split: if_splits)

lemma header_list_fits:
  assumes "header_list_ok (maxHeaderListSize fr) fs"
  shows "\<forall>f \<in> set fs. field_fits (meta_decoder fr d) f" "\<forall>f \<in> set fs. length (Name f) < 2 ^ 58 \<and> length (Value f) < 2 ^ 58"
    "\<forall>k < length fs. emit (meta_decoder fr d) (emitted (meta_decoder fr d) @ take (Suc k) fs)"
    "meta_on (meta_after fr fs)" "Fields (meta_after fr fs) = fs"
proof -
  let ?lim = "maxHeaderListSize fr"
  have ok: "fields_ok fs" "sum_list (map header_size fs) \<le> unat ?lim" using assms by (simp_all add: header_list_ok_def)
  have lim: "unat ?lim < 2 ^ 32" using unsigned_less [of ?lim, where ?'a = nat] by simp
  have len: "length (Name f) \<le> unat ?lim" "length (Value f) \<le> unat ?lim" if "f \<in> set fs" for f
    using header_size_le [OF that] ok(2) by (simp_all add: header_size_def)
  then show small: "\<forall>f \<in> set fs. length (Name f) < 2 ^ 58 \<and> length (Value f) < 2 ^ 58" using lim by fastforce
  show "\<forall>f \<in> set fs. field_fits (meta_decoder fr d) f"
    unfolding field_fits_def str_fits_def meta_decoder_simps maxHeaderStringLen_eq using fits_bound [OF _ lim] len by blast
  have sz: "list_size fs \<le> unat ?lim" using list_size_header_size [OF ok(2)] ok(2) by simp
  moreover have "list_size (take k fs) \<le> list_size fs" for k
  proof -
    have "list_size fs = list_size (take k fs) + list_size (drop k fs)"
      unfolding list_size_def by (metis append_take_drop_id map_append sum_list_append)
    then show ?thesis by simp
  qed
  ultimately have "list_size (take k fs) \<le> unat ?lim" for k using le_trans by blast
  then show "\<forall>k < length fs. emit (meta_decoder fr d) (emitted (meta_decoder fr d) @ take (Suc k) fs)"
    using meta_accepts [OF fields_ok_take [OF ok(1)]] by simp
  show "meta_on (meta_after fr fs)" "Fields (meta_after fr fs) = fs" using meta_accepts [OF ok(1) sz] by simp_all
qed

lemma one_block:
  assumes "codec_sync (n + length fs) e d" "header_list_ok (maxHeaderListSize fr) fs" "encode_block e fs = Ret (e', concat (b # bs))" "b \<noteq> []"
    "\<forall>q \<in> set (block_requests p (b # bs)). checked q \<and> length (req_payload q) < 2 ^ 24"
    "lastHeaderStream fr = 0" "\<not> AllowIllegalReads fr" "maxReadSize fr = maxFrameSize"
  shows "\<exists>fr' d' mh. ReadFrame_meta fr d (concat (map wire (block_requests p (b # bs))) @ rest) =
      (Ret (fr', d', rest, Inr (Inr mh)) :: ('w frame_error, _) go) \<and>
    mh_Fields mh = fs \<and> \<not> mh_Truncated mh \<and> StreamID (Header (mh_HeadersFrame mh)) = hp_StreamID p \<and>
    StreamEnded (mh_HeadersFrame mh) = hp_EndStream p \<and> codec_sync n e' d' \<and>
    lastHeaderStream fr' = 0 \<and> \<not> AllowIllegalReads fr' \<and> maxReadSize fr' = maxFrameSize \<and> MaxHeaderListSize fr' = MaxHeaderListSize fr"
proof -
  let ?p = "p\<lparr>hp_BlockFragment := b, hp_EndHeaders := (bs = [])\<rparr>"
  let ?q = "ReqHeaders ?p"
  let ?in = "concat (map wire (conts (hp_StreamID p) bs)) @ rest"
  define fr1 where "fr1 = (fresh fr)\<lparr>lastFrame := Some (frame_of ?q), lastHeaderStream := block_after ?q\<rparr>"
  have f1: "lastHeaderStream fr1 = (if bs = [] then 0 else hp_StreamID p)" "\<not> AllowIllegalReads fr1" "maxReadSize fr1 = maxFrameSize"
    "MaxHeaderListSize fr1 = MaxHeaderListSize fr"
    using assms(7,8) by (simp_all add: fr1_def fresh_def)
  have q: "checked ?q" "length (req_payload ?q) < 2 ^ 24" "readable ?q" using assms(4,5) by auto
  have "checkFrameOrder (fresh fr) (frame_of ?q) = (fr1, None :: 'w frame_error option)"
    unfolding fr1_def using assms(6,7) q(1) by (intro order_step) (auto simp: fresh_def)
  then have rd: "ReadFrame fr (wire ?q @ ?in) = (Ret (fr1, ?in, Inr (frame_of ?q)) :: ('w frame_error, _) go)"
    by (simp only: ReadFrame_wire [OF q(1,3,2) assms(8)] prod.case option.case)
  have lim1: "maxHeaderListSize fr1 = maxHeaderListSize fr" using f1(4) by (simp add: maxHeaderListSize_def)
  let ?d = "meta_decoder fr1 d"
  note fit = header_list_fits [of fr1 fs, unfolded lim1, OF assms(2)]
  have len: "length (concat (b # bs)) \<le> 2 * unat (maxHeaderListSize fr)"
    using encode_block_length [OF assms(3) fit(2)] assms(2) by (simp add: header_list_ok_def)
  then have room: "maxStrLen ?d = 0 \<or> int (length (concat (b # bs))) \<le> 2 * (maxStrLen ?d + varIntOverhead)"
    unfolding meta_decoder_simps maxHeaderStringLen_eq lim1 varIntOverhead_def by (rule block_bound)
  obtain d1 where d1: "outcome (Decoder_Write ?d (concat (b # bs))) = Ret (d1, None)" "codec_sync n e' d1" "emitted d1 = fs"
    using block_ok [OF codec_sync_meta [OF assms(1)] fit(1,3)] assms(3) room by auto
  have sv: "saveBuf d = []" using assms(1) by (simp add: codec_sync_def)
  obtain fr2 d2 where l: "meta_loop fr1 ?d (frame_of ?q) (frame_of ?q) ?in = (meta_finish fr2 d2 (frame_of ?q) rest :: 'w meta_result)"
    "d2\<lparr>dbuf := []\<rparr> = d1" "lastHeaderStream fr2 = 0" "AllowIllegalReads fr2 = AllowIllegalReads fr1"
    "maxReadSize fr2 = maxReadSize fr1" "MaxHeaderListSize fr2 = MaxHeaderListSize fr1"
  proof -
    have "\<exists>fr' d2. meta_loop fr1 ?d (frame_of ?q) (frame_of ?q) ?in = (meta_finish fr' d2 (frame_of ?q) rest :: 'w meta_result) \<and>
      d2\<lparr>dbuf := []\<rparr> = d1 \<and> lastHeaderStream fr' = 0 \<and> AllowIllegalReads fr' = AllowIllegalReads fr1 \<and>
      maxReadSize fr' = maxReadSize fr1 \<and> MaxHeaderListSize fr' = MaxHeaderListSize fr1"
    proof (rule meta_loop_frames)
      show "HeaderBlockFragment (frame_of ?q) = (Ret b :: ('w frame_error, bytes) go)" by (simp add: checkValid_def req_header_def)
      show "HeadersEnded (frame_of ?q) \<longleftrightarrow> bs = []" by (simp only: frame_of.simps HeadersEnded.simps req_header_def FrameHeader.simps headers_flags) simp
      show "outcome (Decoder_Write ?d (b @ concat bs)) = Ret (d1, None)" using d1(1) by simp
      show "maxStrLen ?d = 0 \<or> int (length (saveBuf ?d) + length b + length (concat bs)) \<le> 2 * (maxStrLen ?d + varIntOverhead)"
        using room sv by simp
      show "\<forall>q \<in> set (conts (hp_StreamID p) bs). checked q \<and> length (req_payload q) < 2 ^ 24" using assms(5) by simp
    qed (use f1 in simp_all)
    then show ?thesis using that by blast
  qed
  have d2: "emitted d2 = fs" "saveBuf d2 = []"
    using d1(2,3) l(2) by (auto simp: codec_sync_def)
  have lim2: "maxHeaderListSize fr2 = maxHeaderListSize fr" using l(6) f1(4) by (simp add: maxHeaderListSize_def)
  note fit2 = header_list_fits [of fr2 fs, unfolded lim2, OF assms(2)]
  let ?mh = "\<lparr>mh_HeadersFrame = map_header invalidate (clear_fragment (frame_of ?q)), mh_Fields = fs, mh_Truncated = False\<rparr>"
  have "checkPseudos ?mh = None"
    using assms(2) checkPseudos_ok by (simp add: checkPseudos_def PseudoFields_def header_list_ok_def)
  then have fin: "meta_finish fr2 d2 (frame_of ?q) rest = (Ret (fr2, drop_emit d2, rest, Inr ?mh) :: 'w meta_result)"
    using fit2(4,5) d2 by (simp add: meta_finish_def Let_def Decoder_Close_def meta_on_def)
  have "ReadFrame_meta fr d (wire ?q @ ?in) = (Ret (fr2, drop_emit d2, rest, Inr (Inr ?mh)) :: ('w frame_error, _) go)"
    using rd l(1) fin f1(2) by (simp add: ReadFrame_meta_def readMetaFrame_def req_header_def)
  moreover have "codec_sync n e' (drop_emit d2)" using codec_sync_drop d1(2) l(2) by blast
  moreover have "StreamID (Header (mh_HeadersFrame ?mh)) = hp_StreamID p" "StreamEnded (mh_HeadersFrame ?mh) = hp_EndStream p"
    by (simp_all only: MetaHeadersFrame.simps frame_of.simps clear_fragment.simps map_header.simps Header.simps StreamEnded.simps
        req_header_def invalidate_def FrameHeader.simps headers_flags) simp_all
  ultimately show ?thesis using l(3-6) f1 by simp
qed

section \<open>Connections\<close>

text \<open>
  A connection: each step encodes a header list, cuts the block into fragments and writes it as a HEADERS
  frame with its CONTINUATION frames. The output of all steps is one stream of bytes.
\<close>

type_synonym message = "HeadersFrameParam \<times> HeaderField list \<times> nat list"

text \<open>The fragments: the lengths at which the block is cut; what is left is the last fragment.\<close>

fun fragments :: "nat list \<Rightarrow> bytes \<Rightarrow> bytes list" where
  "fragments [] b = [b]"
| "fragments (n # ns) b = take n b # fragments ns (drop n b)"

fun send_lists :: "'w writer \<Rightarrow> Framer \<Rightarrow> Encoder \<Rightarrow> message list \<Rightarrow> (hpack_error, bytes \<times> 'w frame_error option) go" where
  "send_lists w f e [] = Ret ([], None)"
| "send_lists w f e ((p, fs, ns) # ms) =
     go_bind (encode_block e fs) (\<lambda>(e, b).
       case write_seq w f (block_requests p (fragments ns b)) of
         (out, f, Some err) \<Rightarrow> Ret (out, Some err)
       | (out, f, None) \<Rightarrow> go_bind (send_lists w f e ms) (\<lambda>(rest, err). Ret (out @ rest, err)))"

fun receive_lists :: "nat \<Rightarrow> Framer \<Rightarrow> Decoder \<Rightarrow> bytes \<Rightarrow>
    ('w frame_error, ('w frame_error + (frame + MetaHeadersFrame)) list \<times> bytes) go" where
  "receive_lists 0 fr d r = Ret ([], r)"
| "receive_lists (Suc k) fr d r =
     go_bind (ReadFrame_meta fr d r) (\<lambda>(fr, d, r, x).
       go_bind (receive_lists k fr d r) (\<lambda>(xs, r). Ret (x # xs, r)))"

definition received :: "message \<Rightarrow> 'w frame_error + (frame + MetaHeadersFrame) \<Rightarrow> bool" where
  "received = (\<lambda>(p, fs, ns) x. \<exists>mh. x = Inr (Inr mh) \<and> mh_Fields mh = fs \<and> \<not> mh_Truncated mh \<and>
     StreamID (Header (mh_HeadersFrame mh)) = hp_StreamID p \<and> StreamEnded (mh_HeadersFrame mh) = hp_EndStream p)"

definition message_ok :: "u32 \<Rightarrow> message \<Rightarrow> bool" where
  "message_ok lim = (\<lambda>(p, fs, ns). header_list_ok lim fs \<and> (\<forall>n \<in> set ns. 0 < n))"

lemma concat_fragments: "concat (fragments ns b) = b"
  by (induction ns b rule: fragments.induct) simp_all

lemma fragments_first:
  assumes "b \<noteq> []" "\<forall>n \<in> set ns. 0 < n"
  shows "\<exists>c cs. fragments ns b = c # cs \<and> c \<noteq> []"
  using assms by (cases ns) auto

lemma send_receive:
  assumes "codec_sync (sum_list (map (\<lambda>(p, fs, ns). length fs) ms)) e d" "list_all (message_ok (maxHeaderListSize fr)) ms"
    "send_lists w f e ms = Ret (out, None)" "\<not> AllowIllegalWrites f"
    "lastHeaderStream fr = 0" "\<not> AllowIllegalReads fr" "maxReadSize fr = maxFrameSize"
  shows "\<exists>xs. receive_lists (length ms) fr d (out @ rest) = (Ret (xs, rest) :: ('v frame_error, _) go) \<and> list_all2 received ms xs"
  using assms
proof (induction ms arbitrary: e d f fr out)
  case (Cons m ms)
  obtain p fs ns where m: "m = (p, fs, ns)" by (cases m) auto
  let ?n = "sum_list (map (\<lambda>(p, fs, ns). length fs) ms)"
  have ok: "header_list_ok (maxHeaderListSize fr) fs" "\<forall>n \<in> set ns. 0 < n" "codec_sync (?n + length fs) e d"
    using Cons.prems(1,2) m by (simp_all add: message_ok_def add.commute)
  obtain e1 b out1 f1 out2 where s: "encode_block e fs = Ret (e1, b)" "write_seq w f (block_requests p (fragments ns b)) = (out1, f1, None)"
    "send_lists w f1 e1 ms = Ret (out2, None)" "out = out1 @ out2"
  proof -
    obtain e1 b where e: "encode_block e fs = Ret (e1, b)" using Cons.prems(3) m by (auto simp: go_bind_eq_Ret)
    obtain out1 f1 x where w: "write_seq w f (block_requests p (fragments ns b)) = (out1, f1, x)" by (metis prod_cases3)
    show ?thesis using that [OF e, of out1 f1] Cons.prems(3) m e w by (cases x) (auto simp: go_bind_eq_Ret)
  qed
  have "b \<noteq> []" using block_ok [OF codec_sync_meta [OF ok(3), of fr] header_list_fits(1,3) [OF ok(1)]] s(1) ok(1)
    by (auto simp: header_list_ok_def)
  then obtain c cs where c: "fragments ns b = c # cs" "c \<noteq> []" using fragments_first ok(2) by blast
  note wr = write_seq_wire [OF s(2) Cons.prems(4)]
  have "encode_block e fs = Ret (e1, concat (c # cs))" using s(1) concat_fragments [of ns b] c(1) by simp
  from one_block [OF ok(3,1) this c(2) _ Cons.prems(5-7), of p "out2 @ rest", where 'w = 'v] wr c(1)
  obtain fr' d' mh where r: "ReadFrame_meta fr d (out1 @ out2 @ rest) = (Ret (fr', d', out2 @ rest, Inr (Inr mh)) :: ('v frame_error, _) go)"
    "mh_Fields mh = fs" "\<not> mh_Truncated mh" "StreamID (Header (mh_HeadersFrame mh)) = hp_StreamID p"
    "StreamEnded (mh_HeadersFrame mh) = hp_EndStream p" "codec_sync ?n e1 d'"
    "lastHeaderStream fr' = 0" "\<not> AllowIllegalReads fr'" "maxReadSize fr' = maxFrameSize" "MaxHeaderListSize fr' = MaxHeaderListSize fr"
    by auto
  have "maxHeaderListSize fr' = maxHeaderListSize fr" using r(10) by (simp add: maxHeaderListSize_def)
  then have "list_all (message_ok (maxHeaderListSize fr')) ms" using Cons.prems(2) by simp
  from Cons.IH [OF r(6) this s(3) _ r(7-9)] wr obtain xs where
    "receive_lists (length ms) fr' d' (out2 @ rest) = (Ret (xs, rest) :: ('v frame_error, _) go)" "list_all2 received ms xs" by blast
  then show ?case using r(1-5) s(4) m by (auto simp: received_def)
qed simp

text \<open>C2: Header lists survive the whole way down and up. Any sequence of header lists that respect RFC 7540 and
  the reader's size limit, each encoded by one HPACK encoder, cut into fragments anywhere, and written by a
  framer as a HEADERS frame with CONTINUATION frames (with any padding, priority and stream that the write
  methods accept), is read back from the concatenated bytes, one \<open>ReadFrame\<close> call for each list, as exactly those
  field lists, untruncated, on the right streams with the right end-of-stream flags, and with nothing left.\<close>

theorem header_lists_roundtrip:
  assumes "NewEncoder = Ret e" "NewDecoder v = Ret d" "initialHeaderTableSize \<le> v"
    "fr = NewFramer\<lparr>MaxHeaderListSize := lim\<rparr>" "list_all (message_ok (maxHeaderListSize fr)) ms"
    "sum_list (map (\<lambda>(p, fs, ns). length fs) ms) < 2 ^ 62" "send_lists w NewFramer e ms = Ret (out, None)"
  shows "\<exists>xs. receive_lists (length ms) fr d out = (Ret (xs, []) :: ('v frame_error, _) go) \<and> list_all2 received ms xs"
proof -
  have "codec_sync (sum_list (map (\<lambda>(p, fs, ns). length fs) ms)) e d" using assms(1-3,6) by (intro new_codec_sync)
  moreover have "\<not> AllowIllegalWrites NewFramer" by (simp add: NewFramer_def SetMaxReadFrameSize_def)
  moreover have "lastHeaderStream fr = 0" "\<not> AllowIllegalReads fr" "maxReadSize fr = maxFrameSize"
    by (simp_all add: assms(4) NewFramer_def SetMaxReadFrameSize_def)
  ultimately show ?thesis using send_receive [where rest = "[]" and 'v = 'v, OF _ assms(5,7)] by simp
qed

lemma accept_headers:
  assumes "hp_StreamID p = 1" "hp_PadLength p = 0" "hp_Priority p = zero_priority" "length (hp_BlockFragment p) < 2 ^ 24"
  shows "\<exists>f'. do_write accept_writer f (ReqHeaders p) = (f', None)"
  using assms
  by (auto simp: WriteHeaders_def validStreamID_def IsZero_def startWrite_def endWrite_def write_defs write_all_def accept_writer_def
      frameHeaderLen_def Let_def)

lemma accept_continuation:
  assumes "length b < 2 ^ 24"
  shows "\<exists>f'. do_write accept_writer f (ReqContinuation 1 e b) = (f', None)"
  using assms
  by (auto simp: WriteContinuation_def validStreamID_def startWrite_def endWrite_def write_defs write_all_def accept_writer_def
      frameHeaderLen_def Let_def)

definition example_params :: HeadersFrameParam where
  "example_params = \<lparr>hp_StreamID = 1, hp_BlockFragment = [], hp_EndStream = True, hp_EndHeaders = False,
     hp_PadLength = 0, hp_Priority = zero_priority\<rparr>"

definition example_list :: "HeaderField list" where
  "example_list = [\<lparr>Name = bytes_of '':method'', Value = bytes_of ''GET'', Sensitive = False\<rparr>,
     \<lparr>Name = bytes_of ''cookie'', Value = bytes_of ''a=b'', Sensitive = True\<rparr>]"

lemma example_list_ok: "header_list_ok 1000 example_list"
proof -
  obtain f g where fg: "example_list = [f] @ [g]" and f: "Name f = bytes_of '':method''" "Value f = bytes_of ''GET''"
    and g: "Name g = bytes_of ''cookie''" "Value g = bytes_of ''a=b''"
    by (simp add: example_list_def)
  have ps: "IsPseudo f" "\<not> IsPseudo g" by (simp_all add: IsPseudo_def f g bytes_of_def)
  have "validWireHeaderFieldName (Name g)"
    by (simp add: wire_name_chars g bytes_of_def tchar_def DIGIT_def UPPER_def LOWER_def)
  moreover have "ValidHeaderFieldValue (Value f)" "ValidHeaderFieldValue (Value g)"
    by (simp_all add: ValidHeaderFieldValue_def isCTL_def isLWS_def f g bytes_of_def)
  ultimately have "fields_ok example_list"
    unfolding fields_ok_def fg using ps by (intro conjI exI [of _ "[f]"] exI [of _ "[g]"]) simp_all
  moreover have "pseudos_ok (PseudoFields_loop example_list)"
    using ps by (simp add: fg pseudos_ok_def request_pseudos_def f)
  moreover have "header_size f = 42" "header_size g = 41" by (simp_all add: header_size_def f g bytes_of_def)
  ultimately show ?thesis by (simp add: header_list_ok_def fg)
qed

theorem header_lists_roundtrip_witness:
  "\<exists>e d out xs. NewEncoder = Ret e \<and> NewDecoder 4096 = Ret d \<and>
     send_lists accept_writer NewFramer e [(example_params, example_list, [3])] = Ret (out, None) \<and>
     receive_lists 1 (NewFramer\<lparr>MaxHeaderListSize := 1000\<rparr>) d out = (Ret (xs, []) :: (unit frame_error, _) go) \<and>
     list_all2 received [(example_params, example_list, [3])] xs"
proof -
  define fr where "fr = NewFramer\<lparr>MaxHeaderListSize := 1000\<rparr>"
  have lim: "maxHeaderListSize fr = 1000" by (simp add: fr_def maxHeaderListSize_def)
  have two: "length example_list = 2" by (simp add: example_list_def)
  obtain e d where n: "NewEncoder = Ret e" "NewDecoder 4096 = Ret d" using new_example by blast
  have sync: "codec_sync (0 + length example_list) e d"
    using new_codec_sync [OF _ n] two by (simp add: initialHeaderTableSize_def)
  note ok = example_list_ok [folded lim]
  obtain e1 b where b: "encode_block e example_list = Ret (e1, b)"
    using block_ok [OF codec_sync_meta [OF sync, of fr] header_list_fits(1,3) [OF ok]] by blast
  have "length b \<le> 2 * 1000"
    using encode_block_length [OF b header_list_fits(2) [OF ok]] example_list_ok by (simp add: header_list_ok_def)
  then have "length (take 3 b) < 2 ^ 24" "length (drop 3 b) < 2 ^ 24" by simp_all
  then have c: "\<exists>f'. do_write accept_writer f (ReqContinuation 1 True (drop 3 b)) = (f', None)" for f by (intro accept_continuation)
  have "\<exists>f'. do_write accept_writer NewFramer (ReqHeaders (example_params\<lparr>hp_BlockFragment := take 3 b, hp_EndHeaders := False\<rparr>)) = (f', None)"
    using \<open>length (take 3 b) < 2 ^ 24\<close> by (intro accept_headers) (simp_all add: example_params_def)
  then obtain f1 where h: "do_write accept_writer NewFramer
      (ReqHeaders (example_params\<lparr>hp_BlockFragment := take 3 b, hp_EndHeaders := False\<rparr>)) = (f1, None)" by blast
  obtain f2 where "do_write accept_writer f1 (ReqContinuation 1 True (drop 3 b)) = (f2, None)" using c by blast
  with h obtain out where out: "send_lists accept_writer NewFramer e [(example_params, example_list, [3])] = Ret (out, None)"
    using b by (simp del: do_write.simps add: example_params_def)
  have "message_ok (maxHeaderListSize fr) (example_params, example_list, [3])" using ok by (simp add: message_ok_def)
  then have "list_all (message_ok (maxHeaderListSize fr)) [(example_params, example_list, [3])]" by simp
  note rt = header_lists_roundtrip [OF n _ fr_def this _ out, where 'v = unit]
  have "length [(example_params, example_list, [3 :: nat])] = 1" "initialHeaderTableSize \<le> 4096"
    "sum_list (map (\<lambda>(p, fs, ns). length fs) [(example_params, example_list, [3 :: nat])]) < 2 ^ 62"
    using two by (simp_all add: initialHeaderTableSize_def)
  with rt obtain xs where "receive_lists 1 fr d out = (Ret (xs, []) :: (unit frame_error, _) go)"
    "list_all2 received [(example_params, example_list, [3])] xs" by (simp only: simp_thms) blast
  then show ?thesis using n out unfolding fr_def by blast
qed

end
