(* ===== verification/Http2_Flow.thy ===== *)
theory Http2_Flow
  imports Go_Prelude
begin

text \<open>
  Flow-control windows (golang.org/x/net/http2/flow.go). The flow of a stream points to the flow of
  its connection, which all the streams share, so the flows live in a store. Windows are signed 32-bit
  integers: their words wrap, \<open>sint\<close> reads them.
\<close>

type_synonym flow_addr = nat

record flow =
  flow_n :: "32 word"
  flow_conn :: "flow_addr option"

type_synonym flows = "flow_addr \<Rightarrow> flow"

abbreviation window :: "flows \<Rightarrow> flow_addr \<Rightarrow> int" where
  "window h f \<equiv> sint (flow_n (h f))"

definition setConnFlow :: "flows \<Rightarrow> flow_addr \<Rightarrow> flow_addr option \<Rightarrow> flows" where
  "setConnFlow h f cf = h(f := (h f)\<lparr>flow_conn := cf\<rparr>)"

definition available :: "flows \<Rightarrow> flow_addr \<Rightarrow> 32 word" where
  "available h f =
     (let k = flow_n (h f)
      in case flow_conn (h f) of
           Some c \<Rightarrow> if sint (flow_n (h c)) < sint k then flow_n (h c) else k
         | None \<Rightarrow> k)"

definition sub_n :: "flows \<Rightarrow> flow_addr \<Rightarrow> 32 word \<Rightarrow> flows" where
  "sub_n h f k = h(f := (h f)\<lparr>flow_n := flow_n (h f) - k\<rparr>)"

definition flow_take :: "flows \<Rightarrow> flow_addr \<Rightarrow> 32 word \<Rightarrow> (unit, flows) go" where
  "flow_take h f k =
     (if sint k > sint (available h f) then Panic
      else let h = sub_n h f k
           in case flow_conn (h f) of
                Some c \<Rightarrow> Ret (sub_n h c k)
              | None \<Rightarrow> Ret h)"

definition flow_add :: "flows \<Rightarrow> flow_addr \<Rightarrow> 32 word \<Rightarrow> flows \<times> bool" where
  "flow_add h f k =
     (let remain = 0x7fffffff - flow_n (h f)
      in if sint k > sint remain then (h, False)
         else (h(f := (h f)\<lparr>flow_n := flow_n (h f) + k\<rparr>), True))"

section \<open>Signed arithmetic without wrap-around\<close>

lemma sint_u32_bounds: "- (2 ^ 31) \<le> sint (x :: 32 word)" "sint (x :: 32 word) < 2 ^ 31"
  using sint_ge [of x] sint_lt [of x] by simp_all

lemma sint_word_of_int: "- (2 ^ 31) \<le> i \<Longrightarrow> i < 2 ^ 31 \<Longrightarrow> sint (word_of_int i :: 32 word) = i"
  by (simp add: sint_sbintrunc' signed_take_bit_int_eq_self)

lemma sint_add_exact:
  assumes "- (2 ^ 31) \<le> sint (x :: 32 word) + sint y" "sint x + sint y < 2 ^ 31"
  shows "sint (x + y) = sint x + sint y"
proof -
  have "x + y = word_of_int (sint x + sint y)" by simp
  then show ?thesis using sint_word_of_int [OF assms] by simp
qed

lemma sint_sub_exact:
  assumes "- (2 ^ 31) \<le> sint (x :: 32 word) - sint y" "sint x - sint y < 2 ^ 31"
  shows "sint (x - y) = sint x - sint y"
proof -
  have "x - y = word_of_int (sint x - sint y)" by simp
  then show ?thesis using sint_word_of_int [OF assms] by simp
qed

lemma sint_max: "sint (0x7fffffff :: 32 word) = 2 ^ 31 - 1"
  by simp

lemma sint_remain: "0 \<le> sint k \<Longrightarrow> sint (0x7fffffff - k :: 32 word) = 2 ^ 31 - 1 - sint k"
  using sint_sub_exact [of "0x7fffffff" k] sint_u32_bounds [of k] by simp

lemma sint_remain_negative:
  assumes "sint k < 0"
  shows "sint (0x7fffffff - k :: 32 word) = - (2 ^ 31) - 1 - sint k"
proof -
  have "word_of_int (2 ^ 32) = (0 :: 32 word)" by simp
  then have "0x7fffffff - k = word_of_int (- (2 ^ 31) - 1 - sint k)" by simp
  then show ?thesis using assms sint_u32_bounds [of k]
    by (simp only:) (rule sint_word_of_int; simp)
qed

section \<open>One operation\<close>

lemma sub_n_apply: "sub_n h f k g = (if g = f then (h f)\<lparr>flow_n := flow_n (h f) - k\<rparr> else h g)"
  by (simp add: sub_n_def)

lemma sint_available:
  "sint (available h f) = (case flow_conn (h f) of Some c \<Rightarrow> min (window h f) (window h c) | None \<Rightarrow> window h f)"
  by (auto simp: available_def Let_def min_def split: option.splits)

lemma flow_add_cases:
  assumes "0 \<le> window h f" "flow_add h f k = (h', ok)"
  shows "ok \<longleftrightarrow> window h f + sint k \<le> 2 ^ 31 - 1" "flow_conn (h' g) = flow_conn (h g)"
    "window h' g = (if g = f \<and> ok then window h f + sint k else window h g)"
  using assms sint_remain [of "flow_n (h f)"] sint_add_exact [of "flow_n (h f)" k] sint_u32_bounds [of k]
  by (auto simp: flow_add_def Let_def split: if_splits)

lemma flow_take_cases:
  assumes "0 \<le> sint k" "0 \<le> window h s" "0 \<le> window h c" "flow_conn (h s) = Some c" "s \<noteq> c"
  shows "flow_take h s k = (if sint k \<le> min (window h s) (window h c) then Ret (sub_n (sub_n h s k) c k) else Panic)"
    and "sint k \<le> min (window h s) (window h c) \<Longrightarrow>
      window (sub_n (sub_n h s k) c k) g = (if g = s \<or> g = c then window h g - sint k else window h g)"
  using assms sint_sub_exact [of "flow_n (h s)" k] sint_sub_exact [of "flow_n (h c)" k]
    sint_u32_bounds [of "flow_n (h s)"] sint_u32_bounds [of "flow_n (h c)"]
  by (auto simp: flow_take_def sint_available sub_n_apply Let_def)

lemma flow_conn_sub_n [simp]: "flow_conn (sub_n h f k g) = flow_conn (h g)"
  by (simp add: sub_n_apply)

text \<open>C37: On a window that is not negative \<open>add\<close> does what its comment says: it succeeds exactly when
  the sum does not exceed \<open>2^31 - 1\<close>, and then the window is the sum, without wrap-around; a
  refused \<open>add\<close> changes no window. No other window and no pointer to the connection changes.
\<close>

theorem flow_add_exact:
  assumes "0 \<le> window h f" "flow_add h f k = (h', ok)"
  shows "(ok \<longleftrightarrow> window h f + sint k \<le> 2 ^ 31 - 1) \<and>
    (\<forall>g. flow_conn (h' g) = flow_conn (h g) \<and>
         window h' g = (if g = f \<and> ok then window h f + sint k else window h g))"
  using flow_add_cases [OF assms] by blast

definition example_flows :: flows where
  "example_flows = (\<lambda>f. if f = 0 then \<lparr>flow_n = 65535, flow_conn = None\<rparr> else \<lparr>flow_n = 100, flow_conn = Some 0\<rparr>)"

theorem flow_add_exact_witness:
  "0 \<le> window example_flows 1 \<and> \<not> snd (flow_add example_flows 1 0x7fffffff) \<and>
   window (fst (flow_add example_flows 1 27)) 1 = 127"
proof -
  have w: "window example_flows 1 = 100" by (simp add: example_flows_def)
  have e: "flow_add example_flows 1 k = (fst (flow_add example_flows 1 k), snd (flow_add example_flows 1 k))" for k
    by simp
  show ?thesis
    using flow_add_exact [OF _ e, of "0x7fffffff"] flow_add_exact [OF _ e, of 27] w by simp
qed

text \<open>C39: On a negative window \<open>add\<close> refuses every non-negative increment, although the sum is far
  below the limit: \<open>remain\<close> wraps around.
\<close>

theorem flow_add_negative:
  assumes "window h f < 0" "0 \<le> sint k"
  shows "flow_add h f k = (h, False) \<and> window h f + sint k < 2 ^ 31 - 1"
  using assms sint_remain_negative [of "flow_n (h f)"] sint_u32_bounds [of k] sint_u32_bounds [of "flow_n (h f)"]
  by (simp add: flow_add_def Let_def)

text \<open>A window of 100 bytes, all of them sent, after the peer lowered its initial window by one.\<close>

theorem flow_add_negative_witness:
  "flow_add (\<lambda>_. \<lparr>flow_n = - 1, flow_conn = None\<rparr>) 1 100 = (\<lambda>_. \<lparr>flow_n = - 1, flow_conn = None\<rparr>, False)"
  using flow_add_negative [of "\<lambda>_. \<lparr>flow_n = - 1, flow_conn = None\<rparr>" 1 100] by simp

section \<open>A connection and its streams\<close>

datatype flow_op = Take flow_addr "32 word" | Add flow_addr "32 word"

text \<open>Operations one after the other, with the result of each.\<close>

fun flow_run :: "flows \<Rightarrow> flow_op list \<Rightarrow> (unit, flows \<times> bool list) go" where
  "flow_run h [] = Ret (h, [])"
| "flow_run h (Take f k # ops) =
     go_bind (flow_take h f k) (\<lambda>h. go_bind (flow_run h ops) (\<lambda>(h, oks). Ret (h, True # oks)))"
| "flow_run h (Add f k # ops) =
     (case flow_add h f k of (h, ok) \<Rightarrow> go_bind (flow_run h ops) (\<lambda>(h, oks). Ret (h, ok # oks)))"

text \<open>The bytes a stream sent, all streams sent, and the bytes granted to a flow.\<close>

fun sent :: "flow_addr \<Rightarrow> flow_op list \<Rightarrow> int" where
  "sent f (Take g k # ops) = (if g = f then sint k else 0) + sent f ops"
| "sent f (_ # ops) = sent f ops"
| "sent f [] = 0"

fun total_sent :: "flow_op list \<Rightarrow> int" where
  "total_sent (Take g k # ops) = sint k + total_sent ops"
| "total_sent (_ # ops) = total_sent ops"
| "total_sent [] = 0"

fun granted :: "flow_addr \<Rightarrow> flow_op list \<Rightarrow> bool list \<Rightarrow> int" where
  "granted f (Add g k # ops) (ok # oks) = (if g = f \<and> ok then sint k else 0) + granted f ops oks"
| "granted f (_ # ops) (_ # oks) = granted f ops oks"
| "granted f _ _ = 0"

text \<open>Streams of connection \<open>c\<close> send; windows grow by non-negative increments.\<close>

fun flow_op_ok :: "flows \<Rightarrow> flow_addr \<Rightarrow> flow_op \<Rightarrow> bool" where
  "flow_op_ok h c (Take s k) \<longleftrightarrow> flow_conn (h s) = Some c \<and> 0 \<le> sint k"
| "flow_op_ok h c (Add f k) \<longleftrightarrow> 0 \<le> sint k"

lemma flow_op_ok_cong: "(\<And>f. flow_conn (h' f) = flow_conn (h f)) \<Longrightarrow> flow_op_ok h' c = flow_op_ok h c"
  by (rule ext, rename_tac x, case_tac x) auto

lemma flow_run_ledger:
  assumes "flow_conn (h c) = None" "\<forall>op \<in> set ops. flow_op_ok h c op" "\<forall>f. 0 \<le> window h f"
    "flow_run h ops = Ret (h', oks)"
  shows "(\<forall>f. 0 \<le> window h' f) \<and> window h' c = window h c + granted c ops oks - total_sent ops \<and>
    (\<forall>s. s \<noteq> c \<longrightarrow> window h' s = window h s + granted s ops oks - sent s ops)"
  using assms
proof (induction ops arbitrary: h h' oks)
  case Nil
  then show ?case by simp
next
  case (Cons op ops)
  show ?case
  proof (cases op)
    case (Take s k)
    have s: "flow_conn (h s) = Some c" "0 \<le> sint k" "s \<noteq> c" using Cons.prems Take by auto
    let ?h = "sub_n (sub_n h s k) c k"
    note tk = flow_take_cases [of k h s c, OF s(2) _ _ s(1,3)]
    have le: "sint k \<le> min (window h s) (window h c)"
      using Cons.prems(4) tk(1) Cons.prems(3) Take by (auto split: if_splits)
    then obtain oks' where r: "flow_run ?h ops = Ret (h', oks')" "oks = True # oks'"
      using Cons.prems(3,4) tk(1) Take by (auto simp: go_bind_eq_Ret)
    have w: "window ?h g = (if g = s \<or> g = c then window h g - sint k else window h g)" for g
      using tk(2) [OF _ _ le] Cons.prems(3) by blast
    have "\<forall>f. 0 \<le> window ?h f" using w le Cons.prems(3) by auto
    then show ?thesis
      using Cons.IH [OF _ _ _ r(1)] Cons.prems(1,2) flow_op_ok_cong [of ?h h c] w Take r(2) s(3) by auto
  next
    case (Add f k)
    obtain h1 ok where a: "flow_add h f k = (h1, ok)" by fastforce
    note ac = flow_add_cases [OF _ a]
    obtain oks' where r: "flow_run h1 ops = Ret (h', oks')" "oks = ok # oks'"
      using Cons.prems(4) a Add by (auto simp: go_bind_eq_Ret)
    have w: "window h1 g = (if g = f \<and> ok then window h f + sint k else window h g)" for g
      using ac(3) Cons.prems(3) by blast
    have cn: "flow_conn (h1 g) = flow_conn (h g)" for g using ac(2) Cons.prems(3) by blast
    have "\<forall>f. 0 \<le> window h1 f" using w Cons.prems(2,3) Add by auto
    then show ?thesis
      using Cons.IH [OF _ _ _ r(1)] Cons.prems(1,2) flow_op_ok_cong [of h1 h c, OF cn] w Add r(2) cn by auto
  qed
qed

text \<open>C5: Flow control keeps its accounts. Let streams send on a connection and let the peer grant windows,
  in any order, starting from windows that are not negative. If no \<open>take\<close> asked for more than
  \<open>available\<close> (it panics then), every window of a stream is what it was, plus what was granted to
  it, minus what that stream sent, and the window of the connection is what it was plus what was
  granted to it, minus what all the streams sent. No window is negative and none wrapped around, so the
  streams together never sent more than the connection was granted.
\<close>

theorem flow_session:
  assumes "flow_conn (h c) = None" "\<forall>op \<in> set ops. flow_op_ok h c op" "\<forall>f. 0 \<le> window h f"
    "flow_run h ops = Ret (h', oks)"
  shows "(\<forall>f. 0 \<le> window h' f) \<and> window h' c = window h c + granted c ops oks - total_sent ops \<and>
    (\<forall>s. s \<noteq> c \<longrightarrow> window h' s = window h s + granted s ops oks - sent s ops) \<and>
    total_sent ops \<le> window h c + granted c ops oks"
  using flow_run_ledger [OF assms] by (metis diff_ge_0_iff_ge)

definition example_ops :: "flow_op list" where
  "example_ops = [Take 1 60, Take 2 100, Add 1 0x7fffffff, Add 1 10, Add 0 160, Take 1 50]"

lemmas flow_exec = flow_take_def flow_add_def available_def sub_n_apply

theorem flow_session_witness:
  "\<exists>h'. flow_run example_flows example_ops = Ret (h', [True, True, False, True, True, True]) \<and>
     window h' 0 = 65485 \<and> window h' 1 = 0 \<and> window h' 2 = 0"
proof -
  obtain h' where r: "flow_run example_flows example_ops = Ret (h', [True, True, False, True, True, True])"
    by (simp add: example_flows_def example_ops_def flow_exec Let_def sub_n_def)
  have "flow_conn (example_flows 0) = None" "\<forall>op \<in> set example_ops. flow_op_ok example_flows 0 op"
    "\<forall>f. 0 \<le> window example_flows f"
    by (simp_all add: example_flows_def example_ops_def)
  from flow_session [OF this r] r show ?thesis
    by (simp add: example_flows_def example_ops_def)
qed

text \<open>C38: \<open>take\<close> on a stream whose windows are not negative panics exactly when it asks for more than
  the smaller of the stream's and the connection's window; otherwise both windows shrink by what was
  taken, and no other.
\<close>

theorem flow_take_exact:
  assumes "0 \<le> sint k" "0 \<le> window h s" "0 \<le> window h c" "flow_conn (h s) = Some c" "s \<noteq> c"
  shows "(flow_take h s k = Panic \<longleftrightarrow> min (window h s) (window h c) < sint k) \<and>
    (\<forall>h'. flow_take h s k = Ret h' \<longrightarrow>
       (\<forall>g. window h' g = (if g = s \<or> g = c then window h g - sint k else window h g)))"
  using flow_take_cases [OF assms] by auto

theorem flow_take_exact_witness:
  "flow_take example_flows 1 101 = Panic \<and> (\<exists>h'. flow_take example_flows 1 40 = Ret h' \<and> window h' 0 = 65495)"
proof -
  have w: "window example_flows 1 = 100" "window example_flows 0 = 65535" "flow_conn (example_flows 1) = Some 0"
    by (simp_all add: example_flows_def)
  have "flow_take example_flows 1 101 = Panic" using flow_take_exact [of 101 example_flows 1 0] w by simp
  moreover obtain h' where "flow_take example_flows 1 40 = Ret h'"
    using w by (simp add: flow_take_def sint_available Let_def)
  ultimately show ?thesis using flow_take_exact [of 40 example_flows 1 0] w by simp
qed

end
