(* ===== verification/Http2_DataBuffer.thy ===== *)
theory Http2_DataBuffer
  imports Go_Prelude
begin

text \<open>
  The chunked buffer of request and response bodies (golang.org/x/net/http2/databuffer.go), with the
  pools its chunks come from, and the interface \<open>pipeBuffer\<close> of pipe.go that it implements.
\<close>

section \<open>Pools of chunks\<close>

definition dataChunkSizeClasses :: "nat list" where
  "dataChunkSizeClasses = [2 ^ 10, 2 * 2 ^ 10, 4 * 2 ^ 10, 8 * 2 ^ 10, 16 * 2 ^ 10]"

text \<open>
  The chunks in each \<open>sync.Pool\<close>. \<open>Get\<close> may return any chunk of the pool or a new one:
  \<open>pick\<close> decides, given the class and the number of chunks there. A chunk of the pool still has the bytes of its last use.
\<close>

type_synonym pools = "bytes list list"
type_synonym picker = "nat \<Rightarrow> nat \<Rightarrow> nat"

definition pool_Get :: "picker \<Rightarrow> pools \<Rightarrow> nat \<Rightarrow> pools \<times> bytes" where
  "pool_Get pick ps i =
     (let items = ps ! i; j = pick i (length items)
      in if j < length items then (ps[i := take j items @ drop (Suc j) items], items ! j)
         else (ps, replicate (dataChunkSizeClasses ! i) 0))"

definition pool_Put :: "pools \<Rightarrow> nat \<Rightarrow> bytes \<Rightarrow> pools" where
  "pool_Put ps i p = ps[i := p # ps ! i]"

fun class_loop :: "int \<Rightarrow> nat \<Rightarrow> nat list \<Rightarrow> nat" where
  "class_loop sz i (c # d # cs) = (if sz \<le> int c then i else class_loop sz (Suc i) (d # cs))"
| "class_loop sz i _ = i"

definition getDataBufferChunk :: "picker \<Rightarrow> pools \<Rightarrow> int \<Rightarrow> pools \<times> bytes" where
  "getDataBufferChunk pick ps sz = pool_Get pick ps (class_loop sz 0 dataChunkSizeClasses)"

fun put_loop :: "pools \<Rightarrow> bytes \<Rightarrow> nat \<Rightarrow> nat list \<Rightarrow> ('e, pools) go" where
  "put_loop ps p i [] = Panic"
| "put_loop ps p i (n # ns) = (if length p = n then Ret (pool_Put ps i p) else put_loop ps p (Suc i) ns)"

definition putDataBufferChunk :: "pools \<Rightarrow> bytes \<Rightarrow> ('e, pools) go" where
  "putDataBufferChunk ps p = put_loop ps p 0 dataChunkSizeClasses"

section \<open>The buffer\<close>

record dataBuffer =
  chunks :: "bytes list"
  db_r :: nat
  db_w :: nat
  db_size :: int
  db_expected :: int

datatype buffer_error = errReadEmpty

type_synonym buffer_state = "dataBuffer \<times> pools"

definition bytesFromFirstChunk :: "dataBuffer \<Rightarrow> ('e, bytes) go" where
  "bytesFromFirstChunk b =
     (case chunks b of
        [] \<Rightarrow> Panic
      | [c] \<Rightarrow> if db_r b \<le> db_w b \<and> db_w b \<le> length c then Ret (drop (db_r b) (take (db_w b) c)) else Panic
      | c # _ \<Rightarrow> if db_r b \<le> length c then Ret (drop (db_r b) c) else Panic)"

text \<open>If the first chunk has been consumed, advance to the next one.\<close>

definition advance :: "dataBuffer \<Rightarrow> pools \<Rightarrow> ('e, dataBuffer \<times> pools) go" where
  "advance b ps =
     (case chunks b of
        [] \<Rightarrow> Panic
      | c # cs \<Rightarrow>
          if db_r b = length c
          then go_bind (putDataBufferChunk ps c) (\<lambda>ps. Ret (b\<lparr>chunks := cs, db_r := 0\<rparr>, ps))
          else Ret (b, ps))"

text \<open>
  The loop of \<open>Read\<close>, with \<open>m\<close> the length of what is left of the caller's slice and \<open>out\<close>
  the bytes copied so far. \<open>None\<close> is a loop that does not end.
\<close>

partial_function (option) read_loop ::
    "dataBuffer \<Rightarrow> pools \<Rightarrow> nat \<Rightarrow> bytes \<Rightarrow> (buffer_error, dataBuffer \<times> pools \<times> bytes) go option" where
  "read_loop b ps m out =
     (if m > 0 \<and> db_size b > 0
      then case bytesFromFirstChunk b of
             Ret readFrom \<Rightarrow>
               (let n = min m (length readFrom);
                    b = b\<lparr>db_r := db_r b + n, db_size := db_size b - int n\<rparr>
                in case advance b ps of
                     Ret (b, ps) \<Rightarrow> read_loop b ps (m - n) (out @ take n readFrom)
                   | Fail e \<Rightarrow> Some (Fail e)
                   | Panic \<Rightarrow> Some Panic)
           | Fail e \<Rightarrow> Some (Fail e)
           | Panic \<Rightarrow> Some Panic
      else Some (Ret (b, ps, out)))"

definition dataBuffer_Read :: "buffer_state \<Rightarrow> nat \<Rightarrow> (buffer_error, buffer_state \<times> bytes) go option" where
  "dataBuffer_Read = (\<lambda>(b, ps) m.
     if db_size b = 0 then Some (Fail errReadEmpty)
     else map_option (\<lambda>x. go_bind x (\<lambda>(b, ps, out). Ret ((b, ps), out))) (read_loop b ps m []))"

definition dataBuffer_Len :: "buffer_state \<Rightarrow> int" where
  "dataBuffer_Len = (\<lambda>(b, ps). db_size b)"

definition lastChunkOrAlloc :: "picker \<Rightarrow> dataBuffer \<Rightarrow> pools \<Rightarrow> int \<Rightarrow> dataBuffer \<times> pools \<times> bytes" where
  "lastChunkOrAlloc pick b ps want =
     (if chunks b \<noteq> [] \<and> db_w b < length (last (chunks b)) then (b, ps, last (chunks b))
      else case getDataBufferChunk pick ps want of
             (ps, chunk) \<Rightarrow> (b\<lparr>chunks := chunks b @ [chunk], db_w := 0\<rparr>, ps, chunk))"

text \<open>\<open>copy(chunk[w:], p)\<close> into the last chunk, which the buffer shares: the chunk and the count.\<close>

definition copy_at :: "bytes \<Rightarrow> nat \<Rightarrow> bytes \<Rightarrow> bytes \<times> nat" where
  "copy_at chunk w p =
     (let n = min (length chunk - w) (length p)
      in (take w chunk @ take n p @ drop (w + n) chunk, n))"

partial_function (option) buf_write_loop ::
    "picker \<Rightarrow> dataBuffer \<Rightarrow> pools \<Rightarrow> bytes \<Rightarrow> (buffer_error, dataBuffer \<times> pools) go option" where
  "buf_write_loop pick b ps p =
     (if p \<noteq> []
      then (let want = int (length p);
                want = (if db_expected b > want then db_expected b else want)
            in case lastChunkOrAlloc pick b ps want of
                 (b, ps, chunk) \<Rightarrow>
                   if db_w b > length chunk then Some Panic
                   else case copy_at chunk (db_w b) p of
                          (chunk, n) \<Rightarrow>
                            buf_write_loop pick
                              (b\<lparr>chunks := butlast (chunks b) @ [chunk], db_w := db_w b + n,
                                 db_size := db_size b + int n, db_expected := db_expected b - int n\<rparr>)
                              ps (drop n p))
      else Some (Ret (b, ps)))"

definition dataBuffer_Write :: "picker \<Rightarrow> buffer_state \<Rightarrow> bytes \<Rightarrow> (buffer_error, buffer_state \<times> nat) go option" where
  "dataBuffer_Write pick = (\<lambda>(b, ps) p.
     map_option (\<lambda>x. go_bind x (\<lambda>s. Ret (s, length p))) (buf_write_loop pick b ps p))"

section \<open>Invariant and contents\<close>

definition pools_ok :: "pools \<Rightarrow> bool" where
  "pools_ok ps \<longleftrightarrow> length ps = length dataChunkSizeClasses \<and>
     (\<forall>i < length ps. \<forall>c \<in> set (ps ! i). length c = dataChunkSizeClasses ! i)"

definition contents :: "dataBuffer \<Rightarrow> bytes" where
  "contents b =
     (if chunks b = [] then []
      else drop (db_r b) (concat (butlast (chunks b)) @ take (db_w b) (last (chunks b))))"

definition buffer_ok :: "dataBuffer \<Rightarrow> bool" where
  "buffer_ok b \<longleftrightarrow> db_size b = int (length (contents b)) \<and>
     (\<forall>c \<in> set (chunks b). length c \<in> set dataChunkSizeClasses) \<and>
     (chunks b = [] \<longrightarrow> db_r b = 0) \<and>
     (\<forall>c cs. chunks b = c # cs \<longrightarrow> db_r b < length c \<and> db_w b \<le> length (last (chunks b)) \<and>
        (cs = [] \<longrightarrow> db_r b \<le> db_w b))"

definition state_ok :: "buffer_state \<Rightarrow> bool" where
  "state_ok = (\<lambda>(b, ps). buffer_ok b \<and> pools_ok ps)"

lemma class_sizes: "length dataChunkSizeClasses = 5" "c \<in> set dataChunkSizeClasses \<Longrightarrow> 0 < c"
  by (auto simp: dataChunkSizeClasses_def)

lemma class_loop_bound: "cs \<noteq> [] \<Longrightarrow> class_loop sz i cs < i + length cs"
  by (induction sz i cs rule: class_loop.induct) auto

lemma pool_Get_ok:
  assumes "pools_ok ps" "i < 5" "pool_Get pick ps i = (ps', c)"
  shows "pools_ok ps' \<and> length c \<in> set dataChunkSizeClasses"
  using assms
  by (auto simp: pools_ok_def pool_Get_def Let_def class_sizes nth_list_update
        split: if_splits dest!: in_set_takeD in_set_dropD)

lemma getDataBufferChunk_ok:
  assumes "pools_ok ps" "getDataBufferChunk pick ps sz = (ps', c)"
  shows "pools_ok ps' \<and> length c \<in> set dataChunkSizeClasses"
proof -
  have "class_loop sz 0 dataChunkSizeClasses < 5"
    using class_loop_bound [of dataChunkSizeClasses sz 0] by (auto simp: class_sizes dataChunkSizeClasses_def)
  then show ?thesis using pool_Get_ok assms by (simp add: getDataBufferChunk_def)
qed

lemma put_loop_ok:
  assumes "length p \<in> set ns" "ns = drop i dataChunkSizeClasses" "pools_ok ps"
  shows "\<exists>ps'. put_loop ps p i ns = Ret ps' \<and> pools_ok ps'"
  using assms
proof (induction ns arbitrary: i)
  case (Cons n ns)
  have i: "i < 5" "n = dataChunkSizeClasses ! i" "ns = drop (Suc i) dataChunkSizeClasses"
  proof -
    show "i < 5" using Cons.prems(2) by (metis class_sizes(1) drop_all list.distinct(1) not_less)
    then have "drop i dataChunkSizeClasses = dataChunkSizeClasses ! i # drop (Suc i) dataChunkSizeClasses"
      by (simp add: Cons_nth_drop_Suc class_sizes)
    then show "n = dataChunkSizeClasses ! i" "ns = drop (Suc i) dataChunkSizeClasses"
      using Cons.prems(2) by simp_all
  qed
  show ?case
  proof (cases "length p = n")
    case True
    then have "pools_ok (pool_Put ps i p)" using Cons.prems(3) i
      by (auto simp: pools_ok_def pool_Put_def nth_list_update class_sizes)
    with True show ?thesis by simp
  next
    case False
    then show ?thesis using Cons.IH [OF _ i(3)] Cons.prems(1,3) by simp
  qed
qed simp

lemma putDataBufferChunk_ok:
  "length p \<in> set dataChunkSizeClasses \<Longrightarrow> pools_ok ps \<Longrightarrow> \<exists>ps'. putDataBufferChunk ps p = Ret ps' \<and> pools_ok ps'"
  unfolding putDataBufferChunk_def by (rule put_loop_ok) simp_all

section \<open>Reading\<close>

lemma contents_Cons:
  "chunks b = c # cs \<Longrightarrow> db_r b \<le> length c \<Longrightarrow> contents b =
     (if cs = [] then drop (db_r b) (take (db_w b) c)
      else drop (db_r b) c @ concat (butlast cs) @ take (db_w b) (last cs))"
  by (simp add: contents_def)

lemma first_chunk:
  assumes "buffer_ok b" "db_size b > 0"
  shows "\<exists>rf rest. (bytesFromFirstChunk b :: ('e, bytes) go) = Ret rf \<and> rf \<noteq> [] \<and> contents b = rf @ rest"
proof -
  obtain c cs where c: "chunks b = c # cs" using assms by (cases "chunks b") (auto simp: buffer_ok_def contents_def)
  have "db_r b < length c" "db_w b \<le> length (last (c # cs))" "cs = [] \<longrightarrow> db_r b \<le> db_w b"
    using assms c by (auto simp: buffer_ok_def)
  then show ?thesis using assms contents_Cons [OF c] c
    by (cases cs) (auto simp: bytesFromFirstChunk_def buffer_ok_def)
qed

lemma read_step:
  assumes "buffer_ok b" "pools_ok ps" "bytesFromFirstChunk b = (Ret rf :: (buffer_error, bytes) go)" "k \<le> length rf"
    "db_size b > 0"
  shows "\<exists>b' ps'. (advance (b\<lparr>db_r := db_r b + k, db_size := db_size b - int k\<rparr>) ps :: (buffer_error, _) go) =
      Ret (b', ps') \<and> buffer_ok b' \<and> pools_ok ps' \<and> contents b' = drop k (contents b)"
proof -
  let ?b = "b\<lparr>db_r := db_r b + k, db_size := db_size b - int k\<rparr>"
  obtain c cs where c: "chunks b = c # cs" using assms by (cases "chunks b") (auto simp: buffer_ok_def contents_def)
  have ok: "db_r b < length c" "db_w b \<le> length (last (c # cs))" "cs = [] \<longrightarrow> db_r b \<le> db_w b"
    "length c \<in> set dataChunkSizeClasses" "db_size b = int (length (contents b))"
    "\<forall>d \<in> set cs. length d \<in> set dataChunkSizeClasses"
    using assms(1) c by (auto simp: buffer_ok_def)
  have rf: "rf = (if cs = [] then drop (db_r b) (take (db_w b) c) else drop (db_r b) c)"
    using assms(3) c ok by (cases cs) (auto simp: bytesFromFirstChunk_def)
  have k: "db_r b + k \<le> length c" "cs = [] \<longrightarrow> db_r b + k \<le> db_w b" "k \<le> length (contents b)"
    using assms(4) rf ok contents_Cons [OF c] by (auto split: if_splits)
  have drop: "contents ?b = drop k (contents b)"
    using c by (simp add: contents_def drop_drop add.commute del: drop_append)
  show ?thesis
  proof (cases "db_r b + k = length c")
    case False
    have "buffer_ok ?b" unfolding buffer_ok_def drop using c ok k False by auto
    then show ?thesis using c False drop assms(2) by (simp add: advance_def)
  next
    case True
    obtain ps' where ps': "(putDataBufferChunk ps c :: (buffer_error, _) go) = Ret ps'" "pools_ok ps'"
      using putDataBufferChunk_ok ok(4) assms(2) by blast
    let ?b' = "?b\<lparr>chunks := cs, db_r := 0\<rparr>"
    have eq: "contents ?b' = contents ?b"
      using c True k(2) ok(2) by (cases cs) (simp_all add: contents_def)
    have "db_w b \<le> length (last cs)" if "cs \<noteq> []" using ok(2) that by simp
    moreover have "0 < length d" if "d \<in> set cs" for d using ok(6) that class_sizes(2) by blast
    ultimately have "buffer_ok ?b'"
      unfolding buffer_ok_def eq drop using ok k by auto
    then show ?thesis using c True ps' eq drop by (simp add: advance_def)
  qed
qed

lemma read_loop_contents:
  assumes "buffer_ok b" "pools_ok ps"
  shows "\<exists>b' ps'. read_loop b ps m out = Some (Ret (b', ps', out @ take m (contents b))) \<and>
     buffer_ok b' \<and> pools_ok ps' \<and> contents b' = drop m (contents b)"
  using assms
proof (induction m arbitrary: b ps out rule: less_induct)
  case (less m)
  show ?case
  proof (cases "m > 0 \<and> db_size b > 0")
    case False
    then have "m = 0 \<or> contents b = []" using less.prems by (auto simp: buffer_ok_def)
    then show ?thesis using False less.prems by (subst read_loop.simps) auto
  next
    case True
    obtain rf rest where rf: "bytesFromFirstChunk b = (Ret rf :: (buffer_error, bytes) go)" "rf \<noteq> []" "contents b = rf @ rest"
      using first_chunk less.prems True by blast
    let ?n = "min m (length rf)"
    obtain b1 ps1 where b1: "(advance (b\<lparr>db_r := db_r b + ?n, db_size := db_size b - int ?n\<rparr>) ps :: (buffer_error, _) go) =
        Ret (b1, ps1)" "buffer_ok b1" "pools_ok ps1" "contents b1 = drop ?n (contents b)"
      using read_step [OF less.prems rf(1)] True by (meson min.cobounded2)
    have "m - ?n < m" using True rf(2) by (cases rf) auto
    from less.IH [OF this b1(2,3)] obtain b2 ps2 where
      b2: "read_loop b1 ps1 (m - ?n) (out @ take ?n rf) =
        Some (Ret (b2, ps2, (out @ take ?n rf) @ take (m - ?n) (contents b1)))"
      "buffer_ok b2" "pools_ok ps2" "contents b2 = drop (m - ?n) (contents b1)" by blast
    have "take ?n rf @ take (m - ?n) (contents b1) = take m (contents b)"
      using b1(4) rf(3) by (cases "m \<le> length rf") auto
    moreover have "contents b2 = drop m (contents b)" using b1(4) b2(4) by simp
    moreover have "read_loop b ps m out = read_loop b1 ps1 (m - ?n) (out @ take ?n rf)"
      using True rf(1) b1(1) by (subst read_loop.simps) (simp add: Let_def)
    ultimately show ?thesis using b2 by auto
  qed
qed

section \<open>Writing\<close>

lemma lastChunkOrAlloc_ok:
  assumes "buffer_ok b" "pools_ok ps" "lastChunkOrAlloc pick b ps want = (b1, ps1, chunk)"
  shows "buffer_ok b1 \<and> pools_ok ps1 \<and> contents b1 = contents b \<and> chunks b1 \<noteq> [] \<and> last (chunks b1) = chunk \<and>
    db_w b1 < length chunk"
proof (cases "chunks b \<noteq> [] \<and> db_w b < length (last (chunks b))")
  case True
  then show ?thesis using assms by (auto simp: lastChunkOrAlloc_def)
next
  case False
  obtain ps' c where g: "getDataBufferChunk pick ps want = (ps', c)" by fastforce
  have c: "pools_ok ps'" "length c \<in> set dataChunkSizeClasses" "0 < length c"
    using getDataBufferChunk_ok [OF assms(2) g] class_sizes(2) by blast+
  have b1: "b1 = b\<lparr>chunks := chunks b @ [c], db_w := 0\<rparr>" "ps1 = ps'" "chunk = c"
    using assms(3) False g by (auto simp: lastChunkOrAlloc_def)
  have eq: "contents b1 = contents b"
  proof (cases "chunks b = []")
    case True
    then show ?thesis using assms(1) by (simp add: contents_def b1)
  next
    case ne: False
    then have "take (db_w b) (last (chunks b)) = last (chunks b)" using False by simp
    then have "concat (chunks b) = concat (butlast (chunks b)) @ take (db_w b) (last (chunks b))"
      using ne by (metis append_butlast_last_id concat_append concat.simps append_Nil2)
    then show ?thesis using ne by (simp add: contents_def b1)
  qed
  have "buffer_ok b1" using assms(1) c unfolding buffer_ok_def eq by (cases "chunks b") (auto simp: b1)
  then show ?thesis using c b1 eq by simp
qed

lemma write_step:
  assumes "buffer_ok b" "chunks b \<noteq> []" "last (chunks b) = chunk" "db_w b < length chunk"
    "copy_at chunk (db_w b) p = (chunk', k)"
  shows "buffer_ok (b\<lparr>chunks := butlast (chunks b) @ [chunk'], db_w := db_w b + k, db_size := db_size b + int k,
      db_expected := e\<rparr>)" (is "buffer_ok ?b")
    and "contents (b\<lparr>chunks := butlast (chunks b) @ [chunk'], db_w := db_w b + k, db_size := db_size b + int k,
      db_expected := e\<rparr>) = contents b @ take k p"
    and "p \<noteq> [] \<Longrightarrow> 0 < k"
proof -
  have k: "k = min (length chunk - db_w b) (length p)" "length chunk' = length chunk"
    "take (db_w b + k) chunk' = take (db_w b) chunk @ take k p"
    using assms(4,5) by (auto simp: copy_at_def Let_def min_def)
  show "p \<noteq> [] \<Longrightarrow> 0 < k" using k(1) assms(4) by (cases p) auto
  obtain pre where pre: "chunks b = pre @ [chunk]" using assms(2,3) by (metis append_butlast_last_id)
  have r: "db_r b \<le> length (concat pre @ take (db_w b) chunk)"
    using assms(1,4) pre by (cases pre) (auto simp: buffer_ok_def)
  show c: "contents ?b = contents b @ take k p"
    using pre k(3) r by (simp add: contents_def)
  show "buffer_ok ?b"
    using assms(1,4) k pre unfolding buffer_ok_def c by (cases pre) auto
qed

lemma buf_write_loop_contents:
  assumes "buffer_ok b" "pools_ok ps"
  shows "\<exists>b' ps'. buf_write_loop pick b ps p = Some (Ret (b', ps')) \<and> buffer_ok b' \<and> pools_ok ps' \<and>
    contents b' = contents b @ p"
  using assms
proof (induction "length p" arbitrary: b ps p rule: less_induct)
  case less
  show ?case
  proof (cases "p = []")
    case True
    then show ?thesis using less.prems by (subst buf_write_loop.simps) simp
  next
    case False
    define want where "want = (if db_expected b > int (length p) then db_expected b else int (length p))"
    obtain b1 ps1 chunk where l: "lastChunkOrAlloc pick b ps want = (b1, ps1, chunk)" by (metis prod_cases3)
    note l' = lastChunkOrAlloc_ok [OF less.prems l]
    obtain chunk' k where c: "copy_at chunk (db_w b1) p = (chunk', k)" by fastforce
    let ?b = "b1\<lparr>chunks := butlast (chunks b1) @ [chunk'], db_w := db_w b1 + k, db_size := db_size b1 + int k,
      db_expected := db_expected b1 - int k\<rparr>"
    have st: "buffer_ok ?b" "contents ?b = contents b @ take k p" "0 < k"
      using write_step [of b1 chunk p chunk' k] l' c False by auto
    have "length (drop k p) < length p" using st(3) False by simp
    from less.hyps [OF this st(1)] l' obtain b2 ps2 where
      "buf_write_loop pick ?b ps1 (drop k p) = Some (Ret (b2, ps2))" "buffer_ok b2" "pools_ok ps2"
      "contents b2 = contents ?b @ drop k p" by blast
    moreover have "buf_write_loop pick b ps p = buf_write_loop pick ?b ps1 (drop k p)"
      using False l l' c by (subst buf_write_loop.simps) (simp add: Let_def want_def)
    ultimately show ?thesis using st(2) by auto
  qed
qed

section \<open>The interface of a pipe buffer\<close>

text \<open>
  The operations of \<open>pipeBuffer\<close> (pipe.go). \<open>None\<close> is a call that does not return.
\<close>

record 'b pipeBuffer =
  buf_Len :: "'b \<Rightarrow> int"
  buf_Write :: "'b \<Rightarrow> bytes \<Rightarrow> (buffer_error, 'b \<times> nat) go option"
  buf_Read :: "'b \<Rightarrow> nat \<Rightarrow> (buffer_error, 'b \<times> bytes) go option"

locale pipe_buffer =
  fixes ops :: "'b pipeBuffer" and queue :: "'b \<Rightarrow> bytes" and ok :: "'b \<Rightarrow> bool"
  assumes Len: "ok b \<Longrightarrow> buf_Len ops b = int (length (queue b))"
    and Write: "ok b \<Longrightarrow> \<exists>b'. buf_Write ops b p = Some (Ret (b', length p)) \<and> ok b' \<and> queue b' = queue b @ p"
    and Read: "ok b \<Longrightarrow> queue b \<noteq> [] \<Longrightarrow>
      \<exists>b'. buf_Read ops b m = Some (Ret (b', take m (queue b))) \<and> ok b' \<and> queue b' = drop m (queue b)"

definition dataBuffer_ops :: "picker \<Rightarrow> buffer_state pipeBuffer" where
  "dataBuffer_ops pick =
     \<lparr>buf_Len = dataBuffer_Len, buf_Write = dataBuffer_Write pick, buf_Read = dataBuffer_Read\<rparr>"

lemma dataBuffer_Read_queue:
  assumes "state_ok s" "contents (fst s) \<noteq> []"
  shows "\<exists>s'. dataBuffer_Read s m = Some (Ret (s', take m (contents (fst s)))) \<and> state_ok s' \<and>
    contents (fst s') = drop m (contents (fst s))"
  using assms read_loop_contents [of "fst s" "snd s" m "[]"]
  by (fastforce simp: dataBuffer_Read_def state_ok_def buffer_ok_def split: prod.splits)

lemma dataBuffer_Write_queue:
  assumes "state_ok s"
  shows "\<exists>s'. dataBuffer_Write pick s p = Some (Ret (s', length p)) \<and> state_ok s' \<and>
    contents (fst s') = contents (fst s) @ p"
  using assms buf_write_loop_contents [of "fst s" "snd s" pick p]
  by (fastforce simp: dataBuffer_Write_def state_ok_def split: prod.splits)

lemma dataBuffer_Len_queue: "state_ok s \<Longrightarrow> dataBuffer_Len s = int (length (contents (fst s)))"
  by (auto simp: dataBuffer_Len_def state_ok_def buffer_ok_def)

lemma dataBuffer_Read_empty: "state_ok s \<Longrightarrow> contents (fst s) = [] \<Longrightarrow> dataBuffer_Read s m = Some (Fail errReadEmpty)"
  by (auto simp: dataBuffer_Read_def state_ok_def buffer_ok_def)

text \<open>A buffer that reports reads when it is empty, and what a sequence of calls on it returns.\<close>

locale reporting_buffer = pipe_buffer +
  assumes Read_empty: "ok b \<Longrightarrow> queue b = [] \<Longrightarrow> buf_Read ops b m = Some (Fail errReadEmpty)"

datatype buf_call = CallWrite bytes | CallRead nat | CallLen
datatype buf_result = Wrote nat | Read_bytes bytes | Read_failed buffer_error | Len_is int

text \<open>The calls on a buffer; \<open>None\<close> when one does not return or panics. A failed read leaves the buffer as it was.\<close>

fun buf_run :: "'b pipeBuffer \<Rightarrow> 'b \<Rightarrow> buf_call list \<Rightarrow> ('b \<times> buf_result list) option" where
  "buf_run ops b [] = Some (b, [])"
| "buf_run ops b (CallWrite p # cs) =
     (case buf_Write ops b p of
        Some (Ret (b, k)) \<Rightarrow> map_option (\<lambda>(b, rs). (b, Wrote k # rs)) (buf_run ops b cs)
      | _ \<Rightarrow> None)"
| "buf_run ops b (CallRead m # cs) =
     (case buf_Read ops b m of
        Some (Ret (b, p)) \<Rightarrow> map_option (\<lambda>(b, rs). (b, Read_bytes p # rs)) (buf_run ops b cs)
      | Some (Fail e) \<Rightarrow> map_option (\<lambda>(b, rs). (b, Read_failed e # rs)) (buf_run ops b cs)
      | _ \<Rightarrow> None)"
| "buf_run ops b (CallLen # cs) = map_option (\<lambda>(b', rs). (b', Len_is (buf_Len ops b) # rs)) (buf_run ops b cs)"

text \<open>The same calls on a queue of bytes.\<close>

fun queue_run :: "bytes \<Rightarrow> buf_call list \<Rightarrow> bytes \<times> buf_result list" where
  "queue_run q [] = (q, [])"
| "queue_run q (CallWrite p # cs) = map_prod id ((#) (Wrote (length p))) (queue_run (q @ p) cs)"
| "queue_run q (CallRead m # cs) =
     (if q = [] then map_prod id ((#) (Read_failed errReadEmpty)) (queue_run q cs)
      else map_prod id ((#) (Read_bytes (take m q))) (queue_run (drop m q) cs))"
| "queue_run q (CallLen # cs) = map_prod id ((#) (Len_is (int (length q)))) (queue_run q cs)"

context reporting_buffer
begin

lemma run_refines:
  "ok b \<Longrightarrow> \<exists>b'. buf_run ops b cs = Some (b', snd (queue_run (queue b) cs)) \<and> ok b' \<and>
     queue b' = fst (queue_run (queue b) cs)"
proof (induction cs arbitrary: b)
  case (Cons c cs)
  show ?case
  proof (cases c)
    case (CallWrite p)
    obtain b1 where b1: "buf_Write ops b p = Some (Ret (b1, length p))" "ok b1" "queue b1 = queue b @ p"
      using Write [OF Cons.prems] by blast
    then show ?thesis using Cons.IH [OF b1(2)] CallWrite by auto
  next
    case (CallRead m)
    show ?thesis
    proof (cases "queue b = []")
      case True
      then show ?thesis using Read_empty Cons CallRead by fastforce
    next
      case False
      obtain b1 where b1: "buf_Read ops b m = Some (Ret (b1, take m (queue b)))" "ok b1" "queue b1 = drop m (queue b)"
        using Read [OF Cons.prems False] by blast
      then show ?thesis using Cons.IH [OF b1(2)] CallRead False by auto
    qed
  next
    case CallLen
    then show ?thesis using Cons.IH [OF Cons.prems] Len [OF Cons.prems] by auto
  qed
qed simp

end

interpretation db: reporting_buffer "dataBuffer_ops pick" "contents \<circ> fst" state_ok for pick
  by unfold_locales
     (simp_all add: dataBuffer_ops_def dataBuffer_Len_queue dataBuffer_Write_queue dataBuffer_Read_queue
        dataBuffer_Read_empty del: split_paired_Ex)

text \<open>C20: The chunked buffer is a queue of bytes. Any sequence of \<open>Write\<close>, \<open>Read\<close> and \<open>Len\<close>
  calls on a well-formed buffer returns (no loop runs forever, no slice expression and no
  \<open>putDataBufferChunk\<close> panics), gives the results the same calls give on a plain queue of bytes,
  and leaves a well-formed buffer that holds what is left in the queue. This holds for chunks of every
  size class, whatever the pools return and whatever old bytes the chunks still have.
\<close>

theorem dataBuffer_refines_byte_queue:
  assumes "state_ok s"
  shows "\<exists>s'. buf_run (dataBuffer_ops pick) s cs = Some (s', snd (queue_run (contents (fst s)) cs)) \<and>
    state_ok s' \<and> contents (fst s') = fst (queue_run (contents (fst s)) cs)"
  using db.run_refines [OF assms, of pick cs] by simp

definition new_dataBuffer :: "int \<Rightarrow> buffer_state" where
  "new_dataBuffer expected =
     (\<lparr>chunks = [], db_r = 0, db_w = 0, db_size = 0, db_expected = expected\<rparr>, replicate 5 [])"

lemma new_dataBuffer_ok: "state_ok (new_dataBuffer e)" "contents (fst (new_dataBuffer e)) = []"
  by (simp_all add: state_ok_def new_dataBuffer_def buffer_ok_def contents_def pools_ok_def class_sizes)

theorem dataBuffer_refines_byte_queue_witness:
  "\<exists>s'. buf_run (dataBuffer_ops (\<lambda>_ _. 0)) (new_dataBuffer 5)
      [CallWrite [1, 2, 3], CallRead 2, CallWrite [4], CallLen, CallRead 9, CallRead 1] =
    Some (s', [Wrote 3, Read_bytes [1, 2], Wrote 1, Len_is 2, Read_bytes [3, 4], Read_failed errReadEmpty])"
  using dataBuffer_refines_byte_queue [OF new_dataBuffer_ok(1) [of 5], of "\<lambda>_ _. 0"
    "[CallWrite [1, 2, 3], CallRead 2, CallWrite [4], CallLen, CallRead 9, CallRead 1]"]
  by (auto simp: new_dataBuffer_ok(2))

end
