(* ===== verification/Http2_Pipe.thy ===== *)
theory Http2_Pipe
  imports Http2_DataBuffer
begin

text \<open>
  The pipe between the connection and the reader of a body (golang.org/x/net/http2/pipe.go). Every
  method holds the mutex, so a session is a sequence of calls; a \<open>Read\<close> that would wait on the
  condition variable is the result \<open>Wait\<close>, and is called again after the next \<open>Signal\<close>.
\<close>

section \<open>The pipe\<close>

text \<open>
  \<open>donec\<close> is the channel, \<open>Some True\<close> once closed. \<open>called\<close> logs the calls of \<open>readFn\<close>.
\<close>

record ('b, 'e, 'f) pipe =
  pb :: "'b option"
  perr :: "'e option"
  breakErr :: "'e option"
  donec :: "bool option"
  readFn :: "'f option"
  called :: "'f list"

datatype 'e pipe_error = PipeErr 'e | errClosedPipeWrite | BufferErr buffer_error

datatype 'e read_result = Got bytes | ReadErr "'e pipe_error" | Wait

definition pipe_Len :: "'b pipeBuffer \<Rightarrow> ('b, 'e, 'f) pipe \<Rightarrow> int" where
  "pipe_Len ops p = (case pb p of None \<Rightarrow> 0 | Some b \<Rightarrow> buf_Len ops b)"

definition pipe_Read :: "'b pipeBuffer \<Rightarrow> ('b, 'e, 'f) pipe \<Rightarrow> nat \<Rightarrow> (unit, ('b, 'e, 'f) pipe \<times> 'e read_result) go option" where
  "pipe_Read ops p m =
     (case breakErr p of
        Some e \<Rightarrow> Some (Ret (p, ReadErr (PipeErr e)))
      | None \<Rightarrow>
          if pb p \<noteq> None \<and> buf_Len ops (the (pb p)) > 0
          then map_option
                 (\<lambda>x. case x of
                        Ret (b, bs) \<Rightarrow> Ret (p\<lparr>pb := Some b\<rparr>, Got bs)
                      | Fail e \<Rightarrow> Ret (p, ReadErr (BufferErr e))
                      | Panic \<Rightarrow> Panic)
                 (buf_Read ops (the (pb p)) m)
          else case perr p of
                 Some e \<Rightarrow>
                   (let p = (case readFn p of
                               Some fn \<Rightarrow> p\<lparr>called := called p @ [fn], readFn := None\<rparr>
                             | None \<Rightarrow> p)
                    in Some (Ret (p\<lparr>pb := None\<rparr>, ReadErr (PipeErr e))))
               | None \<Rightarrow> Some (Ret (p, Wait)))"

definition pipe_Write :: "'b pipeBuffer \<Rightarrow> ('b, 'e, 'f) pipe \<Rightarrow> bytes \<Rightarrow>
    (unit, ('b, 'e, 'f) pipe \<times> ('e pipe_error + nat)) go option" where
  "pipe_Write ops p d =
     (if perr p \<noteq> None then Some (Ret (p, Inl errClosedPipeWrite))
      else if breakErr p \<noteq> None then Some (Ret (p, Inr (length d)))
      else case pb p of
             None \<Rightarrow> Some Panic
           | Some b \<Rightarrow>
               map_option
                 (\<lambda>x. case x of
                        Ret (b, k) \<Rightarrow> Ret (p\<lparr>pb := Some b\<rparr>, Inr k)
                      | Fail e \<Rightarrow> Ret (p, Inl (BufferErr e))
                      | Panic \<Rightarrow> Panic)
                 (buf_Write ops b d))"

definition closeDoneLocked :: "('b, 'e, 'f) pipe \<Rightarrow> ('b, 'e, 'f) pipe" where
  "closeDoneLocked p =
     (case donec p of
        None \<Rightarrow> p
      | Some closed \<Rightarrow> if closed then p else p\<lparr>donec := Some True\<rparr>)"

datatype close_dst = DstErr | DstBreakErr

definition closeWithError :: "('b, 'e, 'f) pipe \<Rightarrow> close_dst \<Rightarrow> 'e option \<Rightarrow> 'f option \<Rightarrow> (unit, ('b, 'e, 'f) pipe) go" where
  "closeWithError p dst err fn =
     (if err = None then Panic
      else if (case dst of DstErr \<Rightarrow> perr p | DstBreakErr \<Rightarrow> breakErr p) \<noteq> None then Ret p
      else let p = p\<lparr>readFn := fn\<rparr>
           in Ret (closeDoneLocked
                (case dst of
                   DstErr \<Rightarrow> p\<lparr>perr := err\<rparr>
                 | DstBreakErr \<Rightarrow> p\<lparr>pb := None, breakErr := err\<rparr>)))"

definition CloseWithError :: "('b, 'e, 'f) pipe \<Rightarrow> 'e option \<Rightarrow> (unit, ('b, 'e, 'f) pipe) go" where
  "CloseWithError p err = closeWithError p DstErr err None"

definition BreakWithError :: "('b, 'e, 'f) pipe \<Rightarrow> 'e option \<Rightarrow> (unit, ('b, 'e, 'f) pipe) go" where
  "BreakWithError p err = closeWithError p DstBreakErr err None"

definition closeWithErrorAndCode :: "('b, 'e, 'f) pipe \<Rightarrow> 'e option \<Rightarrow> 'f option \<Rightarrow> (unit, ('b, 'e, 'f) pipe) go" where
  "closeWithErrorAndCode p err fn = closeWithError p DstErr err fn"

definition pipe_Err :: "('b, 'e, 'f) pipe \<Rightarrow> 'e option" where
  "pipe_Err p = (if breakErr p \<noteq> None then breakErr p else perr p)"

text \<open>\<open>Done\<close>: the pipe, and whether the channel is closed.\<close>

definition pipe_Done :: "('b, 'e, 'f) pipe \<Rightarrow> ('b, 'e, 'f) pipe \<times> bool option" where
  "pipe_Done p =
     (let p = (if donec p = None
               then let p = p\<lparr>donec := Some False\<rparr>
                    in if perr p \<noteq> None \<or> breakErr p \<noteq> None then closeDoneLocked p else p
               else p)
      in (p, donec p))"

section \<open>Sessions\<close>

datatype ('e, 'f) pipe_call =
    PRead nat | PWrite bytes | PClose 'e | PCloseCode 'e 'f | PBreak 'e | PErr | PDone | PLen

datatype 'e pipe_result =
    RRead "'e read_result" | RWrite "'e pipe_error + nat" | RUnit | RErr "'e option" | RDone "bool option" | RLen int

text \<open>One call; \<open>None\<close> when it does not return or panics.\<close>

fun pipe_step :: "'b pipeBuffer \<Rightarrow> ('b, 'e, 'f) pipe \<Rightarrow> ('e, 'f) pipe_call \<Rightarrow> (('b, 'e, 'f) pipe \<times> 'e pipe_result) option" where
  "pipe_step ops p (PRead m) =
     (case pipe_Read ops p m of Some (Ret (p, r)) \<Rightarrow> Some (p, RRead r) | _ \<Rightarrow> None)"
| "pipe_step ops p (PWrite d) =
     (case pipe_Write ops p d of Some (Ret (p, r)) \<Rightarrow> Some (p, RWrite r) | _ \<Rightarrow> None)"
| "pipe_step ops p (PClose e) =
     (case CloseWithError p (Some e) of Ret p \<Rightarrow> Some (p, RUnit) | _ \<Rightarrow> None)"
| "pipe_step ops p (PCloseCode e f) =
     (case closeWithErrorAndCode p (Some e) (Some f) of Ret p \<Rightarrow> Some (p, RUnit) | _ \<Rightarrow> None)"
| "pipe_step ops p (PBreak e) =
     (case BreakWithError p (Some e) of Ret p \<Rightarrow> Some (p, RUnit) | _ \<Rightarrow> None)"
| "pipe_step ops p PErr = Some (p, RErr (pipe_Err p))"
| "pipe_step ops p PDone = (case pipe_Done p of (p, c) \<Rightarrow> Some (p, RDone c))"
| "pipe_step ops p PLen = Some (p, RLen (pipe_Len ops p))"

fun pipe_run :: "'b pipeBuffer \<Rightarrow> ('b, 'e, 'f) pipe \<Rightarrow> ('e, 'f) pipe_call list \<Rightarrow>
    (('b, 'e, 'f) pipe \<times> 'e pipe_result list) option" where
  "pipe_run ops p [] = Some (p, [])"
| "pipe_run ops p (c # cs) =
     (case pipe_step ops p c of
        None \<Rightarrow> None
      | Some (p, r) \<Rightarrow> map_option (\<lambda>(p, rs). (p, r # rs)) (pipe_run ops p cs))"

text \<open>The bytes readers got, and the bytes of the writes that were accepted.\<close>

fun received :: "'e pipe_result list \<Rightarrow> bytes" where
  "received (RRead (Got bs) # rs) = bs @ received rs"
| "received (_ # rs) = received rs"
| "received [] = []"

fun accepted_bytes :: "('e, 'f) pipe_call list \<Rightarrow> 'e pipe_result list \<Rightarrow> bytes" where
  "accepted_bytes (PWrite d # cs) (RWrite (Inr _) # rs) = d @ accepted_bytes cs rs"
| "accepted_bytes (_ # cs) (_ # rs) = accepted_bytes cs rs"
| "accepted_bytes _ _ = []"

section \<open>Any well-behaved buffer\<close>

definition pipe_ok :: "('b \<Rightarrow> bool) \<Rightarrow> ('b, 'e, 'f) pipe \<Rightarrow> bool" where
  "pipe_ok ok p \<longleftrightarrow> (pb p = None \<longrightarrow> perr p \<noteq> None \<or> breakErr p \<noteq> None) \<and> (\<forall>b. pb p = Some b \<longrightarrow> ok b) \<and>
     (breakErr p \<noteq> None \<longrightarrow> pb p = None) \<and>
     (\<forall>c. donec p = Some c \<longrightarrow> (c \<longleftrightarrow> perr p \<noteq> None \<or> breakErr p \<noteq> None))"

definition pending :: "('b \<Rightarrow> bytes) \<Rightarrow> ('b, 'e, 'f) pipe \<Rightarrow> bytes" where
  "pending queue p = (case pb p of None \<Rightarrow> [] | Some b \<Rightarrow> queue b)"

lemma received_Cons: "received (r # rs) = received [r] @ received rs"
  by (cases "r # rs" rule: received.cases) auto

lemma accepted_Cons: "accepted_bytes (c # cs) (r # rs) = accepted_bytes [c] [r] @ accepted_bytes cs rs"
  by (cases "(c # cs, r # rs)" rule: accepted_bytes.cases) auto

fun not_break :: "('e, 'f) pipe_call \<Rightarrow> bool" where
  "not_break (PBreak _) = False"
| "not_break _ = True"

fun no_bytes :: "'e pipe_result \<Rightarrow> bool" where
  "no_bytes (RRead (Got _)) = False"
| "no_bytes (RRead _) = True"
| "no_bytes _ = False"

text \<open>What a call on a pipe broken with error \<open>e\<close> returns.\<close>

fun broken_result :: "'e \<Rightarrow> ('e, 'f) pipe_call \<Rightarrow> 'e pipe_result \<Rightarrow> bool" where
  "broken_result e (PRead m) r \<longleftrightarrow> r = RRead (ReadErr (PipeErr e))"
| "broken_result e PErr r \<longleftrightarrow> r = RErr (Some e)"
| "broken_result e PDone r \<longleftrightarrow> r = RDone (Some True)"
| "broken_result e PLen r \<longleftrightarrow> r = RLen 0"
| "broken_result e _ r \<longleftrightarrow> True"

context pipe_buffer
begin

lemma closeWithError_ok:
  "pipe_ok ok p \<Longrightarrow> \<exists>p'. closeWithError p dst (Some e) fn = Ret p' \<and> pipe_ok ok p' \<and>
     (dst = DstErr \<longrightarrow> pending queue p' = pending queue p \<and> breakErr p' = breakErr p)"
  by (cases dst) (auto simp: closeWithError_def closeDoneLocked_def pipe_ok_def pending_def Let_def split: option.splits)

lemma Read_ok:
  assumes "pipe_ok ok p"
  shows "\<exists>p' r. pipe_Read ops p m = Some (Ret (p', r)) \<and> pipe_ok ok p' \<and> breakErr p' = breakErr p \<and> perr p' = perr p \<and>
    (breakErr p = None \<longrightarrow>
      (if pending queue p \<noteq> []
       then r = Got (take m (pending queue p)) \<and> pending queue p' = drop m (pending queue p) \<and> readFn p' = readFn p \<and> called p' = called p
       else pending queue p' = [] \<and>
         (case perr p of
            Some e \<Rightarrow> r = ReadErr (PipeErr e) \<and> readFn p' = None \<and>
              called p' = called p @ (case readFn p of Some f \<Rightarrow> [f] | None \<Rightarrow> [])
          | None \<Rightarrow> r = Wait \<and> p' = p))) \<and>
    (\<forall>e. breakErr p = Some e \<longrightarrow> r = ReadErr (PipeErr e) \<and> p' = p)"
proof (cases "breakErr p = None \<and> pending queue p \<noteq> []")
  case True
  then obtain b where b: "pb p = Some b" "queue b \<noteq> []" "ok b"
    using assms by (auto simp: pending_def pipe_ok_def split: option.splits)
  obtain b' where b': "buf_Read ops b m = Some (Ret (b', take m (queue b)))" "ok b'" "queue b' = drop m (queue b)"
    using Read b by blast
  have "pipe_ok ok (p\<lparr>pb := Some b'\<rparr>)" using assms b b' True by (simp add: pipe_ok_def)
  then show ?thesis using True b b' Len [OF b(3)] by (simp add: pipe_Read_def pending_def)
next
  case False
  have "\<not> (pb p \<noteq> None \<and> buf_Len ops (the (pb p)) > 0)" if "breakErr p = None"
    using False that assms Len by (auto simp: pending_def pipe_ok_def)
  then show ?thesis using assms False
    by (cases "breakErr p"; cases "perr p"; cases "readFn p")
       (auto simp: pipe_Read_def pipe_ok_def pending_def split: option.splits)
qed

lemma Write_ok:
  assumes "pipe_ok ok p"
  shows "\<exists>p' r. pipe_Write ops p d = Some (Ret (p', r)) \<and> pipe_ok ok p' \<and> breakErr p' = breakErr p \<and> perr p' = perr p \<and>
    (breakErr p \<noteq> None \<longrightarrow> p' = p) \<and>
    (if perr p \<noteq> None then r = Inl errClosedPipeWrite \<and> p' = p
     else r = Inr (length d) \<and> (breakErr p = None \<longrightarrow> pending queue p' = pending queue p @ d))"
proof (cases "perr p = None \<and> breakErr p = None")
  case True
  then obtain b where b: "pb p = Some b" "ok b" using assms by (auto simp: pipe_ok_def)
  obtain b' where b': "buf_Write ops b d = Some (Ret (b', length d))" "ok b'" "queue b' = queue b @ d"
    using Write b by blast
  have "pipe_ok ok (p\<lparr>pb := Some b'\<rparr>)" using assms b b' True by (simp add: pipe_ok_def)
  then show ?thesis using True b b' by (simp add: pipe_Write_def pending_def)
next
  case False
  then show ?thesis using assms by (auto simp: pipe_Write_def)
qed

lemma Done_ok:
  "pipe_ok ok p \<Longrightarrow> pipe_Done p = (p', c) \<Longrightarrow> pipe_ok ok p' \<and> breakErr p' = breakErr p \<and> pending queue p' = pending queue p \<and>
     perr p' = perr p \<and> c = Some (perr p \<noteq> None \<or> breakErr p \<noteq> None)"
  by (auto simp: pipe_Done_def closeDoneLocked_def pipe_ok_def pending_def Let_def split: if_splits option.splits)

lemma step_ok:
  assumes "pipe_ok ok p" "breakErr p = None" "not_break c"
  shows "\<exists>p' r. pipe_step ops p c = Some (p', r) \<and> pipe_ok ok p' \<and> breakErr p' = None \<and>
    received [r] @ pending queue p' = pending queue p @ accepted_bytes [c] [r] \<and>
    (no_bytes r \<longrightarrow> pending queue p = [])"
proof (cases c)
  case (PRead m)
  obtain p' r where "pipe_Read ops p m = Some (Ret (p', r))" "pipe_ok ok p'" "breakErr p' = None"
    "if pending queue p \<noteq> [] then r = Got (take m (pending queue p)) \<and> pending queue p' = drop m (pending queue p)
     else pending queue p' = [] \<and> (\<exists>e. r = ReadErr e) \<or> pending queue p' = [] \<and> r = Wait"
    using Read_ok [OF assms(1), of m] assms(2) by (auto split: if_splits option.splits)
  then show ?thesis using PRead by (auto split: if_splits)
next
  case (PWrite d)
  obtain p' r where "pipe_Write ops p d = Some (Ret (p', r))" "pipe_ok ok p'" "breakErr p' = None"
    "if perr p \<noteq> None then r = Inl errClosedPipeWrite \<and> p' = p
     else r = Inr (length d) \<and> pending queue p' = pending queue p @ d"
    using Write_ok [OF assms(1), of d] assms(2) by (auto split: if_splits)
  then show ?thesis using PWrite by (auto split: if_splits)
next
  case (PClose e)
  then show ?thesis using closeWithError_ok [OF assms(1), of DstErr e None] assms(2)
    by (auto simp: CloseWithError_def)
next
  case (PCloseCode e f)
  then show ?thesis using closeWithError_ok [OF assms(1), of DstErr e "Some f"] assms(2)
    by (auto simp: closeWithErrorAndCode_def)
next
  case PDone
  obtain p' x where "pipe_Done p = (p', x)" by fastforce
  then show ?thesis using Done_ok [OF assms(1)] PDone assms(2) by auto
qed (use assms in auto)

lemma run_fifo:
  assumes "pipe_ok ok p" "breakErr p = None" "list_all not_break cs"
  shows "\<exists>p' rs. pipe_run ops p cs = Some (p', rs) \<and> length rs = length cs \<and> pipe_ok ok p' \<and>
    received rs @ pending queue p' = pending queue p @ accepted_bytes cs rs \<and>
    (\<forall>i < length rs. no_bytes (rs ! i) \<longrightarrow>
       received (take i rs) = pending queue p @ accepted_bytes (take i cs) (take i rs))"
  using assms
proof (induction cs arbitrary: p)
  case Nil
  then show ?case by simp
next
  case (Cons c cs)
  obtain p1 r where st: "pipe_step ops p c = Some (p1, r)" "pipe_ok ok p1" "breakErr p1 = None"
    "received [r] @ pending queue p1 = pending queue p @ accepted_bytes [c] [r]" "no_bytes r \<longrightarrow> pending queue p = []"
    using step_ok [OF Cons.prems(1,2), of c] Cons.prems(3) by auto
  from Cons.IH [OF st(2,3)] Cons.prems(3) obtain p' rs where
    rn: "pipe_run ops p1 cs = Some (p', rs)" "length rs = length cs" "pipe_ok ok p'"
    "received rs @ pending queue p' = pending queue p1 @ accepted_bytes cs rs"
    "\<And>i. i < length rs \<Longrightarrow> no_bytes (rs ! i) \<Longrightarrow>
       received (take i rs) = pending queue p1 @ accepted_bytes (take i cs) (take i rs)" by auto
  have join: "received (r # xs) @ q = pending queue p @ accepted_bytes (c # ds) (r # xs)"
    if "received xs @ q = pending queue p1 @ accepted_bytes ds xs" for xs ds q
    using that st(4) by (metis append.assoc received_Cons accepted_Cons)
  have "received (take i (r # rs)) = pending queue p @ accepted_bytes (take i (c # cs)) (take i (r # rs))"
    if "i < length (r # rs)" "no_bytes ((r # rs) ! i)" for i
  proof (cases i)
    case 0
    then show ?thesis using that st(5) by simp
  next
    case (Suc j)
    then show ?thesis using join [of "take j rs" "[]" "take j cs"] rn(5) [of j] that by simp
  qed
  then show ?case using st(1) rn(1-3) join [OF rn(4)] by simp
qed

lemma drain:
  assumes "pipe_ok ok p" "breakErr p = None" "perr p = Some e" "0 < m" "length (pending queue p) \<le> k"
  shows "\<exists>p' rs. pipe_run ops p (replicate (Suc k) (PRead m)) = Some (p', rs) \<and> received rs = pending queue p \<and>
    last rs = RRead (ReadErr (PipeErr e)) \<and> called p' = called p @ (case readFn p of Some f \<Rightarrow> [f] | None \<Rightarrow> [])"
  using assms
proof (induction k arbitrary: p)
  case 0
  then show ?case using Read_ok [OF 0(1), of m] by fastforce
next
  case (Suc k)
  obtain p1 r where st: "pipe_Read ops p m = Some (Ret (p1, r))" "pipe_ok ok p1" "breakErr p1 = None" "perr p1 = Some e"
    "if pending queue p \<noteq> []
     then r = Got (take m (pending queue p)) \<and> pending queue p1 = drop m (pending queue p) \<and> readFn p1 = readFn p \<and>
       called p1 = called p
     else pending queue p1 = [] \<and> r = ReadErr (PipeErr e) \<and> readFn p1 = None \<and>
       called p1 = called p @ (case readFn p of Some f \<Rightarrow> [f] | None \<Rightarrow> [])"
    using Read_ok [OF Suc.prems(1), of m] Suc.prems(2,3) by (auto split: if_splits)
  have "length (pending queue p1) \<le> k" using st(5) Suc.prems(4,5) by (auto split: if_splits)
  from Suc.IH [OF st(2-4) Suc.prems(4) this] obtain p' rs where
    rn: "pipe_run ops p1 (replicate (Suc k) (PRead m)) = Some (p', rs)" "received rs = pending queue p1"
    "last rs = RRead (ReadErr (PipeErr e))"
    "called p' = called p1 @ (case readFn p1 of Some f \<Rightarrow> [f] | None \<Rightarrow> [])" by blast
  have "rs \<noteq> []" using rn(1) by (auto split: option.splits prod.splits)
  moreover have "pipe_run ops p (replicate (Suc (Suc k)) (PRead m)) = Some (p', RRead r # rs)"
    using st(1) rn(1) by (subst replicate_Suc) (simp del: replicate_Suc)
  ultimately show ?case using rn st(5) received_Cons [of "RRead r" rs] by (auto split: if_splits)
qed

lemma broken:
  assumes "breakErr p = Some e" "pipe_ok ok p"
  shows "\<exists>p' rs. pipe_run ops p cs = Some (p', rs) \<and> length rs = length cs \<and> breakErr p' = Some e \<and>
    received rs = [] \<and>
    (\<forall>i < length cs. broken_result e (cs ! i) (rs ! i))"
  using assms
proof (induction cs arbitrary: p)
  case Nil
  then show ?case by simp
next
  case (Cons c cs)
  have "\<exists>p1 r. pipe_step ops p c = Some (p1, r) \<and> breakErr p1 = Some e \<and> pipe_ok ok p1 \<and> received [r] = [] \<and>
    broken_result e c r"
  proof (cases c)
    case (PRead m)
    then show ?thesis using Cons.prems by (simp add: pipe_Read_def)
  next
    case (PWrite d)
    then show ?thesis using Cons.prems by (simp add: pipe_Write_def)
  next
    case (PClose e')
    then show ?thesis using closeWithError_ok [OF Cons.prems(2), of DstErr e' None] Cons.prems(1)
      by (auto simp: CloseWithError_def)
  next
    case (PCloseCode e' f)
    then show ?thesis using closeWithError_ok [OF Cons.prems(2), of DstErr e' "Some f"] Cons.prems(1)
      by (auto simp: closeWithErrorAndCode_def)
  next
    case (PBreak e')
    then show ?thesis using Cons.prems by (simp add: BreakWithError_def closeWithError_def)
  next
    case PErr
    then show ?thesis using Cons.prems by (simp add: pipe_Err_def)
  next
    case PDone
    obtain p' x where "pipe_Done p = (p', x)" by fastforce
    then show ?thesis using Done_ok [OF Cons.prems(2)] PDone Cons.prems(1) by auto
  next
    case PLen
    then show ?thesis using Cons.prems by (auto simp: pipe_Len_def pipe_ok_def)
  qed
  then obtain p1 r where st: "pipe_step ops p c = Some (p1, r)" "breakErr p1 = Some e" "pipe_ok ok p1" "received [r] = []"
    "broken_result e c r" by blast
  obtain p' rs where rn: "pipe_run ops p1 cs = Some (p', rs)" "length rs = length cs" "breakErr p' = Some e"
    "received rs = []" "\<forall>i < length cs. broken_result e (cs ! i) (rs ! i)" using Cons.IH [OF st(2,3)] by blast
  have "broken_result e ((c # cs) ! i) ((r # rs) ! i)" if "i < length (c # cs)" for i
    using st(5) rn(5) that by (cases i) simp_all
  moreover have "received (r # rs) = []" by (subst received_Cons) (simp add: st(4) rn(4))
  ultimately show ?case using st(1) rn(1-3) by simp
qed

end

section \<open>A pipe over the chunked buffer\<close>

abbreviation data_pipe_ok :: "(buffer_state, 'e, 'f) pipe \<Rightarrow> bool" where
  "data_pipe_ok \<equiv> pipe_ok state_ok"

abbreviation data_pending :: "(buffer_state, 'e, 'f) pipe \<Rightarrow> bytes" where
  "data_pending \<equiv> pending (contents \<circ> fst)"

text \<open>C4: A pipe delivers what was written, in order and without loss. Take any sequence of calls on a pipe
  over the chunked buffer, from any well-formed state that is not broken and with no
  \<open>BreakWithError\<close> among the calls. Every call returns; none panics. The bytes the readers got,
  followed by the bytes still in the buffer, are the bytes that were in the buffer followed by those of
  the accepted writes. A \<open>Read\<close> waits or reports the error of the close only at a moment when
  everything accepted before it had been delivered.
\<close>

theorem pipe_session:
  assumes "data_pipe_ok p" "breakErr p = None" "list_all not_break cs"
  shows "\<exists>p' rs. pipe_run (dataBuffer_ops pick) p cs = Some (p', rs) \<and> length rs = length cs \<and> data_pipe_ok p' \<and>
    received rs @ data_pending p' = data_pending p @ accepted_bytes cs rs \<and>
    (\<forall>i < length rs. no_bytes (rs ! i) \<longrightarrow>
       received (take i rs) = data_pending p @ accepted_bytes (take i cs) (take i rs))"
  using db.run_fifo [OF assms, of pick] .

definition new_pipe :: "(buffer_state, string, string) pipe" where
  "new_pipe = \<lparr>pb = Some (new_dataBuffer 0), perr = None, breakErr = None, donec = None, readFn = None, called = []\<rparr>"

lemma new_pipe_ok: "data_pipe_ok new_pipe" "data_pending new_pipe = []" "breakErr new_pipe = None"
  by (simp_all add: pipe_ok_def pending_def new_pipe_def new_dataBuffer_ok)

definition example_calls :: "(string, string) pipe_call list" where
  "example_calls = [PRead 1, PWrite [7, 8], PRead 1, PClose ''EOF'', PRead 5, PRead 5]"

theorem pipe_session_witness:
  "\<exists>p' rs. pipe_run (dataBuffer_ops (\<lambda>_ _. 0)) new_pipe example_calls = Some (p', rs) \<and>
     received rs @ data_pending p' = accepted_bytes example_calls rs"
proof -
  have "list_all not_break example_calls" by (simp add: example_calls_def)
  from pipe_session [OF new_pipe_ok(1,3) this, of "\<lambda>_ _. 0"] new_pipe_ok(2) show ?thesis by auto
qed

text \<open>C28: A closed pipe drains. Once the pipe is closed with error \<open>e\<close> and not broken, reading with a
  buffer that is not empty, at most once per pending byte and once more, delivers every pending byte
  and then \<open>e\<close>; the code given to \<open>closeWithErrorAndCode\<close> runs exactly once.
\<close>

theorem pipe_drains:
  assumes "data_pipe_ok p" "breakErr p = None" "perr p = Some e" "0 < m"
  shows "\<exists>p' rs. pipe_run (dataBuffer_ops pick) p (replicate (Suc (length (data_pending p))) (PRead m)) = Some (p', rs) \<and>
    received rs = data_pending p \<and> last rs = RRead (ReadErr (PipeErr e)) \<and>
    called p' = called p @ (case readFn p of Some f \<Rightarrow> [f] | None \<Rightarrow> [])"
  using db.drain [OF assms order_refl, of pick] .

definition closed_pipe :: "(buffer_state, string, string) pipe" where
  "closed_pipe = new_pipe\<lparr>perr := Some ''EOF'', readFn := Some ''trailers''\<rparr>"

lemma closed_pipe_ok: "data_pipe_ok closed_pipe" "breakErr closed_pipe = None" "perr closed_pipe = Some ''EOF''"
  "data_pending closed_pipe = []" "readFn closed_pipe = Some ''trailers''" "called closed_pipe = []"
  by (simp_all add: pipe_ok_def pending_def closed_pipe_def new_pipe_def new_dataBuffer_ok)

theorem pipe_drains_witness:
  "\<exists>p' rs. pipe_run (dataBuffer_ops (\<lambda>_ _. 0)) closed_pipe [PRead 4] = Some (p', rs) \<and>
     last rs = RRead (ReadErr (PipeErr ''EOF'')) \<and> called p' = [''trailers'']"
  using pipe_drains [OF closed_pipe_ok(1-3), of 4 "\<lambda>_ _. 0"]
  by (simp add: closed_pipe_ok(4-6) del: pipe_run.simps) blast

text \<open>C31: Breaking a pipe is final. Once \<open>BreakWithError\<close> set error \<open>e\<close>, whether or not the pipe
  was closed with another error before, every later call returns, no reader gets another byte,
  every \<open>Read\<close> and \<open>Err\<close> reports \<open>e\<close>, the channel of \<open>Done\<close> is closed and
  \<open>Len\<close> is 0, whatever is written or closed in between.
\<close>

theorem pipe_broken:
  assumes "data_pipe_ok p" "breakErr p = None"
  shows "\<exists>p' rs. pipe_run (dataBuffer_ops pick) p (PBreak e # cs) = Some (p', RUnit # rs) \<and> length rs = length cs \<and>
    received rs = [] \<and>
    (\<forall>i < length cs. broken_result e (cs ! i) (rs ! i))"
proof -
  obtain p1 where p1: "BreakWithError p (Some e) = Ret p1" "data_pipe_ok p1"
    using db.closeWithError_ok [OF assms(1), of DstBreakErr e None] by (auto simp: BreakWithError_def)
  then have "breakErr p1 = Some e" using assms(2)
    by (auto simp: BreakWithError_def closeWithError_def closeDoneLocked_def Let_def split: option.splits)
  from db.broken [OF this p1(2), of pick cs] p1(1) show ?thesis by auto
qed

theorem pipe_broken_witness:
  "perr closed_pipe = Some ''EOF'' \<and>
   (\<exists>p' rs. pipe_run (dataBuffer_ops (\<lambda>_ _. 0)) closed_pipe [PBreak ''reset'', PErr] = Some (p', RUnit # rs) \<and>
      rs ! 0 = RErr (Some ''reset''))"
  using pipe_broken [OF closed_pipe_ok(1,2), of "\<lambda>_ _. 0" "''reset''" "[PErr]"] closed_pipe_ok(3)
  by (auto simp del: pipe_run.simps)

end
