(* ===== verification/Http2_Sched.thy ===== *)
theory Http2_Sched
  imports Http2_Flow
begin

text \<open>
  Write requests, their queues and the random write scheduler (golang.org/x/net/http2: writesched.go,
  writesched_random.go).
\<close>

section \<open>Write requests\<close>

text \<open>
  The writers of write.go: DATA frames, stream errors, and the others (SETTINGS, HEADERS, PING, ...),
  which the schedulers do not look into and which carry a number as their identity.
\<close>

record writeData =
  wd_streamID :: u32
  wd_p :: bytes
  wd_endStream :: bool

datatype writeFramer = WriteData writeData | WriteStreamError u32 u32 | WriteOther nat

text \<open>A stream, with its flow in the store of flows; and a request with its done channel (a number).\<close>

record stream =
  st_id :: u32
  st_flow :: flow_addr

record FrameWriteRequest =
  wr_write :: "writeFramer option"
  wr_stream :: "stream option"
  wr_done :: "nat option"

definition empty_request :: FrameWriteRequest where
  "empty_request = \<lparr>wr_write = None, wr_stream = None, wr_done = None\<rparr>"

definition wr_StreamID :: "FrameWriteRequest \<Rightarrow> u32" where
  "wr_StreamID wr =
     (case wr_stream wr of
        None \<Rightarrow> (case wr_write wr of Some (WriteStreamError sid _) \<Rightarrow> sid | _ \<Rightarrow> 0)
      | Some st \<Rightarrow> st_id st)"

definition wr_DataSize :: "FrameWriteRequest \<Rightarrow> nat" where
  "wr_DataSize wr = (case wr_write wr of Some (WriteData wd) \<Rightarrow> length (wd_p wd) | _ \<Rightarrow> 0)"

text \<open>
  What the schedulers read and change outside themselves: the flows and the maximal frame size of the
  connection.
\<close>

record conn_state =
  cs_flows :: flows
  sc_maxFrameSize :: "32 word"

datatype consume_result = Consumed0 | Consumed1 FrameWriteRequest | Consumed2 FrameWriteRequest FrameWriteRequest

definition min_s :: "32 word \<Rightarrow> 32 word \<Rightarrow> 32 word" where
  "min_s a b = (if sint b < sint a then b else a)"

definition Consume :: "conn_state \<Rightarrow> FrameWriteRequest \<Rightarrow> 32 word \<Rightarrow> (unit, conn_state \<times> consume_result) go" where
  "Consume cs wr k =
     (case wr_write wr of
        Some (WriteData wd) \<Rightarrow>
          if wd_p wd = [] then Ret (cs, Consumed1 wr)
          else (case wr_stream wr of
             None \<Rightarrow> Panic
           | Some st \<Rightarrow>
               (let allowed = min_s (min_s (available (cs_flows cs) (st_flow st)) k) (sc_maxFrameSize cs)
                in if sint allowed \<le> 0 then Ret (cs, Consumed0)
                   else if int (length (wd_p wd)) > sint allowed
                   then go_bind (flow_take (cs_flows cs) (st_flow st) allowed) (\<lambda>h.
                          Ret (cs\<lparr>cs_flows := h\<rparr>,
                               Consumed2
                                 \<lparr>wr_write = Some (WriteData (wd\<lparr>wd_p := take (nat (sint allowed)) (wd_p wd), wd_endStream := False\<rparr>)),
                                  wr_stream = Some st, wr_done = None\<rparr>
                                 \<lparr>wr_write = Some (WriteData (wd\<lparr>wd_p := drop (nat (sint allowed)) (wd_p wd)\<rparr>)),
                                  wr_stream = Some st, wr_done = wr_done wr\<rparr>))
                   else go_bind (flow_take (cs_flows cs) (st_flow st) (word_of_nat (length (wd_p wd)))) (\<lambda>h.
                          Ret (cs\<lparr>cs_flows := h\<rparr>, Consumed1 wr))))
      | _ \<Rightarrow> Ret (cs, Consumed1 wr))"

text \<open>
  \<open>replyToWriter\<close>: the error goes to the done channel, which must have room; \<open>chan\<close> says
  which channels have.
\<close>

definition replyToWriter :: "(nat \<Rightarrow> bool) \<Rightarrow> FrameWriteRequest \<Rightarrow> 'e \<Rightarrow> (unit, FrameWriteRequest \<times> (nat \<times> 'e) option) go" where
  "replyToWriter chan wr err =
     (case wr_done wr of
        None \<Rightarrow> Ret (wr, None)
      | Some d \<Rightarrow> if chan d then Ret (wr\<lparr>wr_write := None\<rparr>, Some (d, err)) else Panic)"

section \<open>Queues\<close>

type_synonym writeQueue = "FrameWriteRequest list"

definition queue_push :: "writeQueue \<Rightarrow> FrameWriteRequest \<Rightarrow> writeQueue" where
  "queue_push q wr = q @ [wr]"

fun queue_shift :: "writeQueue \<Rightarrow> (unit, writeQueue \<times> FrameWriteRequest) go" where
  "queue_shift [] = Panic"
| "queue_shift (wr # q) = Ret (q, wr)"

definition queue_consume :: "conn_state \<Rightarrow> writeQueue \<Rightarrow> 32 word \<Rightarrow> (unit, conn_state \<times> writeQueue \<times> FrameWriteRequest option) go" where
  "queue_consume cs q k =
     (if q = [] then Ret (cs, q, None)
      else go_bind (Consume cs (hd q) k) (\<lambda>(cs, r).
        case r of
          Consumed0 \<Rightarrow> Ret (cs, q, None)
        | Consumed1 wr \<Rightarrow> go_bind (queue_shift q) (\<lambda>(q, _). Ret (cs, q, Some wr))
        | Consumed2 wr rest \<Rightarrow> Ret (cs, q[0 := rest], Some wr)))"

type_synonym writeQueuePool = "writeQueue list"

definition pool_put :: "writeQueuePool \<Rightarrow> writeQueue \<Rightarrow> writeQueuePool" where
  "pool_put p q = p @ [take 0 q]"

definition pool_get :: "writeQueuePool \<Rightarrow> writeQueuePool \<times> writeQueue" where
  "pool_get p = (if p = [] then (p, []) else (butlast p, last p))"

section \<open>The random scheduler\<close>

record randomWriteScheduler =
  zero :: writeQueue
  sq :: "u32 \<rightharpoonup> writeQueue"
  queuePool :: writeQueuePool

definition NewRandomWriteScheduler :: randomWriteScheduler where
  "NewRandomWriteScheduler = \<lparr>zero = [], sq = Map.empty, queuePool = []\<rparr>"

definition random_OpenStream :: "randomWriteScheduler \<Rightarrow> u32 \<Rightarrow> randomWriteScheduler" where
  "random_OpenStream ws streamID = ws"

definition random_CloseStream :: "randomWriteScheduler \<Rightarrow> u32 \<Rightarrow> randomWriteScheduler" where
  "random_CloseStream ws streamID =
     (case sq ws streamID of
        None \<Rightarrow> ws
      | Some q \<Rightarrow> ws\<lparr>sq := (sq ws)(streamID := None), queuePool := pool_put (queuePool ws) q\<rparr>)"

definition random_Push :: "randomWriteScheduler \<Rightarrow> FrameWriteRequest \<Rightarrow> randomWriteScheduler" where
  "random_Push ws wr =
     (let sid = wr_StreamID wr
      in if sid = 0 then ws\<lparr>zero := queue_push (zero ws) wr\<rparr>
         else case sq ws sid of
                Some q \<Rightarrow> ws\<lparr>sq := (sq ws)(sid \<mapsto> queue_push q wr)\<rparr>
              | None \<Rightarrow>
                  (case pool_get (queuePool ws) of
                     (p, q) \<Rightarrow> ws\<lparr>queuePool := p, sq := (sq ws)(sid \<mapsto> queue_push q wr)\<rparr>))"

text \<open>
  The iteration over the map \<open>sq\<close>, whose order the language leaves open: \<open>ids\<close> are the
  keys in the order of this iteration.
\<close>

fun pop_loop :: "conn_state \<Rightarrow> randomWriteScheduler \<Rightarrow> u32 list \<Rightarrow>
    (unit, conn_state \<times> randomWriteScheduler \<times> FrameWriteRequest option) go" where
  "pop_loop cs ws [] = Ret (cs, ws, None)"
| "pop_loop cs ws (sid # ids) =
     (case sq ws sid of
        None \<Rightarrow> pop_loop cs ws ids
      | Some q \<Rightarrow>
          go_bind (queue_consume cs q 0x7fffffff) (\<lambda>(cs, q, r).
            case r of
              Some wr \<Rightarrow> Ret (cs, ws\<lparr>sq := (sq ws)(sid \<mapsto> q)\<rparr>, Some wr)
            | None \<Rightarrow> pop_loop cs (ws\<lparr>sq := (sq ws)(sid \<mapsto> q)\<rparr>) ids))"

definition random_Pop :: "conn_state \<Rightarrow> randomWriteScheduler \<Rightarrow> u32 list \<Rightarrow>
    (unit, conn_state \<times> randomWriteScheduler \<times> FrameWriteRequest option) go" where
  "random_Pop cs ws ids =
     (if zero ws \<noteq> [] then go_bind (queue_shift (zero ws)) (\<lambda>(q, wr). Ret (cs, ws\<lparr>zero := q\<rparr>, Some wr))
      else pop_loop cs ws ids)"

section \<open>Consuming a request\<close>

lemma sint_min_s: "sint (min_s a b) = min (sint a) (sint b)"
  by (auto simp: min_s_def)

definition data_of :: "FrameWriteRequest \<Rightarrow> bytes" where
  "data_of wr = (case wr_write wr of Some (WriteData wd) \<Rightarrow> wd_p wd | _ \<Rightarrow> [])"

definition ends_stream :: "FrameWriteRequest \<Rightarrow> bool" where
  "ends_stream wr = (case wr_write wr of Some (WriteData wd) \<Rightarrow> wd_endStream wd | _ \<Rightarrow> False)"

text \<open>The bytes of a DATA request that may be sent now.\<close>

definition allowance :: "conn_state \<Rightarrow> stream \<Rightarrow> 32 word \<Rightarrow> int" where
  "allowance cs st k = min (min (sint (available (cs_flows cs) (st_flow st))) (sint k)) (sint (sc_maxFrameSize cs))"

text \<open>A DATA request belongs to a stream.\<close>

definition request_ok :: "FrameWriteRequest \<Rightarrow> bool" where
  "request_ok wr \<longleftrightarrow> (data_of wr \<noteq> [] \<longrightarrow> wr_stream wr \<noteq> None)"

lemma flow_take_le:
  "sint k \<le> sint (available h f) \<Longrightarrow> \<exists>h'. flow_take h f k = Ret h'"
  by (auto simp: flow_take_def Let_def split: option.splits)

text \<open>
  What a request puts on the wire and reports: its bytes, the end of the stream, the message on the
  done channel; a request that is not DATA is one unit.
\<close>

datatype atom = Byte byte | EndStream | Done nat | Frame FrameWriteRequest

definition atoms :: "FrameWriteRequest \<Rightarrow> atom list" where
  "atoms wr =
     (case wr_write wr of
        Some (WriteData wd) \<Rightarrow>
          map Byte (wd_p wd) @ (if wd_endStream wd then [EndStream] else []) @
          (case wr_done wr of None \<Rightarrow> [] | Some d \<Rightarrow> [Done d])
      | _ \<Rightarrow> [Frame wr])"

abbreviation queue_atoms :: "writeQueue \<Rightarrow> atom list" where
  "queue_atoms q \<equiv> concat (map atoms q)"

text \<open>Flow control or the frame size hold the request back.\<close>

definition blocked :: "conn_state \<Rightarrow> FrameWriteRequest \<Rightarrow> 32 word \<Rightarrow> bool" where
  "blocked cs wr k \<longleftrightarrow> data_of wr \<noteq> [] \<and> (\<forall>st. wr_stream wr = Some st \<longrightarrow> allowance cs st k \<le> 0)"

lemma Consume_cases:
  assumes "request_ok wr"
  shows "\<exists>cs' r. Consume cs wr k = Ret (cs', r) \<and> sc_maxFrameSize cs' = sc_maxFrameSize cs \<and>
    (case r of
       Consumed0 \<Rightarrow> blocked cs wr k \<and> cs' = cs
     | Consumed1 w \<Rightarrow> w = wr \<and> \<not> blocked cs wr k
     | Consumed2 w rest \<Rightarrow> \<not> blocked cs wr k \<and> atoms w @ atoms rest = atoms wr \<and> wr_StreamID w = wr_StreamID wr \<and>
         wr_StreamID rest = wr_StreamID wr \<and> request_ok rest \<and> data_of w \<noteq> [])"
proof (cases "data_of wr = []")
  case True
  then show ?thesis
    by (auto simp: Consume_def data_of_def blocked_def split: option.splits writeFramer.splits)
next
  case False
  then obtain wd where wd: "wr_write wr = Some (WriteData wd)" "wd_p wd \<noteq> []"
    by (auto simp: data_of_def split: option.splits writeFramer.splits)
  obtain st where st: "wr_stream wr = Some st" using assms False by (auto simp: request_ok_def)
  define allowed where "allowed = min_s (min_s (available (cs_flows cs) (st_flow st)) k) (sc_maxFrameSize cs)"
  have al: "sint allowed = allowance cs st k" by (simp add: allowed_def allowance_def sint_min_s)
  have av: "sint allowed \<le> sint (available (cs_flows cs) (st_flow st))" by (simp add: allowed_def sint_min_s)
  consider "sint allowed \<le> 0" | "0 < sint allowed" "int (length (wd_p wd)) > sint allowed"
    | "0 < sint allowed" "int (length (wd_p wd)) \<le> sint allowed" by linarith
  then show ?thesis
  proof cases
    case 1
    then show ?thesis using wd st al False
      by (auto simp: Consume_def blocked_def allowed_def [symmetric])
  next
    case 2
    obtain h where "flow_take (cs_flows cs) (st_flow st) allowed = Ret h" using flow_take_le [OF av] by blast
    then show ?thesis using wd st al False 2
      by (auto simp: Consume_def blocked_def allowed_def [symmetric] atoms_def wr_StreamID_def request_ok_def data_of_def
            simp flip: map_append append_assoc)
  next
    case 3
    have "length (wd_p wd) < 2 ^ 31" using 3 sint_u32_bounds(2) [of allowed] by simp
    then have "sint (word_of_nat (length (wd_p wd)) :: 32 word) = int (length (wd_p wd))"
      using sint_word_of_int [of "int (length (wd_p wd))"] by simp
    then obtain h where "flow_take (cs_flows cs) (st_flow st) (word_of_nat (length (wd_p wd))) = Ret h"
      using flow_take_le [of "word_of_nat (length (wd_p wd))"] 3 av by fastforce
    then show ?thesis using wd st al False 3
      by (auto simp: Consume_def blocked_def allowed_def [symmetric])
  qed
qed

lemma queue_consume_cases:
  assumes "\<forall>wr \<in> set q. request_ok wr \<and> wr_StreamID wr = sid"
  shows "\<exists>cs' q' r. queue_consume cs q k = Ret (cs', q', r) \<and>
    (\<forall>wr \<in> set q'. request_ok wr \<and> wr_StreamID wr = sid) \<and> sc_maxFrameSize cs' = sc_maxFrameSize cs \<and>
    (case r of
       None \<Rightarrow> q' = q \<and> cs' = cs \<and> (q = [] \<or> blocked cs (hd q) k)
     | Some wr \<Rightarrow> atoms wr @ queue_atoms q' = queue_atoms q \<and> wr_StreamID wr = sid)"
proof (cases q)
  case Nil
  then show ?thesis by (simp add: queue_consume_def)
next
  case (Cons w q1)
  obtain cs' r where "Consume cs w k = Ret (cs', r)" "sc_maxFrameSize cs' = sc_maxFrameSize cs"
    "case r of
       Consumed0 \<Rightarrow> blocked cs w k \<and> cs' = cs
     | Consumed1 w' \<Rightarrow> w' = w \<and> \<not> blocked cs w k
     | Consumed2 w' rest \<Rightarrow> \<not> blocked cs w k \<and> atoms w' @ atoms rest = atoms w \<and> wr_StreamID w' = wr_StreamID w \<and>
         wr_StreamID rest = wr_StreamID w \<and> request_ok rest \<and> data_of w' \<noteq> []"
    using Consume_cases [of w cs k] assms Cons by auto
  then show ?thesis using assms Cons
    by (cases r) (auto simp: queue_consume_def simp flip: append_assoc)
qed

section \<open>The interface of a scheduler\<close>

datatype 'o sched_op = SPush FrameWriteRequest | SPop 'o | SOpen u32 | SClose u32 | SEnv "conn_state \<Rightarrow> conn_state"

text \<open>
  A session: requests are pushed and popped, streams open and close, and in between flow control changes
  the windows in any way. The results are the popped requests, in order.
\<close>

fun sched_run ::
  "('s \<Rightarrow> FrameWriteRequest \<Rightarrow> 's) \<Rightarrow> (conn_state \<Rightarrow> 's \<Rightarrow> 'o \<Rightarrow> (unit, conn_state \<times> 's \<times> FrameWriteRequest option) go) \<Rightarrow>
   ('s \<Rightarrow> u32 \<Rightarrow> 's) \<Rightarrow> ('s \<Rightarrow> u32 \<Rightarrow> 's) \<Rightarrow> conn_state \<Rightarrow> 's \<Rightarrow> 'o sched_op list \<Rightarrow>
   (unit, 's \<times> FrameWriteRequest list) go" where
  "sched_run push pop opn cls cs s [] = Ret (s, [])"
| "sched_run push pop opn cls cs s (SPush wr # ops) = sched_run push pop opn cls cs (push s wr) ops"
| "sched_run push pop opn cls cs s (SPop x # ops) =
     go_bind (pop cs s x) (\<lambda>(cs, s, r).
       go_bind (sched_run push pop opn cls cs s ops) (\<lambda>(s, out). Ret (s, (case r of None \<Rightarrow> out | Some wr \<Rightarrow> wr # out))))"
| "sched_run push pop opn cls cs s (SOpen sid # ops) = sched_run push pop opn cls cs (opn s sid) ops"
| "sched_run push pop opn cls cs s (SClose sid # ops) = sched_run push pop opn cls cs (cls s sid) ops"
| "sched_run push pop opn cls cs s (SEnv f # ops) = sched_run push pop opn cls (f cs) s ops"

fun pushed :: "u32 \<Rightarrow> 'o sched_op list \<Rightarrow> FrameWriteRequest list" where
  "pushed sid (SPush wr # ops) = (if wr_StreamID wr = sid then [wr] else []) @ pushed sid ops"
| "pushed sid (_ # ops) = pushed sid ops"
| "pushed sid [] = []"

definition for_stream :: "u32 \<Rightarrow> FrameWriteRequest list \<Rightarrow> FrameWriteRequest list" where
  "for_stream sid = filter (\<lambda>wr. wr_StreamID wr = sid)"

fun keeps_stream :: "u32 \<Rightarrow> 'o sched_op \<Rightarrow> bool" where
  "keeps_stream sid (SClose t) \<longleftrightarrow> t \<noteq> sid"
| "keeps_stream sid (SPush wr) \<longleftrightarrow> request_ok wr"
| "keeps_stream sid _ \<longleftrightarrow> True"

locale write_scheduler =
  fixes push :: "'s \<Rightarrow> FrameWriteRequest \<Rightarrow> 's"
    and pop :: "conn_state \<Rightarrow> 's \<Rightarrow> 'o \<Rightarrow> (unit, conn_state \<times> 's \<times> FrameWriteRequest option) go"
    and opn cls :: "'s \<Rightarrow> u32 \<Rightarrow> 's"
    and queued :: "'s \<Rightarrow> u32 \<Rightarrow> writeQueue"
    and ok :: "'s \<Rightarrow> bool"
  assumes push: "ok s \<Longrightarrow> request_ok wr \<Longrightarrow> ok (push s wr) \<and>
      queued (push s wr) sid = (if wr_StreamID wr = sid then queued s sid @ [wr] else queued s sid)"
    and pop: "ok s \<Longrightarrow> \<exists>cs' s' r. pop cs s x = Ret (cs', s', r) \<and> ok s' \<and>
      (case r of
         None \<Rightarrow> queued s' = queued s
       | Some wr \<Rightarrow> atoms wr @ queue_atoms (queued s' (wr_StreamID wr)) = queue_atoms (queued s (wr_StreamID wr)) \<and>
           (\<forall>t. t \<noteq> wr_StreamID wr \<longrightarrow> queued s' t = queued s t))"
    and opn: "ok s \<Longrightarrow> ok (opn s t) \<and> queued (opn s t) = queued s"
    and cls: "ok s \<Longrightarrow> ok (cls s t) \<and> (sid \<noteq> t \<longrightarrow> queued (cls s t) sid = queued s sid)"
begin

lemma run_order:
  assumes "ok s" "list_all (keeps_stream sid) ops"
  shows "\<exists>s' out. sched_run push pop opn cls cs s ops = Ret (s', out) \<and> ok s' \<and>
    queue_atoms (for_stream sid out) @ queue_atoms (queued s' sid) =
      queue_atoms (queued s sid) @ queue_atoms (pushed sid ops)"
  using assms
proof (induction ops arbitrary: cs s)
  case Nil
  then show ?case by (simp add: for_stream_def)
next
  case (Cons op ops)
  show ?case
  proof (cases op)
    case (SPush wr)
    have p: "ok (push s wr)" "queued (push s wr) sid = (if wr_StreamID wr = sid then queued s sid @ [wr] else queued s sid)"
      using push [OF Cons.prems(1)] Cons.prems(2) SPush by simp_all
    obtain s' out where "sched_run push pop opn cls cs (push s wr) ops = Ret (s', out)" "ok s'"
      "queue_atoms (for_stream sid out) @ queue_atoms (queued s' sid) =
        queue_atoms (queued (push s wr) sid) @ queue_atoms (pushed sid ops)"
      using Cons.IH [OF p(1)] Cons.prems(2) by (metis list.pred_inject(2))
    then show ?thesis using p(2) SPush by (cases "wr_StreamID wr = sid") simp_all
  next
    case (SPop x)
    obtain cs1 s1 r where r: "pop cs s x = Ret (cs1, s1, r)" "ok s1"
      "case r of
         None \<Rightarrow> queued s1 = queued s
       | Some wr \<Rightarrow> atoms wr @ queue_atoms (queued s1 (wr_StreamID wr)) = queue_atoms (queued s (wr_StreamID wr)) \<and>
           (\<forall>t. t \<noteq> wr_StreamID wr \<longrightarrow> queued s1 t = queued s t)" using pop [OF Cons.prems(1), of cs x] by blast
    obtain s' out where o: "sched_run push pop opn cls cs1 s1 ops = Ret (s', out)" "ok s'"
      "queue_atoms (for_stream sid out) @ queue_atoms (queued s' sid) =
        queue_atoms (queued s1 sid) @ queue_atoms (pushed sid ops)"
      using Cons.IH [OF r(2)] Cons.prems(2) by (metis list.pred_inject(2))
    show ?thesis
    proof (cases r)
      case None
      then show ?thesis using r o SPop by simp
    next
      case (Some wr)
      have "queue_atoms (for_stream sid (wr # out)) @ queue_atoms (queued s' sid) =
          queue_atoms (queued s sid) @ queue_atoms (pushed sid ops)"
      proof (cases "wr_StreamID wr = sid")
        case True
        have "atoms wr @ queue_atoms (queued s1 sid) = queue_atoms (queued s sid)" using r(3) Some True by simp
        then have "queue_atoms (queued s sid) @ queue_atoms (pushed sid ops) =
            atoms wr @ queue_atoms (for_stream sid out) @ queue_atoms (queued s' sid)"
          using o(3) by (metis append.assoc)
        then show ?thesis using True by (simp add: for_stream_def)
      next
        case False
        then show ?thesis using r(3) o(3) Some by (simp add: for_stream_def)
      qed
      then show ?thesis using r(1) o(1,2) Some SPop by simp
    qed
  next
    case (SOpen t)
    then show ?thesis using Cons.IH [of "opn s t" cs] opn [OF Cons.prems(1), of t] Cons.prems(2) by auto
  next
    case (SClose t)
    then show ?thesis using Cons.IH [of "cls s t" cs] cls [OF Cons.prems(1), of t sid] Cons.prems(2) by auto
  next
    case (SEnv f)
    then show ?thesis using Cons.IH [OF Cons.prems(1), of "f cs"] Cons.prems(2) by auto
  qed
qed

end

section \<open>The random scheduler keeps the order of each stream\<close>

definition random_queued :: "randomWriteScheduler \<Rightarrow> u32 \<Rightarrow> writeQueue" where
  "random_queued ws sid = (if sid = 0 then zero ws else case sq ws sid of None \<Rightarrow> [] | Some q \<Rightarrow> q)"

definition random_ok :: "randomWriteScheduler \<Rightarrow> bool" where
  "random_ok ws \<longleftrightarrow> (\<forall>sid. \<forall>wr \<in> set (random_queued ws sid). request_ok wr \<and> wr_StreamID wr = sid) \<and>
     (\<forall>q \<in> set (queuePool ws). q = []) \<and> sq ws 0 = None"

lemma random_ok_queue: "random_ok ws \<Longrightarrow> sq ws sid = Some q \<Longrightarrow> sid \<noteq> 0 \<and> (\<forall>wr \<in> set q. request_ok wr \<and> wr_StreamID wr = sid)"
  by (cases "sid = 0") (auto simp: random_ok_def random_queued_def dest: spec [of _ sid])

lemma random_queued_upd:
  "sid \<noteq> 0 \<Longrightarrow> random_queued (ws\<lparr>sq := (sq ws)(sid \<mapsto> q)\<rparr>) t = (if t = sid then q else random_queued ws t)"
  by (simp add: random_queued_def)

lemma random_ok_upd:
  "random_ok ws \<Longrightarrow> sid \<noteq> 0 \<Longrightarrow> \<forall>wr \<in> set q. request_ok wr \<and> wr_StreamID wr = sid \<Longrightarrow>
   random_ok (ws\<lparr>sq := (sq ws)(sid \<mapsto> q)\<rparr>)"
  by (simp add: random_ok_def random_queued_upd)

lemma pool_get_empty: "\<forall>q \<in> set p. q = [] \<Longrightarrow> pool_get p = (p', q) \<Longrightarrow> q = [] \<and> (\<forall>q \<in> set p'. q = [])"
  by (auto simp: pool_get_def dest: in_set_butlastD split: if_splits)

lemma random_Push_law:
  assumes "random_ok ws" "request_ok wr"
  shows "random_ok (random_Push ws wr) \<and>
    random_queued (random_Push ws wr) sid = (if wr_StreamID wr = sid then random_queued ws sid @ [wr] else random_queued ws sid)"
proof -
  let ?t = "wr_StreamID wr"
  consider "?t = 0" | q where "?t \<noteq> 0" "sq ws ?t = Some q" | "?t \<noteq> 0" "sq ws ?t = None" by fastforce
  then show ?thesis
  proof cases
    case 1
    then have eq: "random_Push ws wr = ws\<lparr>zero := zero ws @ [wr]\<rparr>" by (simp add: random_Push_def queue_push_def)
    have rq: "random_queued (ws\<lparr>zero := zero ws @ [wr]\<rparr>) t = (if t = 0 then random_queued ws 0 @ [wr] else random_queued ws t)" for t
      by (simp add: random_queued_def)
    have "random_ok (ws\<lparr>zero := zero ws @ [wr]\<rparr>)" using assms 1 unfolding random_ok_def rq by auto
    then show ?thesis using eq rq 1 by auto
  next
    case (2 q)
    then have "random_Push ws wr = ws\<lparr>sq := (sq ws)(?t \<mapsto> q @ [wr])\<rparr>" by (simp add: random_Push_def queue_push_def)
    moreover have "random_queued ws ?t = q" using 2 by (simp add: random_queued_def)
    ultimately show ?thesis
      using 2 assms random_ok_queue [OF assms(1) 2(2)] by (auto simp: random_queued_upd intro!: random_ok_upd)
  next
    case 3
    obtain p q where g: "pool_get (queuePool ws) = (p, q)" by fastforce
    have e: "q = []" "\<forall>q \<in> set p. q = []" using pool_get_empty [OF _ g] assms(1) by (auto simp: random_ok_def)
    let ?ws = "ws\<lparr>queuePool := p\<rparr>"
    have q: "random_queued ?ws = random_queued ws" by (rule ext) (simp add: random_queued_def)
    then have ok: "random_ok ?ws" using assms(1) e(2) by (simp add: random_ok_def)
    have "random_Push ws wr = ?ws\<lparr>sq := (sq ?ws)(?t \<mapsto> [wr])\<rparr>" using 3 g e(1) by (simp add: random_Push_def queue_push_def)
    moreover have "random_queued ws ?t = []" using 3 by (simp add: random_queued_def)
    ultimately show ?thesis using random_queued_upd [OF 3(1), of ?ws "[wr]"] random_ok_upd [OF ok 3(1)] assms(2) q by auto
  qed
qed

lemma pop_loop_law:
  assumes "random_ok ws"
  shows "\<exists>cs' ws' r. pop_loop cs ws ids = Ret (cs', ws', r) \<and> random_ok ws' \<and>
    (case r of
       None \<Rightarrow> random_queued ws' = random_queued ws \<and>
         (\<forall>sid \<in> set ids. sid \<noteq> 0 \<longrightarrow> random_queued ws sid = [] \<or> blocked cs (hd (random_queued ws sid)) 0x7fffffff)
     | Some wr \<Rightarrow> atoms wr @ queue_atoms (random_queued ws' (wr_StreamID wr)) = queue_atoms (random_queued ws (wr_StreamID wr)) \<and>
         (\<forall>t. t \<noteq> wr_StreamID wr \<longrightarrow> random_queued ws' t = random_queued ws t))"
proof (induction ids)
  case Nil
  then show ?case using assms by simp
next
  case (Cons sid ids)
  show ?case
  proof (cases "sq ws sid")
    case None
    then have "random_queued ws sid = [] \<or> sid = 0" by (simp add: random_queued_def)
    then show ?thesis using Cons None by (fastforce split: option.splits)
  next
    case (Some q)
    note q = random_ok_queue [OF assms Some]
    have rq: "random_queued ws sid = q" using Some q by (simp add: random_queued_def)
    obtain cs1 q' r where c: "queue_consume cs q 0x7fffffff = Ret (cs1, q', r)"
      "\<forall>wr \<in> set q'. request_ok wr \<and> wr_StreamID wr = sid"
      "case r of None \<Rightarrow> q' = q \<and> cs1 = cs \<and> (q = [] \<or> blocked cs (hd q) 0x7fffffff)
        | Some wr \<Rightarrow> atoms wr @ queue_atoms q' = queue_atoms q \<and> wr_StreamID wr = sid"
      using queue_consume_cases [of q sid cs "0x7fffffff"] q by blast
    show ?thesis
    proof (cases r)
      case r: None
      have "ws\<lparr>sq := (sq ws)(sid \<mapsto> q)\<rparr> = ws" using Some by (simp add: map_upd_triv)
      then have "pop_loop cs ws (sid # ids) = pop_loop cs ws ids" using Some c r by simp
      moreover have "q = [] \<or> blocked cs (hd q) 0x7fffffff" using c r by simp
      ultimately show ?thesis using Cons rq by (fastforce split: option.splits)
    next
      case r: (Some wr)
      have "pop_loop cs ws (sid # ids) = Ret (cs1, ws\<lparr>sq := (sq ws)(sid \<mapsto> q')\<rparr>, Some wr)" using Some c(1) r by simp
      then show ?thesis using c(2,3) r q rq random_ok_upd [OF assms] random_queued_upd [of sid ws q'] by auto
    qed
  qed
qed

lemma random_Pop_law:
  assumes "random_ok ws"
  shows "\<exists>cs' ws' r. random_Pop cs ws ids = Ret (cs', ws', r) \<and> random_ok ws' \<and>
    (case r of
       None \<Rightarrow> random_queued ws' = random_queued ws \<and> zero ws = [] \<and>
         (\<forall>sid \<in> set ids. sid \<noteq> 0 \<longrightarrow> random_queued ws sid = [] \<or> blocked cs (hd (random_queued ws sid)) 0x7fffffff)
     | Some wr \<Rightarrow> atoms wr @ queue_atoms (random_queued ws' (wr_StreamID wr)) = queue_atoms (random_queued ws (wr_StreamID wr)) \<and>
         (\<forall>t. t \<noteq> wr_StreamID wr \<longrightarrow> random_queued ws' t = random_queued ws t))"
proof (cases "zero ws")
  case Nil
  then show ?thesis using pop_loop_law [OF assms, of cs ids] by (fastforce simp: random_Pop_def split: option.splits)
next
  case (Cons wr q)
  have z: "random_queued ws 0 = wr # q" by (simp add: random_queued_def Cons)
  then have id: "wr_StreamID wr = 0" using assms unfolding random_ok_def by (metis list.set_intros(1))
  have rq: "random_queued (ws\<lparr>zero := q\<rparr>) t = (if t = 0 then q else random_queued ws t)" for t
    by (simp add: random_queued_def)
  have "\<forall>w \<in> set q. request_ok w \<and> wr_StreamID w = 0"
    using assms z unfolding random_ok_def by (metis list.set_intros(2))
  then have "random_ok (ws\<lparr>zero := q\<rparr>)" using assms unfolding random_ok_def rq by auto
  then show ?thesis using Cons id rq z by (simp add: random_Pop_def)
qed

lemma random_CloseStream_law:
  assumes "random_ok ws"
  shows "random_ok (random_CloseStream ws t) \<and>
    random_queued (random_CloseStream ws t) sid = (if sid = t \<and> t \<noteq> 0 then [] else random_queued ws sid)"
proof -
  have q: "random_queued (random_CloseStream ws t) s = (if s = t \<and> t \<noteq> 0 then [] else random_queued ws s)" for s
    using assms by (auto simp: random_CloseStream_def random_queued_def random_ok_def split: option.splits)
  have "random_ok (random_CloseStream ws t)" using assms unfolding random_ok_def q
    by (auto simp: random_CloseStream_def pool_put_def split: option.splits if_splits)
  then show ?thesis using q by simp
qed

interpretation rw: write_scheduler random_Push random_Pop random_OpenStream random_CloseStream random_queued random_ok
proof unfold_locales
  fix s cs x assume "random_ok s"
  from random_Pop_law [OF this, of cs x]
  show "\<exists>cs' s' r. random_Pop cs s x = Ret (cs', s', r) \<and> random_ok s' \<and>
      (case r of
         None \<Rightarrow> random_queued s' = random_queued s
       | Some wr \<Rightarrow> atoms wr @ queue_atoms (random_queued s' (wr_StreamID wr)) = queue_atoms (random_queued s (wr_StreamID wr)) \<and>
           (\<forall>t. t \<noteq> wr_StreamID wr \<longrightarrow> random_queued s' t = random_queued s t))"
    by (fastforce split: option.splits)
qed (simp_all add: random_Push_law random_CloseStream_law random_OpenStream_def)

lemma random_new_ok: "random_ok NewRandomWriteScheduler" "random_queued NewRandomWriteScheduler sid = []"
  by (simp_all add: random_ok_def random_queued_def NewRandomWriteScheduler_def)

text \<open>C6: The random scheduler keeps the order of every stream and loses nothing. Start with a new
  scheduler and let requests be pushed and popped, streams open and close, flow control change every
  window and the frame size in any way, and the map be iterated in any order. No call panics. For every
  stream that is not closed meanwhile (and for stream 0, the control frames), what the popped requests of
  that stream carry, followed by what is still queued, is exactly what was pushed for it, in order:
  splitting a DATA frame to fit the windows loses, repeats and reorders no byte, and the end of the
  stream and the message to the writer come with the last part.
\<close>

theorem random_scheduler_order:
  assumes "list_all (keeps_stream sid) ops"
  shows "\<exists>ws' out. sched_run random_Push random_Pop random_OpenStream random_CloseStream cs NewRandomWriteScheduler ops =
      Ret (ws', out) \<and>
    queue_atoms (for_stream sid out) @ queue_atoms (random_queued ws' sid) = queue_atoms (pushed sid ops)"
  using rw.run_order [OF random_new_ok(1) assms, of cs] by (auto simp: random_new_ok(2))

definition data_request :: "u32 \<Rightarrow> bytes \<Rightarrow> FrameWriteRequest" where
  "data_request sid p =
     \<lparr>wr_write = Some (WriteData \<lparr>wd_streamID = sid, wd_p = p, wd_endStream = True\<rparr>),
      wr_stream = Some \<lparr>st_id = sid, st_flow = 1\<rparr>, wr_done = Some 7\<rparr>"

definition example_conn :: conn_state where
  "example_conn = \<lparr>cs_flows = \<lambda>f. if f = 0 then \<lparr>flow_n = 100, flow_conn = None\<rparr> else \<lparr>flow_n = 50, flow_conn = Some 0\<rparr>,
     sc_maxFrameSize = 2\<rparr>"

definition example_sched :: "u32 list sched_op list" where
  "example_sched = [SPush (data_request 5 [1, 2, 3]), SPop [5], SClose 9, SPop [5]]"

theorem random_scheduler_order_witness:
  "\<exists>ws' out. sched_run random_Push random_Pop random_OpenStream random_CloseStream example_conn NewRandomWriteScheduler
      example_sched = Ret (ws', out) \<and>
    queue_atoms (for_stream 5 out) @ queue_atoms (random_queued ws' 5) = [Byte 1, Byte 2, Byte 3, EndStream, Done 7]"
proof -
  have k: "list_all (keeps_stream 5) example_sched"
    by (simp add: example_sched_def request_ok_def data_request_def)
  have "queue_atoms (pushed 5 example_sched) = [Byte 1, Byte 2, Byte 3, EndStream, Done 7]"
    by (simp add: example_sched_def data_request_def atoms_def wr_StreamID_def)
  with random_scheduler_order [OF k, of example_conn] show ?thesis by simp
qed

text \<open>C29: The random scheduler never withholds a frame that could be written. When \<open>Pop\<close> returns
  nothing, after an iteration over all the streams with a queue, there is no control frame and every
  non-empty queue starts with a DATA frame that its windows, the connection's window or the maximal frame size forbid to send a
  byte of; nothing was dequeued.
\<close>

theorem random_Pop_work_conserving:
  assumes "random_ok ws" "random_Pop cs ws ids = Ret (cs', ws', None)" "dom (sq ws) \<subseteq> set ids" "random_queued ws sid \<noteq> []"
  shows "sid \<noteq> 0 \<and> blocked cs (hd (random_queued ws sid)) 0x7fffffff \<and> random_queued ws' = random_queued ws"
proof -
  have l: "random_queued ws' = random_queued ws" "zero ws = []"
    "\<And>t. t \<in> set ids \<Longrightarrow> t \<noteq> 0 \<Longrightarrow> random_queued ws t = [] \<or> blocked cs (hd (random_queued ws t)) 0x7fffffff"
    using random_Pop_law [OF assms(1), of cs ids] assms(2) by auto
  have "sid \<noteq> 0" using assms(4) l(2) by (auto simp: random_queued_def)
  moreover have "sid \<in> set ids" using assms(3,4) calculation by (auto simp: random_queued_def split: option.splits)
  ultimately show ?thesis using l assms(4) by blast
qed

definition stalled_conn :: conn_state where
  "stalled_conn = \<lparr>cs_flows = \<lambda>f. \<lparr>flow_n = 0, flow_conn = None\<rparr>, sc_maxFrameSize = 2\<rparr>"

theorem random_Pop_work_conserving_witness:
  "blocked stalled_conn (data_request 5 [1]) 0x7fffffff"
proof -
  let ?ws = "random_Push NewRandomWriteScheduler (data_request 5 [1])"
  have r: "request_ok (data_request 5 [1])" "wr_StreamID (data_request 5 [1]) = 5"
    by (simp_all add: request_ok_def data_request_def wr_StreamID_def)
  have q: "sq ?ws = [5 \<mapsto> [data_request 5 [1]]]" "zero ?ws = []"
    using r by (simp_all add: random_Push_def NewRandomWriteScheduler_def pool_get_def queue_push_def)
  have p: "random_Pop stalled_conn ?ws [5] = Ret (stalled_conn, ?ws\<lparr>sq := (sq ?ws)(5 \<mapsto> [data_request 5 [1]])\<rparr>, None)"
    using q by (simp add: random_Pop_def queue_consume_def Consume_def data_request_def stalled_conn_def available_def min_s_def)
  have "random_ok ?ws" using random_Push_law [OF random_new_ok(1) r(1)] by blast
  from random_Pop_work_conserving [OF this p, of 5] q show ?thesis by (simp add: random_queued_def)
qed

end
