(* ===== verification/Http2_Priority.thy ===== *)
theory Http2_Priority
  imports Http2_Frame Http2_Sched
begin

text \<open>
  The priority write scheduler (golang.org/x/net/http2/writesched_priority.go): a tree of nodes linked by
  pointers. The nodes live in a store, address 0 is \<open>ws.root\<close>. A call whose loop over the
  links does not end is \<open>None\<close>. Counters of bytes are unbounded integers.
\<close>

section \<open>Nodes\<close>

type_synonym node_addr = nat

datatype priorityNodeState = priorityNodeOpen | priorityNodeClosed | priorityNodeIdle

record priorityNode =
  pn_q :: writeQueue
  pn_id :: u32
  pn_weight :: u8
  pn_state :: priorityNodeState
  pn_bytes :: int
  pn_subtreeBytes :: int
  pn_parent :: "node_addr option"
  pn_kids :: "node_addr option"
  pn_prev :: "node_addr option"
  pn_next :: "node_addr option"

type_synonym nodes = "node_addr \<Rightarrow> priorityNode"

definition zero_node :: priorityNode where
  "zero_node = \<lparr>pn_q = [], pn_id = 0, pn_weight = 0, pn_state = priorityNodeOpen, pn_bytes = 0, pn_subtreeBytes = 0,
     pn_parent = None, pn_kids = None, pn_prev = None, pn_next = None\<rparr>"

definition set_kids :: "nodes \<Rightarrow> node_addr \<Rightarrow> node_addr option \<Rightarrow> nodes" where
  "set_kids h a v = h(a := (h a)\<lparr>pn_kids := v\<rparr>)"

definition set_prev :: "nodes \<Rightarrow> node_addr \<Rightarrow> node_addr option \<Rightarrow> nodes" where
  "set_prev h a v = h(a := (h a)\<lparr>pn_prev := v\<rparr>)"

definition set_next :: "nodes \<Rightarrow> node_addr \<Rightarrow> node_addr option \<Rightarrow> nodes" where
  "set_next h a v = h(a := (h a)\<lparr>pn_next := v\<rparr>)"

definition set_parent_link :: "nodes \<Rightarrow> node_addr \<Rightarrow> node_addr option \<Rightarrow> nodes" where
  "set_parent_link h a v = h(a := (h a)\<lparr>pn_parent := v\<rparr>)"

lemmas link_defs = set_kids_def set_prev_def set_next_def set_parent_link_def

definition unlink :: "nodes \<Rightarrow> node_addr \<Rightarrow> nodes" where
  "unlink h n =
     (case pn_parent (h n) of
        None \<Rightarrow> h
      | Some parent \<Rightarrow>
          (let h = (case pn_prev (h n) of
                      None \<Rightarrow> set_kids h parent (pn_next (h n))
                    | Some p \<Rightarrow> set_next h p (pn_next (h n)))
           in case pn_next (h n) of
                None \<Rightarrow> h
              | Some x \<Rightarrow> set_prev h x (pn_prev (h n))))"

definition link :: "nodes \<Rightarrow> node_addr \<Rightarrow> node_addr option \<Rightarrow> nodes" where
  "link h n parent =
     (let h = set_parent_link h n parent
      in case parent of
           None \<Rightarrow> set_prev (set_next h n None) n None
         | Some p \<Rightarrow>
             (let h = set_next h n (pn_kids (h p));
                  h = set_prev h n None;
                  h = (case pn_next (h n) of None \<Rightarrow> h | Some x \<Rightarrow> set_prev h x (Some n))
              in set_kids h p (Some n)))"

definition setParent :: "nodes \<Rightarrow> node_addr \<Rightarrow> node_addr option \<Rightarrow> (unit, nodes) go" where
  "setParent h n parent =
     (if Some n = parent then Panic
      else if pn_parent (h n) = parent then Ret h
      else Ret (link (unlink h n) n parent))"

partial_function (option) addBytes_loop :: "nodes \<Rightarrow> node_addr option \<Rightarrow> int \<Rightarrow> nodes option" where
  "addBytes_loop h n b =
     (case n of
        None \<Rightarrow> Some h
      | Some a \<Rightarrow>
          (let h = h(a := (h a)\<lparr>pn_subtreeBytes := pn_subtreeBytes (h a) + b\<rparr>)
           in addBytes_loop h (pn_parent (h a)) b))"

definition addBytes :: "nodes \<Rightarrow> node_addr \<Rightarrow> int \<Rightarrow> nodes option" where
  "addBytes h n b = addBytes_loop (h(n := (h n)\<lparr>pn_bytes := pn_bytes (h n) + b\<rparr>)) (Some n) b"

text \<open>
  The comparison of \<open>sortPriorityNodeSiblings\<close>. The weight plus one is an 8-bit sum. Quotients
  are exact; a quotient by zero is infinite, and \<open>0/0\<close> is not a number, of which every
  comparison is false.
\<close>

definition quotient_le :: "int \<Rightarrow> int \<Rightarrow> int \<Rightarrow> int \<Rightarrow> bool" where
  "quotient_le bi bk wi wk = (if wk = 0 then wi \<noteq> 0 else bi * wk \<le> wi * bk)"

definition siblings_Less :: "priorityNode \<Rightarrow> priorityNode \<Rightarrow> bool" where
  "siblings_Less zi zk =
     (let wi = uint (pn_weight zi + 1); bi = pn_subtreeBytes zi;
          wk = uint (pn_weight zk + 1); bk = pn_subtreeBytes zk
      in if bi = 0 \<and> bk = 0 then wi \<ge> wk
         else if bk = 0 then False
         else quotient_le bi bk wi wk)"

section \<open>The scheduler\<close>

record priorityWriteScheduler =
  pw_heap :: nodes
  pw_next_addr :: node_addr
  pw_nodes :: "u32 \<rightharpoonup> node_addr"
  pw_maxID :: u32
  closedNodes :: "node_addr list"
  idleNodes :: "node_addr list"
  maxClosedNodesInTree :: int
  maxIdleNodesInTree :: int
  writeThrottleLimit :: "32 word"
  enableWriteThrottle :: bool
  pw_queuePool :: writeQueuePool

record PriorityWriteSchedulerConfig =
  cfg_MaxClosedNodesInTree :: int
  cfg_MaxIdleNodesInTree :: int
  cfg_ThrottleOutOfOrderWrites :: bool

definition priorityDefaultWeight :: u8 where
  "priorityDefaultWeight = 15"

definition NewPriorityWriteScheduler :: "PriorityWriteSchedulerConfig option \<Rightarrow> priorityWriteScheduler" where
  "NewPriorityWriteScheduler cfg =
     (let cfg = (case cfg of
                   None \<Rightarrow> \<lparr>cfg_MaxClosedNodesInTree = 10, cfg_MaxIdleNodesInTree = 10, cfg_ThrottleOutOfOrderWrites = False\<rparr>
                 | Some c \<Rightarrow> c)
      in \<lparr>pw_heap = (\<lambda>_. zero_node), pw_next_addr = 1, pw_nodes = [0 \<mapsto> 0], pw_maxID = 0,
          closedNodes = [], idleNodes = [],
          maxClosedNodesInTree = cfg_MaxClosedNodesInTree cfg, maxIdleNodesInTree = cfg_MaxIdleNodesInTree cfg,
          writeThrottleLimit = (if cfg_ThrottleOutOfOrderWrites cfg then 1024 else 0x7fffffff),
          enableWriteThrottle = cfg_ThrottleOutOfOrderWrites cfg, pw_queuePool = []\<rparr>)"

text \<open>A new node for a stream, linked below \<open>parent\<close>.\<close>

definition new_node :: "priorityWriteScheduler \<Rightarrow> u32 \<Rightarrow> priorityNodeState \<Rightarrow> node_addr \<Rightarrow> (unit, priorityWriteScheduler \<times> node_addr) go" where
  "new_node ws streamID st parent =
     (case pool_get (pw_queuePool ws) of
        (pool, q) \<Rightarrow>
          (let n = pw_next_addr ws;
               h = (pw_heap ws)(n := zero_node\<lparr>pn_q := q, pn_id := streamID, pn_weight := priorityDefaultWeight, pn_state := st\<rparr>)
           in go_bind (setParent h n (Some parent)) (\<lambda>h.
                Ret (ws\<lparr>pw_heap := h, pw_next_addr := n + 1, pw_queuePool := pool, pw_nodes := (pw_nodes ws)(streamID \<mapsto> n)\<rparr>, n))))"

definition priority_OpenStream :: "priorityWriteScheduler \<Rightarrow> u32 \<Rightarrow> u32 \<Rightarrow> (unit, priorityWriteScheduler) go" where
  "priority_OpenStream ws streamID pusherID =
     (case pw_nodes ws streamID of
        Some cur \<Rightarrow>
          if pn_state (pw_heap ws cur) \<noteq> priorityNodeIdle then Panic
          else Ret (ws\<lparr>pw_heap := (pw_heap ws)(cur := (pw_heap ws cur)\<lparr>pn_state := priorityNodeOpen\<rparr>)\<rparr>)
      | None \<Rightarrow>
          (let parent = (case pw_nodes ws pusherID of None \<Rightarrow> 0 | Some p \<Rightarrow> p)
           in go_bind (new_node ws streamID priorityNodeOpen parent) (\<lambda>(ws, n).
                Ret (if streamID > pw_maxID ws then ws\<lparr>pw_maxID := streamID\<rparr> else ws))))"

text \<open>
  The loop of \<open>removeNode\<close>: \<open>k.next\<close> is read after \<open>k\<close> was moved.
\<close>

partial_function (option) remove_loop :: "nodes \<Rightarrow> node_addr \<Rightarrow> node_addr option \<Rightarrow> (unit, nodes) go option" where
  "remove_loop h n k =
     (case k of
        None \<Rightarrow> Some (Ret h)
      | Some a \<Rightarrow>
          (case setParent h a (pn_parent (h n)) of
             Ret h \<Rightarrow> remove_loop h n (pn_next (h a))
           | Fail e \<Rightarrow> Some (Fail e)
           | Panic \<Rightarrow> Some Panic))"

definition removeNode :: "priorityWriteScheduler \<Rightarrow> node_addr \<Rightarrow> (unit, priorityWriteScheduler) go option" where
  "removeNode ws n =
     map_option
       (\<lambda>x. go_bind x (\<lambda>h. go_bind (setParent h n None) (\<lambda>h.
          Ret (ws\<lparr>pw_heap := h, pw_nodes := (pw_nodes ws)(pn_id (h n) := None)\<rparr>))))
       (remove_loop (pw_heap ws) n (pn_kids (pw_heap ws n)))"

text \<open>\<open>addClosedOrIdleNode\<close> on the list that \<open>get\<close> and \<open>put\<close> select.\<close>

definition addClosedOrIdleNode ::
    "(priorityWriteScheduler \<Rightarrow> node_addr list) \<Rightarrow> (node_addr list \<Rightarrow> priorityWriteScheduler \<Rightarrow> priorityWriteScheduler) \<Rightarrow>
     priorityWriteScheduler \<Rightarrow> int \<Rightarrow> node_addr \<Rightarrow> (unit, priorityWriteScheduler) go option" where
  "addClosedOrIdleNode get put ws maxSize n =
     (if maxSize = 0 then Some (Ret ws)
      else if int (length (get ws)) = maxSize
      then map_option
             (\<lambda>x. go_bind x (\<lambda>ws. Ret (put (drop 1 (get ws) @ [n]) ws)))
             (removeNode ws (hd (get ws)))
      else Some (Ret (put (get ws @ [n]) ws)))"

definition put_closed :: "node_addr list \<Rightarrow> priorityWriteScheduler \<Rightarrow> priorityWriteScheduler" where
  "put_closed xs ws = ws\<lparr>closedNodes := xs\<rparr>"

definition put_idle :: "node_addr list \<Rightarrow> priorityWriteScheduler \<Rightarrow> priorityWriteScheduler" where
  "put_idle xs ws = ws\<lparr>idleNodes := xs\<rparr>"

definition priority_CloseStream :: "priorityWriteScheduler \<Rightarrow> u32 \<Rightarrow> (unit, priorityWriteScheduler) go option" where
  "priority_CloseStream ws streamID =
     (if streamID = 0 then Some Panic
      else case pw_nodes ws streamID of
             None \<Rightarrow> Some Panic
           | Some n \<Rightarrow>
               if pn_state (pw_heap ws n) \<noteq> priorityNodeOpen then Some Panic
               else let h = (pw_heap ws)(n := (pw_heap ws n)\<lparr>pn_state := priorityNodeClosed\<rparr>)
                    in (case addBytes h n (- pn_bytes (h n)) of
                          None \<Rightarrow> None
                        | Some h \<Rightarrow>
                            (let pool = pool_put (pw_queuePool ws) (pn_q (h n));
                                 ws = ws\<lparr>pw_heap := h(n := (h n)\<lparr>pn_q := []\<rparr>), pw_queuePool := pool\<rparr>
                             in if maxClosedNodesInTree ws > 0
                                then addClosedOrIdleNode closedNodes put_closed ws (maxClosedNodesInTree ws) n
                                else removeNode ws n)))"

text \<open>Whether \<open>n\<close> is \<open>x\<close> or one of its ancestors.\<close>

partial_function (option) depends_on :: "nodes \<Rightarrow> node_addr option \<Rightarrow> node_addr \<Rightarrow> bool option" where
  "depends_on h x n =
     (case x of
        None \<Rightarrow> Some False
      | Some a \<Rightarrow> if a = n then Some True else depends_on h (pn_parent (h a)) n)"

partial_function (option) exclusive_loop :: "nodes \<Rightarrow> node_addr \<Rightarrow> node_addr option \<Rightarrow> (unit, nodes) go option" where
  "exclusive_loop h n k =
     (case k of
        None \<Rightarrow> Some (Ret h)
      | Some a \<Rightarrow>
          (let nxt = pn_next (h a)
           in if a \<noteq> n
              then (case setParent h a (Some n) of
                      Ret h \<Rightarrow> exclusive_loop h n nxt
                    | Fail e \<Rightarrow> Some (Fail e)
                    | Panic \<Rightarrow> Some Panic)
              else exclusive_loop h n nxt))"

definition set_weight :: "nodes \<Rightarrow> node_addr \<Rightarrow> u8 \<Rightarrow> nodes" where
  "set_weight h n w = h(n := (h n)\<lparr>pn_weight := w\<rparr>)"

text \<open>The part of \<open>AdjustStream\<close> after the node \<open>n\<close> of the stream and its new parent are known.\<close>

definition reparent :: "nodes \<Rightarrow> node_addr \<Rightarrow> node_addr \<Rightarrow> PriorityParam \<Rightarrow> (unit, nodes) go option" where
  "reparent h n parent priority =
     (case depends_on h (pn_parent (h parent)) n of
        None \<Rightarrow> None
      | Some dep \<Rightarrow>
          (case (if dep then setParent h parent (pn_parent (h n)) else Ret h) of
             Ret h \<Rightarrow>
               (case (if Exclusive priority then exclusive_loop h n (pn_kids (h parent)) else Some (Ret h)) of
                  None \<Rightarrow> None
                | Some (Ret h) \<Rightarrow>
                    Some (go_bind (setParent h n (Some parent)) (\<lambda>h. Ret (set_weight h n (Weight priority))))
                | Some (Fail e) \<Rightarrow> Some (Fail e)
                | Some Panic \<Rightarrow> Some Panic)
           | Fail e \<Rightarrow> Some (Fail e)
           | Panic \<Rightarrow> Some Panic))"

definition adjust_node :: "priorityWriteScheduler \<Rightarrow> node_addr \<Rightarrow> PriorityParam \<Rightarrow> (unit, priorityWriteScheduler) go option" where
  "adjust_node ws n priority =
     (case pw_nodes ws (StreamDep priority) of
        None \<Rightarrow>
          Some (go_bind (setParent (pw_heap ws) n (Some 0)) (\<lambda>h.
            Ret (ws\<lparr>pw_heap := set_weight h n priorityDefaultWeight\<rparr>)))
      | Some parent \<Rightarrow>
          if n = parent then Some (Ret ws)
          else map_option (\<lambda>x. go_bind x (\<lambda>h. Ret (ws\<lparr>pw_heap := h\<rparr>))) (reparent (pw_heap ws) n parent priority))"

definition AdjustStream :: "priorityWriteScheduler \<Rightarrow> u32 \<Rightarrow> PriorityParam \<Rightarrow> (unit, priorityWriteScheduler) go option" where
  "AdjustStream ws streamID priority =
     (if streamID = 0 then Some Panic
      else case pw_nodes ws streamID of
             Some n \<Rightarrow> adjust_node ws n priority
           | None \<Rightarrow>
               if streamID \<le> pw_maxID ws \<or> maxIdleNodesInTree ws = 0 then Some (Ret ws)
               else (case new_node (ws\<lparr>pw_maxID := streamID\<rparr>) streamID priorityNodeIdle 0 of
                       Ret (ws, n) \<Rightarrow>
                         (case addClosedOrIdleNode idleNodes put_idle ws (maxIdleNodesInTree ws) n of
                            None \<Rightarrow> None
                          | Some (Ret ws) \<Rightarrow> adjust_node ws n priority
                          | Some (Fail e) \<Rightarrow> Some (Fail e)
                          | Some Panic \<Rightarrow> Some Panic)
                     | Fail e \<Rightarrow> Some (Fail e)
                     | Panic \<Rightarrow> Some Panic))"

definition push_at :: "priorityWriteScheduler \<Rightarrow> node_addr \<Rightarrow> FrameWriteRequest \<Rightarrow> priorityWriteScheduler" where
  "push_at ws n wr = ws\<lparr>pw_heap := (pw_heap ws)(n := (pw_heap ws n)\<lparr>pn_q := queue_push (pn_q (pw_heap ws n)) wr\<rparr>)\<rparr>"

definition priority_Push :: "priorityWriteScheduler \<Rightarrow> FrameWriteRequest \<Rightarrow> (unit, priorityWriteScheduler) go" where
  "priority_Push ws wr =
     (if wr_StreamID wr = 0 then Ret (push_at ws 0 wr)
      else case pw_nodes ws (wr_StreamID wr) of
             Some n \<Rightarrow> Ret (push_at ws n wr)
           | None \<Rightarrow> if wr_DataSize wr > 0 then Panic else Ret (push_at ws 0 wr))"

section \<open>Choosing a frame\<close>

type_synonym pop_state = "conn_state \<times> priorityWriteScheduler"

text \<open>The function that \<open>Pop\<close> passes to the walk: the state, and the frame if one was consumed.\<close>

definition visit :: "pop_state \<Rightarrow> node_addr \<Rightarrow> bool \<Rightarrow> (unit, pop_state \<times> FrameWriteRequest option) go option" where
  "visit = (\<lambda>(cs, ws) n openParent.
     (case queue_consume cs (pn_q (pw_heap ws n)) (if openParent then writeThrottleLimit ws else 0x7fffffff) of
        Ret (cs, q, r) \<Rightarrow>
          (let h = (pw_heap ws)(n := (pw_heap ws n)\<lparr>pn_q := q\<rparr>)
           in case r of
                None \<Rightarrow> Some (Ret ((cs, ws\<lparr>pw_heap := h\<rparr>), None))
              | Some wr \<Rightarrow>
                  (case addBytes h n (int (wr_DataSize wr)) of
                     None \<Rightarrow> None
                   | Some h \<Rightarrow>
                       (let limit = writeThrottleLimit ws + 1024;
                            ws = ws\<lparr>pw_heap := h\<rparr>;
                            ws = (if openParent
                                  then ws\<lparr>writeThrottleLimit := (if sint limit < 0 then 0x7fffffff else limit)\<rparr>
                                  else if enableWriteThrottle ws then ws\<lparr>writeThrottleLimit := 1024\<rparr>
                                  else ws)
                        in Some (Ret ((cs, ws), Some wr)))))
      | Fail e \<Rightarrow> Some (Fail e)
      | Panic \<Rightarrow> Some Panic))"

text \<open>Whether a sibling from \<open>k\<close> on has another weight than \<open>w\<close>.\<close>

partial_function (option) needSort :: "nodes \<Rightarrow> node_addr option \<Rightarrow> u8 \<Rightarrow> bool option" where
  "needSort h k w =
     (case k of
        None \<Rightarrow> Some False
      | Some a \<Rightarrow> if pn_weight (h a) \<noteq> w then Some True else needSort h (pn_next (h a)) w)"

text \<open>The kids taken out of the tree, in order.\<close>

partial_function (option) take_kids :: "nodes \<Rightarrow> node_addr \<Rightarrow> node_addr list \<Rightarrow> (unit, nodes \<times> node_addr list) go option" where
  "take_kids h n tmp =
     (case pn_kids (h n) of
        None \<Rightarrow> Some (Ret (h, tmp))
      | Some k \<Rightarrow>
          (case setParent h k None of
             Ret h \<Rightarrow> take_kids h n (tmp @ [k])
           | Fail e \<Rightarrow> Some (Fail e)
           | Panic \<Rightarrow> Some Panic))"

fun insert_kids :: "nodes \<Rightarrow> node_addr \<Rightarrow> node_addr list \<Rightarrow> (unit, nodes) go" where
  "insert_kids h n [] = Ret h"
| "insert_kids h n (k # ks) = go_bind (setParent h k (Some n)) (\<lambda>h. insert_kids h n ks)"

text \<open>\<open>sort.Sort\<close> is the parameter \<open>srt\<close>: it gets the comparison and the nodes.\<close>

type_synonym sorter = "(node_addr \<Rightarrow> node_addr \<Rightarrow> bool) \<Rightarrow> node_addr list \<Rightarrow> node_addr list"

definition sort_kids :: "sorter \<Rightarrow> nodes \<Rightarrow> node_addr \<Rightarrow> (unit, nodes) go option" where
  "sort_kids srt h n =
     map_option
       (\<lambda>x. go_bind x (\<lambda>(h, tmp). insert_kids h n (rev (srt (\<lambda>a b. siblings_Less (h a) (h b)) tmp))))
       (take_kids h n [])"

definition order_kids :: "sorter \<Rightarrow> nodes \<Rightarrow> node_addr \<Rightarrow> node_addr \<Rightarrow> (unit, nodes) go option" where
  "order_kids srt h n first =
     (case needSort h (pn_next (h first)) (pn_weight (h first)) of
        None \<Rightarrow> None
      | Some False \<Rightarrow> Some (Ret h)
      | Some True \<Rightarrow> sort_kids srt h n)"

text \<open>
  \<open>walkReadyInOrder\<close>: at a node (\<open>Inl n\<close>), and along the siblings from \<open>k\<close> on
  (\<open>Inr k\<close>). The walk stops with the first frame.
\<close>

partial_function (option) walk ::
    "sorter \<Rightarrow> pop_state \<Rightarrow> node_addr + node_addr option \<Rightarrow> bool \<Rightarrow> (unit, pop_state \<times> FrameWriteRequest option) go option" where
  "walk srt s at openParent =
     (case at of
        Inr None \<Rightarrow> Some (Ret (s, None))
      | Inr (Some k) \<Rightarrow>
          Option.bind (walk srt s (Inl k) openParent) (\<lambda>x. case x of
             Ret (s, Some wr) \<Rightarrow> Some (Ret (s, Some wr))
           | Ret (s, None) \<Rightarrow> walk srt s (Inr (pn_next (pw_heap (snd s) k))) openParent
           | Fail e \<Rightarrow> Some (Fail e)
           | Panic \<Rightarrow> Some Panic)
      | Inl n \<Rightarrow>
          (case (if pn_q (pw_heap (snd s) n) \<noteq> [] then visit s n openParent else Some (Ret (s, None))) of
             None \<Rightarrow> None
           | Some (Ret (s, Some wr)) \<Rightarrow> Some (Ret (s, Some wr))
           | Some (Ret (s, None)) \<Rightarrow>
               (let h = pw_heap (snd s)
                in case pn_kids (h n) of
                     None \<Rightarrow> Some (Ret (s, None))
                   | Some first \<Rightarrow>
                       (let openParent = (if pn_id (h n) \<noteq> 0 then openParent \<or> pn_state (h n) = priorityNodeOpen else openParent)
                        in case order_kids srt h n first of
                             None \<Rightarrow> None
                           | Some (Ret h) \<Rightarrow> walk srt (fst s, (snd s)\<lparr>pw_heap := h\<rparr>) (Inr (pn_kids (h n))) openParent
                           | Some (Fail e) \<Rightarrow> Some (Fail e)
                           | Some Panic \<Rightarrow> Some Panic))
           | Some (Fail e) \<Rightarrow> Some (Fail e)
           | Some Panic \<Rightarrow> Some Panic))"

definition priority_Pop :: "sorter \<Rightarrow> pop_state \<Rightarrow> (unit, pop_state \<times> FrameWriteRequest option) go option" where
  "priority_Pop srt s = walk srt s (Inl 0) False"

end
