(* ===== verification/Http2_Priority_Tree.thy ===== *)
theory Http2_Priority_Tree
  imports Http2_Priority
begin

text \<open>
  The tree of the priority scheduler: the pointers of siblings as lists, the dependencies as a map of
  parents, what \<open>OpenStream\<close> and \<open>AdjustStream\<close> do to them, and where \<open>removeNode\<close> and the
  eviction of idle nodes break the tree.
\<close>

section \<open>Sibling lists\<close>

definition fst_or :: "'a option \<Rightarrow> 'a list \<Rightarrow> 'a option" where
  "fst_or d xs = (case xs of [] \<Rightarrow> d | x # _ \<Rightarrow> Some x)"

definition lst_or :: "'a option \<Rightarrow> 'a list \<Rightarrow> 'a option" where
  "lst_or d xs = (if xs = [] then d else Some (last xs))"

lemma fst_or_simps [simp]: "fst_or d [] = d" "fst_or d (x # xs) = Some x" "fst_or d (xs @ ys) = fst_or (fst_or d ys) xs"
  by (simp_all add: fst_or_def split: list.splits)

lemma lst_or_simps [simp]: "lst_or d [] = d" "lst_or d (x # xs) = lst_or (Some x) xs" "lst_or d (xs @ ys) = lst_or (lst_or d xs) ys"
  by (simp_all add: lst_or_def)

text \<open>The nodes \<open>xs\<close> are linked in this order, below \<open>p\<close>, between \<open>prv\<close> and \<open>nxt\<close>.\<close>

fun seg :: "nodes \<Rightarrow> node_addr \<Rightarrow> node_addr option \<Rightarrow> node_addr list \<Rightarrow> node_addr option \<Rightarrow> bool" where
  "seg h p prv [] nxt \<longleftrightarrow> True"
| "seg h p prv (x # xs) nxt \<longleftrightarrow>
     pn_parent (h x) = Some p \<and> pn_prev (h x) = prv \<and> pn_next (h x) = fst_or nxt xs \<and> seg h p (Some x) xs nxt"

lemma seg_append: "seg h p prv (xs @ ys) nxt \<longleftrightarrow> seg h p prv xs (fst_or nxt ys) \<and> seg h p (lst_or prv xs) ys nxt"
  by (induction xs arbitrary: prv) auto

lemma seg_cong:
  "(\<And>x. x \<in> set xs \<Longrightarrow> pn_parent (h' x) = pn_parent (h x) \<and> pn_prev (h' x) = pn_prev (h x) \<and> pn_next (h' x) = pn_next (h x)) \<Longrightarrow>
   seg h' p prv xs nxt = seg h p prv xs nxt"
  by (induction xs arbitrary: prv) auto

lemma seg_parent: "seg h p prv xs nxt \<Longrightarrow> x \<in> set xs \<Longrightarrow> pn_parent (h x) = Some p"
  by (induction xs arbitrary: prv) auto

text \<open>The links of the tree with the lists \<open>K\<close> of kids.\<close>

definition lists_ok :: "nodes \<Rightarrow> (node_addr \<Rightarrow> node_addr list) \<Rightarrow> bool" where
  "lists_ok h K \<longleftrightarrow> (\<forall>p. pn_kids (h p) = fst_or None (K p) \<and> distinct (K p) \<and> seg h p None (K p) None)"

definition links :: "nodes \<Rightarrow> (node_addr \<Rightarrow> node_addr list) \<Rightarrow> bool" where
  "links h K \<longleftrightarrow> lists_ok h K \<and> (\<forall>n p. pn_parent (h n) = Some p \<longrightarrow> n \<in> set (K p))"

lemma lists_mem: "lists_ok h K \<Longrightarrow> n \<in> set (K p) \<Longrightarrow> pn_parent (h n) = Some p"
  by (rule seg_parent [of h p None "K p" None]) (simp_all add: lists_ok_def)

lemma links_mem: "links h K \<Longrightarrow> n \<in> set (K p) \<longleftrightarrow> pn_parent (h n) = Some p"
  using lists_mem unfolding links_def by blast

lemma fun_upd_same_links:
  "pn_parent (set_kids h a v x) = pn_parent (h x)" "pn_prev (set_kids h a v x) = pn_prev (h x)"
  "pn_next (set_kids h a v x) = pn_next (h x)" "pn_kids (set_kids h a v x) = (if x = a then v else pn_kids (h x))"
  "pn_parent (set_prev h a v x) = pn_parent (h x)" "pn_prev (set_prev h a v x) = (if x = a then v else pn_prev (h x))"
  "pn_next (set_prev h a v x) = pn_next (h x)" "pn_kids (set_prev h a v x) = pn_kids (h x)"
  "pn_parent (set_next h a v x) = pn_parent (h x)" "pn_prev (set_next h a v x) = pn_prev (h x)"
  "pn_next (set_next h a v x) = (if x = a then v else pn_next (h x))" "pn_kids (set_next h a v x) = pn_kids (h x)"
  "pn_parent (set_parent_link h a v x) = (if x = a then v else pn_parent (h x))"
  "pn_prev (set_parent_link h a v x) = pn_prev (h x)"
  "pn_next (set_parent_link h a v x) = pn_next (h x)" "pn_kids (set_parent_link h a v x) = pn_kids (h x)"
  by (simp_all add: link_defs)

lemmas link_fields = fun_upd_same_links

lemma seg_set_next:
  "distinct xs \<Longrightarrow> xs \<noteq> [] \<Longrightarrow> seg h p prv xs nxt \<Longrightarrow> seg (set_next h (last xs) nxt') p prv xs nxt'"
proof (induction xs arbitrary: prv)
  case (Cons x xs)
  show ?case
  proof (cases "xs = []")
    case True
    then show ?thesis using Cons.prems by (simp add: link_fields)
  next
    case False
    then have "x \<noteq> last xs" using Cons.prems(1) by (metis distinct.simps(2) last_in_set)
    then show ?thesis using Cons False by (auto simp: link_fields fst_or_def split: list.splits)
  qed
qed simp

lemma seg_set_prev:
  "distinct (y # ys) \<Longrightarrow> seg h p prv (y # ys) nxt \<Longrightarrow> seg (set_prev h y prv') p prv' (y # ys) nxt"
  by (simp add: link_fields) (metis (mono_tags, lifting) link_fields(5-7) seg_cong)

lemma unlink_fields:
  "pn_parent (unlink h n x) = pn_parent (h x)"
  "pn_kids (unlink h n x) = (if pn_parent (h n) = Some x \<and> pn_prev (h n) = None then pn_next (h n) else pn_kids (h x))"
  "pn_prev (unlink h n x) = (if pn_parent (h n) \<noteq> None \<and> pn_next (h n) = Some x then pn_prev (h n) else pn_prev (h x))"
  "pn_next (unlink h n x) = (if pn_parent (h n) \<noteq> None \<and> pn_prev (h n) = Some x then pn_next (h n) else pn_next (h x))"
  by (auto simp: unlink_def link_fields Let_def split: option.splits)

lemma link_Some_fields:
  "n \<noteq> p \<Longrightarrow> pn_parent (link h n (Some p) x) = (if x = n then Some p else pn_parent (h x))"
  "n \<noteq> p \<Longrightarrow> pn_kids (link h n (Some p) x) = (if x = p then Some n else pn_kids (h x))"
  "n \<noteq> p \<Longrightarrow> pn_kids (h p) \<noteq> Some n \<Longrightarrow>
     pn_prev (link h n (Some p) x) = (if x = n then None else if pn_kids (h p) = Some x then Some n else pn_prev (h x))"
  "n \<noteq> p \<Longrightarrow> pn_next (link h n (Some p) x) = (if x = n then pn_kids (h p) else pn_next (h x))"
  by (auto simp: link_def link_fields Let_def split: option.splits)

lemma link_None_fields:
  "pn_parent (link h n None x) = (if x = n then None else pn_parent (h x))"
  "pn_kids (link h n None x) = pn_kids (h x)"
  "x \<noteq> n \<Longrightarrow> pn_prev (link h n None x) = pn_prev (h x)"
  "x \<noteq> n \<Longrightarrow> pn_next (link h n None x) = pn_next (h x)"
  by (auto simp: link_def link_fields)

lemma unlink_lists:
  assumes "links h K"
  shows "lists_ok (unlink h n) (\<lambda>r. removeAll n (K r))"
proof (cases "pn_parent (h n)")
  case None
  then have "n \<notin> set (K r)" for r using links_mem [OF assms] by simp
  then have "(\<lambda>r. removeAll n (K r)) = K" by simp
  then show ?thesis using assms None by (simp add: unlink_def links_def)
next
  case (Some q)
  then obtain xs ys where K: "K q = xs @ n # ys" using links_mem [OF assms] by (meson split_list)
  have lo: "lists_ok h K" using assms by (simp add: links_def)
  then have q: "pn_kids (h q) = fst_or None (K q)" "distinct (K q)" "seg h q None (K q) None" by (simp_all add: lists_ok_def)
  then have seg: "seg h q None xs (Some n)" "pn_prev (h n) = lst_or None xs" "pn_next (h n) = fst_or None ys"
    "seg h q (Some n) ys None" using K by (simp_all add: seg_append)
  have d: "distinct (xs @ ys)" "n \<notin> set xs" "n \<notin> set ys" using q(2) K by auto
  have rq: "removeAll n (K q) = xs @ ys" using K d by simp
  have rr: "removeAll n (K r) = K r" if "r \<noteq> q" for r
    using links_mem [OF assms, of n r] that Some by simp
  let ?h = "unlink h n"
  have sxs: "seg ?h q None xs (fst_or None ys)"
  proof (cases "xs = []")
    case False
    have "seg (set_next h (last xs) (fst_or None ys)) q None xs (fst_or None ys)"
      using seg_set_next [OF _ False seg(1)] d(1) by simp
    moreover have "fst_or None ys \<noteq> Some x" if "x \<in> set xs" for x using that d(1) by (auto simp: fst_or_def split: list.splits)
    moreover have "pn_prev (h n) = Some (last xs)" using False seg(2) by (simp add: lst_or_def)
    ultimately have "seg ?h q None xs (fst_or None ys) = seg (set_next h (last xs) (fst_or None ys)) q None xs (fst_or None ys)"
      using seg(3) Some by (intro seg_cong) (simp add: unlink_fields link_fields)
    then show ?thesis using \<open>seg (set_next h (last xs) (fst_or None ys)) q None xs (fst_or None ys)\<close> by simp
  qed simp
  have sys: "seg ?h q (lst_or None xs) ys None"
  proof (cases ys)
    case (Cons y zs)
    have "seg (set_prev h y (lst_or None xs)) q (lst_or None xs) ys None"
      using seg_set_prev [of y zs h q "Some n" None "lst_or None xs"] seg(4) d(1) Cons by simp
    moreover have "lst_or None xs \<noteq> Some x" if "x \<in> set ys" for x
      using that d(1) by (metis disjoint_iff distinct_append last_in_set lst_or_def option.distinct(1) option.inject)
    ultimately have "seg ?h q (lst_or None xs) ys None = seg (set_prev h y (lst_or None xs)) q (lst_or None xs) ys None"
      using seg(2,3) Some Cons by (intro seg_cong) (simp add: unlink_fields link_fields)
    then show ?thesis using \<open>seg (set_prev h y (lst_or None xs)) q (lst_or None xs) ys None\<close> by simp
  qed simp
  show ?thesis
    unfolding lists_ok_def
  proof (intro allI conjI)
    fix r
    show "distinct (removeAll n (K r))" using lo by (simp add: lists_ok_def distinct_removeAll)
    show "pn_kids (?h r) = fst_or None (removeAll n (K r))"
      using lo seg(2,3) q(1) K Some rq rr [of r]
      by (cases "r = q"; cases xs) (auto simp: unlink_fields lists_ok_def lst_or_def)
    show "seg ?h r None (removeAll n (K r)) None"
    proof (cases "r = q")
      case True
      then show ?thesis using sxs sys rq by (simp add: seg_append)
    next
      case False
      have "seg h r None (K r) None" using lo by (simp add: lists_ok_def)
      moreover have "pn_next (h n) \<noteq> Some x \<and> pn_prev (h n) \<noteq> Some x" if "x \<in> set (K r)" for x
      proof -
        have "x \<notin> set (K q)" using that False links_mem [OF assms] by auto
        then have "x \<notin> set xs" "x \<notin> set ys" using K by auto
        then show ?thesis using seg(2,3) last_in_set [of xs] by (cases ys) (auto simp: lst_or_def)
      qed
      then have "seg ?h r None (K r) None = seg h r None (K r) None"
        by (intro seg_cong) (simp add: unlink_fields)
      ultimately show ?thesis using rr [OF False] by simp
    qed
  qed
qed

lemma link_lists:
  assumes "lists_ok h K" "\<And>r. n \<notin> set (K r)" "parent \<noteq> Some n"
  shows "lists_ok (link h n parent) (\<lambda>r. (if parent = Some r then [n] else []) @ K r)"
proof (cases parent)
  case None
  have "seg (link h n None) r None (K r) None = seg h r None (K r) None" for r
    using assms(2) [of r] by (intro seg_cong) (auto simp: link_None_fields)
  then show ?thesis using assms(1) None by (simp add: lists_ok_def link_None_fields)
next
  case (Some p)
  have p: "pn_kids (h p) = fst_or None (K p)" using assms(1) by (simp add: lists_ok_def)
  then have kn: "pn_kids (h p) \<noteq> Some n" using assms(2) [of p] by (cases "K p") auto
  have np: "n \<noteq> p" using assms(3) Some by simp
  note f = link_Some_fields(1,2,4) [OF np, of h] link_Some_fields(3) [of n p h, OF np kn]
  have other: "seg (link h n (Some p)) r None (K r) None" if "r \<noteq> p" for r
  proof -
    have "pn_kids (h p) \<noteq> Some x \<and> x \<noteq> n" if "x \<in> set (K r)" for x
      using that \<open>r \<noteq> p\<close> p lists_mem [OF assms(1), of x r] lists_mem [OF assms(1), of x p] assms(2) [of r]
      by (cases "K p") auto
    then have "seg (link h n (Some p)) r None (K r) None = seg h r None (K r) None"
      by (intro seg_cong) (simp add: f)
    then show ?thesis using assms(1) by (simp add: lists_ok_def)
  qed
  have "seg (link h n (Some p)) p None (n # K p) None"
  proof (cases "K p")
    case Nil
    then show ?thesis using p by (simp add: f)
  next
    case (Cons y ys)
    have sy: "seg h p None (y # ys) None" "distinct (y # ys)" using assms(1) Cons unfolding lists_ok_def by metis+
    have "seg (link h n (Some p)) p (Some n) (y # ys) None = seg (set_prev h y (Some n)) p (Some n) (y # ys) None"
      using assms(2) [of p] Cons p by (intro seg_cong) (auto simp: f link_fields)
    then have "seg (link h n (Some p)) p (Some n) (y # ys) None" using seg_set_prev [OF sy(2,1)] by blast
    then show ?thesis using p Cons by (simp add: f)
  qed
  then show ?thesis using other assms(1,2) Some unfolding lists_ok_def by (auto simp: f)
qed

text \<open>\<open>setParent\<close> moves the node to the front of the list of its new parent, and nothing else.\<close>

definition move :: "(node_addr \<Rightarrow> node_addr list) \<Rightarrow> node_addr \<Rightarrow> node_addr option \<Rightarrow> node_addr \<Rightarrow> node_addr list" where
  "move K n parent r = (if parent = Some r then [n] else []) @ removeAll n (K r)"

definition same_data :: "nodes \<Rightarrow> nodes \<Rightarrow> bool" where
  "same_data h h' \<longleftrightarrow> (\<forall>x. pn_q (h' x) = pn_q (h x) \<and> pn_id (h' x) = pn_id (h x) \<and> pn_weight (h' x) = pn_weight (h x) \<and>
     pn_state (h' x) = pn_state (h x) \<and> pn_bytes (h' x) = pn_bytes (h x) \<and> pn_subtreeBytes (h' x) = pn_subtreeBytes (h x))"

lemma same_data_simps:
  "same_data h h" "same_data h1 h2 \<Longrightarrow> same_data h2 h3 \<Longrightarrow> same_data h1 h3"
  "same_data h (set_kids h a v)" "same_data h (set_prev h a v)" "same_data h (set_next h a v)" "same_data h (set_parent_link h a v)"
  by (simp_all add: same_data_def link_defs)

lemma same_data_unlink: "same_data h (unlink h n)"
  by (auto simp: unlink_def Let_def same_data_def link_defs split: option.splits)

lemma same_data_link: "same_data h (link h n p)"
  by (auto simp: link_def Let_def same_data_def link_defs split: option.splits)

lemma setParent_links:
  assumes "links h K" "parent \<noteq> Some n" "pn_parent (h n) \<noteq> parent"
  shows "\<exists>h'. setParent h n parent = Ret h' \<and> links h' (move K n parent) \<and> same_data h h' \<and>
    (\<forall>x. pn_parent (h' x) = (if x = n then parent else pn_parent (h x)))"
proof -
  let ?h = "link (unlink h n) n parent"
  have lo: "lists_ok ?h (move K n parent)"
    unfolding move_def by (rule link_lists [OF unlink_lists [OF assms(1)] _ assms(2)]) simp
  have par: "pn_parent (?h x) = (if x = n then parent else pn_parent (h x))" for x
    using assms(2) by (cases parent) (auto simp: link_None_fields link_Some_fields(1) unlink_fields)
  have "x \<in> set (move K n parent p)" if "pn_parent (?h x) = Some p" for x p
    using that links_mem [OF assms(1), of x p] by (auto simp: par move_def split: if_splits)
  then have "links ?h (move K n parent)" using lo by (simp add: links_def)
  moreover have "same_data h ?h" using same_data_unlink same_data_link same_data_simps(2) by blast
  moreover have "setParent h n parent = Ret ?h" using assms(2,3) by (auto simp: setParent_def)
  ultimately show ?thesis using par by blast
qed

section \<open>Dependencies\<close>

text \<open>Parents as a map; \<open>depth P x k\<close>: the root is \<open>k\<close> parents above \<open>x\<close>.\<close>

type_synonym parents = "node_addr \<Rightarrow> node_addr option"

inductive depth :: "parents \<Rightarrow> node_addr \<Rightarrow> nat \<Rightarrow> bool" for P where
  depth_root: "depth P 0 0"
| depth_step: "P x = Some p \<Longrightarrow> depth P p k \<Longrightarrow> depth P x (Suc k)"

definition rooted :: "parents \<Rightarrow> node_addr \<Rightarrow> bool" where
  "rooted P x \<longleftrightarrow> (\<exists>k. depth P x k)"

lemma rooted_root: "rooted P 0"
  by (auto simp: rooted_def intro: depth_root)

lemma rooted_step: "P x = Some p \<Longrightarrow> rooted P p \<Longrightarrow> rooted P x"
  by (auto simp: rooted_def intro: depth_step)

abbreviation ancestor :: "parents \<Rightarrow> node_addr \<Rightarrow> node_addr \<Rightarrow> bool" where
  "ancestor P \<equiv> (\<lambda>x y. P x = Some y)\<^sup>*\<^sup>*"

lemma ancestor_iff: "ancestor P x y \<longleftrightarrow> x = y \<or> (\<exists>p. P x = Some p \<and> ancestor P p y)"
proof
  assume "ancestor P x y"
  then show "x = y \<or> (\<exists>p. P x = Some p \<and> ancestor P p y)" by (cases rule: converse_rtranclpE) auto
next
  assume "x = y \<or> (\<exists>p. P x = Some p \<and> ancestor P p y)"
  then show "ancestor P x y" using converse_rtranclp_into_rtranclp [of "\<lambda>x y. P x = Some y"] by blast
qed

lemma ancestor_parent: "P x = Some p \<Longrightarrow> ancestor P x y \<longleftrightarrow> x = y \<or> ancestor P p y"
  by (subst ancestor_iff) simp

lemma ancestor_top: "P x = None \<Longrightarrow> ancestor P x y \<longleftrightarrow> x = y"
  by (subst ancestor_iff) simp

lemma depth_unique:
  assumes "P 0 = None"
  shows "depth P x i \<Longrightarrow> depth P x j \<Longrightarrow> i = j"
proof (induction arbitrary: j rule: depth.induct)
  case depth_root
  then show ?case using assms by (cases rule: depth.cases) auto
next
  case (depth_step x p k)
  from depth_step.prems show ?case
  proof (cases rule: depth.cases)
    case depth_root
    then show ?thesis using assms depth_step.hyps(1) by simp
  next
    case (depth_step p' k')
    then show ?thesis using depth_step.IH depth_step.hyps(1) by simp
  qed
qed

lemma depth_neq: "P 0 = None \<Longrightarrow> depth P x i \<Longrightarrow> depth P y j \<Longrightarrow> i \<noteq> j \<Longrightarrow> x \<noteq> y"
  using depth_unique by blast

lemma depth_parent: "P 0 = None \<Longrightarrow> depth P x k \<Longrightarrow> P x = Some p \<Longrightarrow> \<exists>j. k = Suc j \<and> depth P p j"
  by (cases rule: depth.cases) auto

lemma depth_not_root: "depth P x k \<Longrightarrow> x \<noteq> 0 \<Longrightarrow> \<exists>p j. P x = Some p \<and> k = Suc j \<and> depth P p j"
  by (cases rule: depth.cases) auto

lemma ancestor_depth:
  assumes "P 0 = None"
  shows "ancestor P x y \<Longrightarrow> depth P x k \<Longrightarrow> \<exists>j \<le> k. depth P y j \<and> (x \<noteq> y \<longrightarrow> j < k)"
proof (induction arbitrary: k rule: converse_rtranclp_induct)
  case base
  then show ?case by auto
next
  case (step x z)
  then obtain i where "k = Suc i" "depth P z i" using depth_parent [of P, OF assms] by blast
  with step.IH obtain j where "j \<le> i" "depth P y j" by blast
  then show ?case using \<open>k = Suc i\<close> by (intro exI [of _ j]) simp
qed

text \<open>
  RFC 7540, section 5.3.3: \<open>n\<close> becomes dependent on \<open>d\<close>. If \<open>d\<close> depended on \<open>n\<close>, \<open>d\<close> first
  takes the place of \<open>n\<close>; if the dependency is exclusive, the other dependants of \<open>d\<close> become
  dependants of \<open>n\<close>.
\<close>

definition take_place :: "parents \<Rightarrow> node_addr \<Rightarrow> node_addr \<Rightarrow> bool \<Rightarrow> parents" where
  "take_place P n d dep = (if dep then P(d := P n) else P)"

definition adopt :: "parents \<Rightarrow> node_addr \<Rightarrow> node_addr \<Rightarrow> bool \<Rightarrow> parents" where
  "adopt P n d excl = (\<lambda>x. if x = n then Some d else if excl \<and> P x = Some d then Some n else P x)"

lemma take_place_rooted:
  assumes P: "P 0 = None" and n: "depth P n i" "n \<noteq> 0" and d: "depth P d j" "d \<noteq> n" "ancestor P d n"
  shows "take_place P n d True 0 = None" and "rooted P x \<Longrightarrow> rooted (take_place P n d True) x"
    and "\<not> ancestor (take_place P n d True) d n"
proof -
  let ?P = "take_place P n d True"
  have ij: "i < j" using ancestor_depth [of P, OF P d(3,1)] d(2) depth_unique [of P, OF P n(1)] by blast
  obtain q i' where q: "P n = Some q" "i = Suc i'" "depth P q i'" using depth_not_root [OF n] by blast
  have "d \<noteq> 0"
  proof
    assume "d = 0"
    then have "j = 0" using depth_unique [of P, OF P d(1)] depth_root by blast
    then show False using ij by simp
  qed
  then show "?P 0 = None" using P by (simp add: take_place_def)
  have same: "?P y = P y" if "depth P y m" "m < j" for y m
    using that depth_unique [of P, OF P d(1)] by (auto simp: take_place_def)
  have low: "depth ?P y m" if "depth P y m" "m < j" for y m
    using that
  proof (induction rule: depth.induct)
    case depth_root
    show ?case by (rule depth.depth_root)
  next
    case (depth_step y p k)
    then have "?P y = Some p" using same [of y "Suc k"] depth.depth_step [of P y p k] by simp
    then show ?case using depth_step by (intro depth.depth_step [of _ _ p]) simp_all
  qed
  have Pd: "?P d = Some q" using q(1) by (simp add: take_place_def)
  have "rooted ?P q" using low [OF q(3)] q(2) ij by (auto simp: rooted_def)
  with Pd have rd: "rooted ?P d" by (rule rooted_step)
  show "rooted ?P x" if "rooted P x"
  proof -
    from that obtain k where "depth P x k" by (auto simp: rooted_def)
    then show ?thesis
    proof (induction rule: depth.induct)
      case depth_root
      show ?case by (rule rooted_root)
    next
      case (depth_step y p k)
      then have "y = d \<or> ?P y = Some p" by (simp add: take_place_def)
      then show ?case using rd rooted_step [of ?P y p] depth_step.IH by blast
    qed
  qed
  show "\<not> ancestor ?P d n"
  proof
    assume "ancestor ?P d n"
    then have "ancestor ?P q n" using d(2) ancestor_parent [of ?P, OF Pd] by blast
    moreover have "ancestor ?P y z \<Longrightarrow> depth P y m \<Longrightarrow> m < j \<Longrightarrow> \<exists>l \<le> m. depth P z l" for y z m
    proof (induction arbitrary: m rule: converse_rtranclp_induct)
      case base
      then show ?case by blast
    next
      case (step y w)
      then have "P y = Some w" using same by simp
      then obtain l where "m = Suc l" "depth P w l" using depth_parent [of P, OF P] step.prems(1) by blast
      then have "\<exists>l' \<le> l. depth P z l'" using step.IH [of l] step.prems(2) by simp
      then show ?case using \<open>m = Suc l\<close> by (auto intro: le_SucI)
    qed
    ultimately have "\<exists>l \<le> i'. depth P n l" using q(2,3) ij by simp
    then obtain l where l: "l \<le> i'" "depth P n l" by blast
    then have "i = l" using depth_unique [of P, OF P n(1)] by simp
    then show False using q(2) l(1) by simp
  qed
qed

lemma adopt_rooted:
  assumes P: "P 0 = None" and n: "n \<noteq> 0" and d: "rooted P d" "\<not> ancestor P d n"
  shows "adopt P n d excl 0 = None" and "rooted P x \<Longrightarrow> rooted (adopt P n d excl) x"
proof -
  let ?P = "adopt P n d excl"
  obtain j where j: "depth P d j" using d(1) by (auto simp: rooted_def)
  show "?P 0 = None" using P n by (simp add: adopt_def)
  have same: "?P a = P a" if anc: "ancestor P d a" for a
  proof -
    have "P a \<noteq> Some d"
    proof
      assume a: "P a = Some d"
      obtain i where "i \<le> j" "depth P a i" using anc ancestor_depth [of P, OF P _ j] by blast
      then show False using depth_parent [of P, OF P _ a] depth_unique [of P, OF P j] by fastforce
    qed
    moreover have "a \<noteq> n" using anc d(2) by blast
    ultimately show ?thesis by (simp add: adopt_def)
  qed
  have up: "rooted ?P a" if "depth P a k" "ancestor P d a" for a k
    using that
  proof (induction rule: depth.induct)
    case depth_root
    show ?case by (rule rooted_root)
  next
    case (depth_step y p k)
    have "ancestor P d p" using depth_step.prems depth_step.hyps(1) by (rule rtranclp.rtrancl_into_rtrancl)
    then have "rooted ?P p" by (rule depth_step.IH)
    moreover have "?P y = Some p" using same [OF depth_step.prems] depth_step.hyps(1) by simp
    ultimately show ?case using rooted_step by blast
  qed
  have rd: "rooted ?P d" using up [OF j] by simp
  have "?P n = Some d" by (simp add: adopt_def)
  then have rn: "rooted ?P n" using rd by (rule rooted_step)
  show "rooted ?P x" if "rooted P x"
  proof -
    from that obtain k where "depth P x k" by (auto simp: rooted_def)
    then show ?thesis
    proof (induction rule: depth.induct)
      case depth_root
      show ?case by (rule rooted_root)
    next
      case (depth_step y p k)
      have "?P y = Some d \<or> ?P y = Some n \<or> ?P y = Some p" using depth_step.hyps(1) by (simp add: adopt_def)
      then show ?case using rd rn depth_step.IH rooted_step [of ?P y] by blast
    qed
  qed
qed

section \<open>Changing a dependency\<close>

abbreviation parents_of :: "nodes \<Rightarrow> parents" where
  "parents_of h \<equiv> (\<lambda>x. pn_parent (h x))"

lemma depends_on_simps:
  "depends_on h None n = Some False"
  "depends_on h (Some a) n = (if a = n then Some True else depends_on h (pn_parent (h a)) n)"
  by (subst depends_on.simps, simp)+

lemma depends_on_ancestor:
  assumes "parents_of h 0 = None"
  shows "depth (parents_of h) a k \<Longrightarrow> depends_on h (Some a) n = Some (ancestor (parents_of h) a n)"
proof (induction rule: depth.induct)
  case depth_root
  show ?case using assms ancestor_top [of "parents_of h" 0 n] by (simp add: depends_on_simps)
next
  case (depth_step a p k)
  show ?case using depth_step.IH depth_step.hyps(1) ancestor_parent [of "parents_of h", OF depth_step.hyps(1), of n]
    by (simp add: depends_on_simps(2) [of h a])
qed

lemma exclusive_loop_links:
  assumes "links h K" "n \<noteq> d" "K d = pre @ ks" "set pre \<subseteq> {n}"
  shows "\<exists>h' K'. exclusive_loop h n (fst_or None ks) = Some (Ret h') \<and> links h' K' \<and> same_data h h' \<and>
    (\<forall>x. pn_parent (h' x) = (if x \<in> set ks \<and> x \<noteq> n then Some n else pn_parent (h x)))"
  using assms
proof (induction ks arbitrary: h K pre)
  case Nil
  then show ?case by (subst exclusive_loop.simps) (auto simp: same_data_simps)
next
  case (Cons a ks)
  have "seg h d None (K d) None" "distinct (K d)" using Cons.prems(1) by (simp_all add: links_def lists_ok_def)
  then have nxt: "pn_next (h a) = fst_or None ks" and dist: "a \<notin> set pre" "a \<notin> set ks"
    using Cons.prems(3) by (auto simp: seg_append)
  have par: "pn_parent (h a) = Some d" using links_mem [OF Cons.prems(1), of a d] Cons.prems(3) by simp
  show ?case
  proof (cases "a = n")
    case True
    have "set (pre @ [a]) \<subseteq> {n}" "K d = (pre @ [a]) @ ks" using Cons.prems(3,4) True by simp_all
    from Cons.IH [OF Cons.prems(1,2) this(2,1)] obtain h' K' where
      "exclusive_loop h n (fst_or None ks) = Some (Ret h')" "links h' K'" "same_data h h'"
      "\<forall>x. pn_parent (h' x) = (if x \<in> set ks \<and> x \<noteq> n then Some n else pn_parent (h x))" by blast
    moreover have "exclusive_loop h n (fst_or None (a # ks)) = exclusive_loop h n (fst_or None ks)"
      using True nxt by (subst exclusive_loop.simps) simp
    ultimately show ?thesis using True by auto
  next
    case False
    obtain h1 where h1: "setParent h a (Some n) = Ret h1" "links h1 (move K a (Some n))" "same_data h h1"
      "\<forall>x. pn_parent (h1 x) = (if x = a then Some n else pn_parent (h x))"
      using setParent_links [OF Cons.prems(1), of "Some n" a] par False Cons.prems(2) by auto
    have "move K a (Some n) d = pre @ ks" using Cons.prems(2,3) dist by (simp add: move_def)
    from Cons.IH [OF h1(2) Cons.prems(2) this Cons.prems(4)] obtain h' K' where
      r: "exclusive_loop h1 n (fst_or None ks) = Some (Ret h')" "links h' K'" "same_data h1 h'"
      "\<forall>x. pn_parent (h' x) = (if x \<in> set ks \<and> x \<noteq> n then Some n else pn_parent (h1 x))" by blast
    have "exclusive_loop h n (fst_or None (a # ks)) = exclusive_loop h1 n (fst_or None ks)"
      using False nxt h1(1) by (subst exclusive_loop.simps) simp
    then show ?thesis using r h1(3,4) False same_data_simps(2) [OF h1(3) r(3)] by auto
  qed
qed

lemma links_set_weight: "links h K \<Longrightarrow> links (set_weight h n w) K"
proof -
  assume l: "links h K"
  have "seg (set_weight h n w) p None (K p) None = seg h p None (K p) None" for p
    by (rule seg_cong) (simp add: set_weight_def)
  then show ?thesis using l by (simp add: links_def lists_ok_def set_weight_def)
qed

definition dependency :: "nodes \<Rightarrow> node_addr \<Rightarrow> node_addr \<Rightarrow> bool \<Rightarrow> parents" where
  "dependency h n d excl = adopt (take_place (parents_of h) n d (ancestor (parents_of h) d n)) n d excl"

definition same_queues :: "nodes \<Rightarrow> nodes \<Rightarrow> bool" where
  "same_queues h h' \<longleftrightarrow> (\<forall>x. pn_q (h' x) = pn_q (h x) \<and> pn_id (h' x) = pn_id (h x) \<and> pn_state (h' x) = pn_state (h x) \<and>
     pn_bytes (h' x) = pn_bytes (h x) \<and> pn_subtreeBytes (h' x) = pn_subtreeBytes (h x))"

lemma first_step:
  assumes l: "links h K" and P: "pn_parent (h 0) = None" and n: "rooted (parents_of h) n" "n \<noteq> 0"
    and d: "rooted (parents_of h) d" "d \<noteq> n" and dep: "ancestor (parents_of h) d n"
  shows "\<exists>h1 K1. setParent h d (pn_parent (h n)) = Ret h1 \<and> links h1 K1 \<and> same_data h h1 \<and>
    parents_of h1 = take_place (parents_of h) n d True"
proof -
  let ?P = "parents_of h"
  obtain i j where ij: "depth ?P n i" "depth ?P d j" using n(1) d(1) by (auto simp: rooted_def)
  obtain i2 where "depth ?P n i2" "i2 < j" using ancestor_depth [of ?P, OF P dep ij(2)] d(2) by blast
  then have less: "i < j" using depth_unique [of ?P, OF P ij(1)] by simp
  obtain q i' where q: "pn_parent (h n) = Some q" "i = Suc i'" "depth ?P q i'" using depth_not_root [OF ij(1) n(2)] by blast
  have "q \<noteq> d"
  proof
    assume "q = d"
    then have "i' = j" using q(3) depth_unique [of ?P, OF P ij(2)] by simp
    then show False using less q(2) by simp
  qed
  moreover have "pn_parent (h d) \<noteq> Some q"
  proof
    assume "pn_parent (h d) = Some q"
    then obtain m where "j = Suc m" "depth ?P q m" using depth_parent [of ?P, OF P ij(2)] by blast
    then have "j = Suc i'" using depth_unique [of ?P, OF P q(3)] by simp
    then show False using less q(2) by simp
  qed
  ultimately obtain h1 where h1: "setParent h d (Some q) = Ret h1" "links h1 (move K d (Some q))" "same_data h h1"
    "\<forall>x. pn_parent (h1 x) = (if x = d then Some q else pn_parent (h x))"
    using setParent_links [OF l, of "Some q" d] by auto
  have "parents_of h1 = take_place ?P n d True" using h1(4) q(1) by (simp add: take_place_def fun_eq_iff)
  then show ?thesis using h1(1-3) q(1) by auto
qed

lemma last_step:
  assumes "links h K" "d \<noteq> n"
  shows "\<exists>h' K'. setParent h n (Some d) = Ret h' \<and> links h' K' \<and> same_data h h' \<and>
    (\<forall>x. pn_parent (h' x) = (if x = n then Some d else pn_parent (h x)))"
proof (cases "pn_parent (h n) = Some d")
  case True
  then have "setParent h n (Some d) = Ret h" using assms(2) by (simp add: setParent_def)
  then show ?thesis using True assms(1) same_data_simps(1) [of h] by auto
next
  case False
  then show ?thesis using setParent_links [OF assms(1), of "Some d" n] assms(2) by blast
qed

lemma reparent_dep:
  assumes P: "pn_parent (h 0) = None" and d: "rooted (parents_of h) d" "d \<noteq> n"
  shows "depends_on h (pn_parent (h d)) n = Some (ancestor (parents_of h) d n)"
proof (cases "pn_parent (h d)")
  case None
  then show ?thesis using ancestor_top [of "parents_of h" d n] d(2) by (simp add: depends_on_simps)
next
  case (Some q)
  obtain j where "depth (parents_of h) d j" using d(1) by (auto simp: rooted_def)
  then obtain k where "depth (parents_of h) q k" using depth_parent [of "parents_of h", OF P _ Some] by blast
  then show ?thesis using depends_on_ancestor [of h, OF P] ancestor_parent [of "parents_of h" d q n] Some d(2) by simp
qed

lemma reparent_links:
  assumes l: "links h K" and P: "pn_parent (h 0) = None" and n: "rooted (parents_of h) n" "n \<noteq> 0"
    and d: "rooted (parents_of h) d" "d \<noteq> n"
  shows "\<exists>h' K'. reparent h n d pr = Some (Ret h') \<and> links h' K' \<and> parents_of h' = dependency h n d (Exclusive pr) \<and>
    same_queues h h' \<and> (\<forall>x. pn_weight (h' x) = (if x = n then Weight pr else pn_weight (h x)))"
proof -
  let ?P = "parents_of h"
  define dep where "dep = ancestor ?P d n"
  have don: "depends_on h (pn_parent (h d)) n = Some dep" using reparent_dep [OF P d] by (simp add: dep_def)
  have "\<exists>h1 K1. (if dep then setParent h d (pn_parent (h n)) else Ret h) = Ret h1 \<and> links h1 K1 \<and> same_data h h1 \<and>
    parents_of h1 = take_place ?P n d dep"
  proof (cases dep)
    case True
    then show ?thesis using first_step [OF l P n d] by (simp add: dep_def)
  next
    case False
    then show ?thesis using l same_data_simps(1) [of h] by (auto simp: take_place_def)
  qed
  then obtain h1 K1 where h1: "(if dep then setParent h d (pn_parent (h n)) else Ret h) = Ret h1" "links h1 K1" "same_data h h1"
    "parents_of h1 = take_place ?P n d dep" by blast
  have "\<exists>h2 K2. (if Exclusive pr then exclusive_loop h1 n (pn_kids (h1 d)) else Some (Ret h1)) = Some (Ret h2) \<and>
    links h2 K2 \<and> same_data h1 h2 \<and>
    (\<forall>x. pn_parent (h2 x) = (if Exclusive pr \<and> pn_parent (h1 x) = Some d \<and> x \<noteq> n then Some n else pn_parent (h1 x)))"
  proof (cases "Exclusive pr")
    case True
    have "pn_kids (h1 d) = fst_or None (K1 d)" using h1(2) by (simp add: links_def lists_ok_def)
    then show ?thesis using exclusive_loop_links [OF h1(2) d(2) [symmetric], of "[]" "K1 d"] True
      by (simp add: links_mem [OF h1(2)])
  next
    case False
    then show ?thesis using h1(2) same_data_simps(1) [of h1] by auto
  qed
  then obtain h2 K2 where h2: "(if Exclusive pr then exclusive_loop h1 n (pn_kids (h1 d)) else Some (Ret h1)) = Some (Ret h2)"
    "links h2 K2" "same_data h1 h2"
    "\<forall>x. pn_parent (h2 x) = (if Exclusive pr \<and> pn_parent (h1 x) = Some d \<and> x \<noteq> n then Some n else pn_parent (h1 x))" by blast
  obtain h3 K3 where h3: "setParent h2 n (Some d) = Ret h3" "links h3 K3" "same_data h2 h3"
      "\<forall>x. pn_parent (h3 x) = (if x = n then Some d else pn_parent (h2 x))" using last_step [OF h2(2) d(2)] by blast
  let ?h = "set_weight h3 n (Weight pr)"
  have sd: "same_data h h3" using same_data_simps(2) [OF same_data_simps(2) [OF h1(3) h2(3)] h3(3)] .
  have "reparent h n d pr = Some (Ret ?h)"
    unfolding reparent_def don option.case h1(1) go.case h2(1) h3(1) by simp
  moreover have "parents_of ?h x = dependency h n d (Exclusive pr) x" for x
    unfolding dependency_def dep_def [symmetric] h1(4) [symmetric]
    using h2(4) h3(4) by (simp add: set_weight_def adopt_def)
  moreover have "same_queues h ?h" using sd by (simp add: same_data_def same_queues_def set_weight_def)
  moreover have "pn_weight (?h x) = (if x = n then Weight pr else pn_weight (h x))" for x
    using sd by (simp add: same_data_def set_weight_def)
  ultimately show ?thesis using links_set_weight [OF h3(2)] by blast
qed

lemma dependency_rooted:
  assumes P: "pn_parent (h 0) = None" and n: "rooted (parents_of h) n" "n \<noteq> 0"
    and d: "rooted (parents_of h) d" "d \<noteq> n"
  shows "dependency h n d excl 0 = None" and "rooted (parents_of h) x \<Longrightarrow> rooted (dependency h n d excl) x"
proof -
  let ?P = "parents_of h"
  let ?P1 = "take_place ?P n d (ancestor ?P d n)"
  have "?P1 0 = None \<and> (\<forall>x. rooted ?P x \<longrightarrow> rooted ?P1 x) \<and> \<not> ancestor ?P1 d n"
  proof (cases "ancestor ?P d n")
    case True
    obtain i j where "depth ?P n i" "depth ?P d j" using n(1) d(1) by (auto simp: rooted_def)
    then show ?thesis using take_place_rooted [of ?P, OF P _ n(2) _ d(2) True] True by auto
  next
    case False
    then show ?thesis using P by (simp add: take_place_def)
  qed
  then show "dependency h n d excl 0 = None" and "rooted ?P x \<Longrightarrow> rooted (dependency h n d excl) x"
    using adopt_rooted [of ?P1 n d] n(2) d(1) by (auto simp: dependency_def)
qed

section \<open>The tree of the scheduler\<close>

definition tree_ok :: "priorityWriteScheduler \<Rightarrow> bool" where
  "tree_ok ws \<longleftrightarrow> (\<exists>K. links (pw_heap ws) K) \<and> pn_parent (pw_heap ws 0) = None \<and> pw_nodes ws 0 = Some 0 \<and>
     (\<forall>sid n. pw_nodes ws sid = Some n \<longrightarrow>
        rooted (parents_of (pw_heap ws)) n \<and> pn_id (pw_heap ws n) = sid \<and> n < pw_next_addr ws) \<and>
     (\<forall>a x. pw_next_addr ws \<le> a \<longrightarrow> pn_parent (pw_heap ws a) = None \<and> pn_parent (pw_heap ws x) \<noteq> Some a) \<and>
     (\<forall>q \<in> set (pw_queuePool ws). q = [])"

lemma tree_okI:
  assumes "links (pw_heap ws) K" "pn_parent (pw_heap ws 0) = None" "pw_nodes ws 0 = Some 0"
    "\<And>sid n. pw_nodes ws sid = Some n \<Longrightarrow>
       rooted (parents_of (pw_heap ws)) n \<and> pn_id (pw_heap ws n) = sid \<and> n < pw_next_addr ws"
    "\<And>a x. pw_next_addr ws \<le> a \<Longrightarrow> pn_parent (pw_heap ws a) = None \<and> pn_parent (pw_heap ws x) \<noteq> Some a"
    "\<And>q. q \<in> set (pw_queuePool ws) \<Longrightarrow> q = []"
  shows "tree_ok ws"
  using assms unfolding tree_ok_def by blast

lemma tree_ok_node:
  assumes "tree_ok ws" "pw_nodes ws sid = Some n"
  shows "rooted (parents_of (pw_heap ws)) n" "pn_id (pw_heap ws n) = sid" "n < pw_next_addr ws"
  using assms unfolding tree_ok_def by blast+

lemma tree_ok_fresh:
  assumes "tree_ok ws" "pw_next_addr ws \<le> a"
  shows "pn_parent (pw_heap ws a) = None" "pn_parent (pw_heap ws x) \<noteq> Some a"
  using assms unfolding tree_ok_def by blast+

lemma tree_ok_root:
  assumes "tree_ok ws"
  shows "pn_parent (pw_heap ws 0) = None" "pw_nodes ws 0 = Some 0" "0 < pw_next_addr ws"
  using assms unfolding tree_ok_def by blast+

lemma tree_ok_not_root: "tree_ok ws \<Longrightarrow> pw_nodes ws sid = Some n \<Longrightarrow> sid \<noteq> 0 \<Longrightarrow> n \<noteq> 0"
  unfolding tree_ok_def by metis

lemma tree_ok_new: "tree_ok (NewPriorityWriteScheduler cfg)"
proof -
  have "links (\<lambda>_. zero_node) (\<lambda>_. [])" by (simp add: links_def lists_ok_def zero_node_def)
  then show ?thesis
    by (auto simp: tree_ok_def NewPriorityWriteScheduler_def Let_def zero_node_def rooted_root)
qed

text \<open>A tree after its parents changed, with the nodes and their streams the same.\<close>

lemma tree_ok_parents:
  assumes "tree_ok ws" "links h K" "parents_of h 0 = None"
    "\<And>x. rooted (parents_of (pw_heap ws)) x \<Longrightarrow> rooted (parents_of h) x"
    "\<And>x. pn_id (h x) = pn_id (pw_heap ws x)"
    "\<And>x. parents_of h x = parents_of (pw_heap ws) x \<or>
       x < pw_next_addr ws \<and> (parents_of h x = None \<or> the (parents_of h x) < pw_next_addr ws)"
  shows "tree_ok (ws\<lparr>pw_heap := h\<rparr>)"
proof -
  have "pn_parent (h a) = None \<and> pn_parent (h x) \<noteq> Some a" if "pw_next_addr ws \<le> a" for a x
  proof -
    have "pn_parent (pw_heap ws a) = None" "pn_parent (pw_heap ws x) \<noteq> Some a" using assms(1) that by (auto simp: tree_ok_def)
    then show ?thesis using assms(6) [of a] assms(6) [of x] that by auto
  qed
  then show ?thesis using assms(1-5) unfolding tree_ok_def by auto
qed

lemma parent_below:
  assumes "tree_ok ws"
  shows "pn_parent (pw_heap ws x) = Some p \<Longrightarrow> p < pw_next_addr ws"
  using assms unfolding tree_ok_def by (meson not_le)

lemma AdjustStream_known:
  assumes ok: "tree_ok ws" and n: "pw_nodes ws sid = Some n" "sid \<noteq> 0" and d: "pw_nodes ws (StreamDep pr) = Some d" "d \<noteq> n"
  shows "\<exists>h. AdjustStream ws sid pr = Some (Ret (ws\<lparr>pw_heap := h\<rparr>)) \<and> tree_ok (ws\<lparr>pw_heap := h\<rparr>) \<and>
    parents_of h = dependency (pw_heap ws) n d (Exclusive pr) \<and> same_queues (pw_heap ws) h \<and>
    (\<forall>x. pn_weight (h x) = (if x = n then Weight pr else pn_weight (pw_heap ws x)))"
proof -
  obtain K where l: "links (pw_heap ws) K" and P: "pn_parent (pw_heap ws 0) = None" using ok by (auto simp: tree_ok_def)
  have r: "rooted (parents_of (pw_heap ws)) n" "rooted (parents_of (pw_heap ws)) d" "n < pw_next_addr ws" "d < pw_next_addr ws"
    using ok n(1) d(1) by (auto simp: tree_ok_def)
  have n0: "n \<noteq> 0" using tree_ok_not_root [OF ok n] .
  obtain h K' where h: "reparent (pw_heap ws) n d pr = Some (Ret h)" "links h K'"
    "parents_of h = dependency (pw_heap ws) n d (Exclusive pr)" "same_queues (pw_heap ws) h"
    "\<forall>x. pn_weight (h x) = (if x = n then Weight pr else pn_weight (pw_heap ws x))"
    using reparent_links [OF l P r(1) n0 r(2) d(2)] by blast
  have "tree_ok (ws\<lparr>pw_heap := h\<rparr>)"
  proof (rule tree_ok_parents [OF ok h(2)])
    show "parents_of h 0 = None" using dependency_rooted(1) [OF P r(1) n0 r(2) d(2)] fun_cong [OF h(3), of 0] by simp
    show "rooted (parents_of h) x" if "rooted (parents_of (pw_heap ws)) x" for x
      unfolding h(3) by (rule dependency_rooted(2) [OF P r(1) n0 r(2) d(2) that])
    show "pn_id (h x) = pn_id (pw_heap ws x)" for x using h(4) by (simp add: same_queues_def)
    have near: "x < pw_next_addr ws" if "pn_parent (pw_heap ws x) = Some p" for x p
      using ok that unfolding tree_ok_def by (metis not_le option.distinct(1))
    show "parents_of h x = parents_of (pw_heap ws) x \<or>
       x < pw_next_addr ws \<and> (parents_of h x = None \<or> the (parents_of h x) < pw_next_addr ws)" for x
    proof -
      have below: "parents_of (pw_heap ws) y = None \<or> the (parents_of (pw_heap ws) y) < pw_next_addr ws" for y
        using parent_below [OF ok, of y] by (cases "parents_of (pw_heap ws) y") auto
      have "parents_of h x = parents_of (pw_heap ws) x \<or> parents_of h x = Some d \<and> x = n \<or> parents_of h x = Some n \<and> x = d \<or>
          parents_of h x = Some n \<and> parents_of (pw_heap ws) x = Some d \<or> x = d \<and> parents_of h x = parents_of (pw_heap ws) n"
        using fun_cong [OF h(3), of x] by (auto simp: dependency_def take_place_def adopt_def split: if_splits)
      then show ?thesis using r(3,4) near [of x] below [of n] by auto
    qed
  qed
  moreover have "AdjustStream ws sid pr = Some (Ret (ws\<lparr>pw_heap := h\<rparr>))"
    using n d h(1) by (simp add: AdjustStream_def adjust_node_def)
  ultimately show ?thesis using h(3-5) by blast
qed

lemma new_node_tree:
  assumes ok: "tree_ok ws" and p: "rooted (parents_of (pw_heap ws)) p" "p < pw_next_addr ws" and new: "pw_nodes ws sid = None" "sid \<noteq> 0"
  shows "\<exists>ws'. new_node ws sid st p = Ret (ws', pw_next_addr ws) \<and> tree_ok ws' \<and> pw_maxID ws' = pw_maxID ws \<and>
    pw_nodes ws' = (pw_nodes ws)(sid \<mapsto> pw_next_addr ws) \<and>
    parents_of (pw_heap ws') = (parents_of (pw_heap ws))(pw_next_addr ws := Some p) \<and>
    pn_q (pw_heap ws' (pw_next_addr ws)) = [] \<and> pn_weight (pw_heap ws' (pw_next_addr ws)) = priorityDefaultWeight \<and>
    pn_state (pw_heap ws' (pw_next_addr ws)) = st \<and>
    (\<forall>x. x \<noteq> pw_next_addr ws \<longrightarrow> pn_q (pw_heap ws' x) = pn_q (pw_heap ws x))"
proof -
  have pool: "\<forall>q \<in> set (pw_queuePool ws). q = []" using ok unfolding tree_ok_def by blast
  let ?n = "pw_next_addr ws"
  obtain pl q where g: "pool_get (pw_queuePool ws) = (pl, q)" by fastforce
  have e: "q = []" "\<forall>q \<in> set pl. q = []" using pool_get_empty [OF pool g] by auto
  define h0 where "h0 = (pw_heap ws)(?n := zero_node\<lparr>pn_q := q, pn_id := sid, pn_weight := priorityDefaultWeight, pn_state := st\<rparr>)"
  obtain K where K: "links (pw_heap ws) K" using ok unfolding tree_ok_def by blast
  have fresh: "pn_parent (pw_heap ws ?n) = None" "\<And>x. pn_parent (pw_heap ws x) \<noteq> Some ?n"
    using tree_ok_fresh [OF ok order_refl] by simp_all
  have Kn: "K ?n = []" "\<And>r. ?n \<notin> set (K r)" using links_mem [OF K] fresh(1) links_mem [OF K, of _ ?n] fresh(2)
    by (simp_all flip: set_empty add: set_eq_iff)
  have "seg h0 r None (K r) None = seg (pw_heap ws) r None (K r) None" for r
    using Kn(2) [of r] by (intro seg_cong) (auto simp: h0_def)
  then have l0: "links h0 K" using K Kn fresh by (auto simp: links_def lists_ok_def h0_def zero_node_def)
  have np: "p \<noteq> ?n" using p(2) by simp
  obtain h where h: "setParent h0 ?n (Some p) = Ret h" "links h (move K ?n (Some p))" "same_data h0 h"
    "\<forall>x. pn_parent (h x) = (if x = ?n then Some p else pn_parent (h0 x))"
    using setParent_links [OF l0, of "Some p" ?n] np by (auto simp: h0_def zero_node_def)
  let ?P = "parents_of (pw_heap ws)"
  have par: "parents_of h = ?P(?n := Some p)" using h(4) by (auto simp: h0_def fun_eq_iff)
  then have ad: "parents_of h = adopt ?P ?n p False" by (auto simp: adopt_def fun_eq_iff)
  have "\<not> ancestor ?P p ?n"
  proof
    assume "ancestor ?P p ?n"
    then show False using np fresh(2) by (cases rule: rtranclp.cases) auto
  qed
  moreover have P0: "?P 0 = None" "?n \<noteq> 0" using tree_ok_root [OF ok] by simp_all
  ultimately have ar: "adopt ?P ?n p False 0 = None" "\<And>x. rooted ?P x \<Longrightarrow> rooted (adopt ?P ?n p False) x"
    using adopt_rooted [where P = ?P and n = ?n and d = p and excl = False, OF _ _ p(1)] by blast+
  have rt: "pn_parent (h 0) = None" "\<And>x. rooted ?P x \<Longrightarrow> rooted (parents_of h) x"
    using ar fun_cong [OF ad, of 0] unfolding ad by simp_all
  define ws' where "ws' = ws\<lparr>pw_heap := h, pw_next_addr := ?n + 1, pw_queuePool := pl, pw_nodes := (pw_nodes ws)(sid \<mapsto> ?n)\<rparr>"
  have f: "pw_heap ws' = h" "pw_next_addr ws' = ?n + 1" "pw_queuePool ws' = pl" "pw_nodes ws' = (pw_nodes ws)(sid \<mapsto> ?n)"
    "pw_maxID ws' = pw_maxID ws" by (simp_all add: ws'_def)
  have nn: "new_node ws sid st p = Ret (ws', ?n)"
    using g h(1) by (simp add: new_node_def h0_def [symmetric] ws'_def Let_def)
  have rn: "rooted (parents_of h) ?n" using rooted_step [of "parents_of h" ?n p] rt(2) [OF p(1)] h(4) by simp
  have ids: "pn_id (h x) = (if x = ?n then sid else pn_id (pw_heap ws x))" for x
    using h(3) by (auto simp: same_data_def h0_def)
  have "tree_ok ws'"
  proof (rule tree_okI)
    show "links (pw_heap ws') (move K ?n (Some p))" unfolding f by (rule h(2))
    show "pn_parent (pw_heap ws' 0) = None" unfolding f by (rule rt(1))
    show "pw_nodes ws' 0 = Some 0" using tree_ok_root(2) [OF ok] new(2) by (simp add: f)
    show "q = []" if "q \<in> set (pw_queuePool ws')" for q using e(2) that by (simp add: f)
    fix t m assume m: "pw_nodes ws' t = Some m"
    show "rooted (parents_of (pw_heap ws')) m \<and> pn_id (pw_heap ws' m) = t \<and> m < pw_next_addr ws'"
    proof (cases "t = sid")
      case True
      then have "m = ?n" using m by (simp add: f)
      then show ?thesis using True rn ids [of m] by (simp add: f)
    next
      case False
      then have m: "pw_nodes ws t = Some m" using m by (simp add: f)
      have "m < ?n" using tree_ok_node(3) [OF ok m] .
      then show ?thesis using rt(2) [OF tree_ok_node(1) [OF ok m]] tree_ok_node(2) [OF ok m] ids [of m] by (simp add: f)
    qed
  next
    fix a x assume "pw_next_addr ws' \<le> a"
    then have a: "?n \<le> a" "a \<noteq> ?n" "a \<noteq> p" using p(2) by (auto simp: f)
    have "pn_parent (h a) = None" using tree_ok_fresh(1) [OF ok a(1)] fun_cong [OF par, of a] a(2) by simp
    moreover have "pn_parent (h x) \<noteq> Some a"
      using tree_ok_fresh(2) [OF ok a(1), of x] fun_cong [OF par, of x] a(3) by (cases "x = ?n") simp_all
    ultimately show "pn_parent (pw_heap ws' a) = None \<and> pn_parent (pw_heap ws' x) \<noteq> Some a" by (simp add: f)
  qed
  moreover have "pn_q (h ?n) = []" "pn_weight (h ?n) = priorityDefaultWeight" "pn_state (h ?n) = st"
    using h(3) e(1) by (simp_all add: same_data_def h0_def)
  moreover have "pn_q (h x) = pn_q (pw_heap ws x)" if "x \<noteq> ?n" for x using h(3) that by (simp add: same_data_def h0_def)
  ultimately show ?thesis using nn par by (intro exI [of _ ws']) (simp add: f)
qed

lemma tree_ok_cong:
  "tree_ok ws \<Longrightarrow> pw_heap ws' = pw_heap ws \<Longrightarrow> pw_nodes ws' = pw_nodes ws \<Longrightarrow> pw_next_addr ws' = pw_next_addr ws \<Longrightarrow>
   pw_queuePool ws' = pw_queuePool ws \<Longrightarrow> tree_ok ws'"
  unfolding tree_ok_def by simp

lemma open_new:
  assumes "tree_ok ws" "streamID \<noteq> 0" "pw_nodes ws streamID = None"
  shows "\<exists>ws' n. priority_OpenStream ws streamID pusherID = Ret ws' \<and> tree_ok ws' \<and>
    pw_nodes ws' = (pw_nodes ws)(streamID \<mapsto> n) \<and> pw_maxID ws' = max (pw_maxID ws) streamID \<and>
    parents_of (pw_heap ws') = (parents_of (pw_heap ws))(n := Some (case pw_nodes ws pusherID of None \<Rightarrow> 0 | Some p \<Rightarrow> p)) \<and>
    pn_q (pw_heap ws' n) = [] \<and> pn_weight (pw_heap ws' n) = priorityDefaultWeight \<and> pn_state (pw_heap ws' n) = priorityNodeOpen"
proof -
  define p where "p = (case pw_nodes ws pusherID of None \<Rightarrow> 0 | Some p \<Rightarrow> p)"
  have p: "rooted (parents_of (pw_heap ws)) p \<and> p < pw_next_addr ws"
    using tree_ok_node [OF assms(1), of pusherID] tree_ok_root(3) [OF assms(1)] rooted_root
    by (auto simp: p_def split: option.splits)
  obtain ws1 where n: "new_node ws streamID priorityNodeOpen p = Ret (ws1, pw_next_addr ws)" "tree_ok ws1" "pw_maxID ws1 = pw_maxID ws"
    "pw_nodes ws1 = (pw_nodes ws)(streamID \<mapsto> pw_next_addr ws)"
    "parents_of (pw_heap ws1) = (parents_of (pw_heap ws))(pw_next_addr ws := Some p)"
    "pn_q (pw_heap ws1 (pw_next_addr ws)) = []" "pn_weight (pw_heap ws1 (pw_next_addr ws)) = priorityDefaultWeight"
    "pn_state (pw_heap ws1 (pw_next_addr ws)) = priorityNodeOpen"
    using new_node_tree [OF assms(1) conjunct1 [OF p] conjunct2 [OF p] assms(3,2), of priorityNodeOpen] by blast
  define ws' where "ws' = (if streamID > pw_maxID ws1 then ws1\<lparr>pw_maxID := streamID\<rparr> else ws1)"
  have f: "pw_heap ws' = pw_heap ws1" "pw_nodes ws' = pw_nodes ws1" "pw_next_addr ws' = pw_next_addr ws1"
    "pw_queuePool ws' = pw_queuePool ws1" "pw_maxID ws' = max (pw_maxID ws) streamID"
    using n(3) by (auto simp: ws'_def max_def)
  have "priority_OpenStream ws streamID pusherID = Ret ws'"
    using assms(3) n(1) by (simp add: priority_OpenStream_def p_def [symmetric] ws'_def)
  moreover have "tree_ok ws'" using tree_ok_cong [OF n(2)] f by blast
  ultimately show ?thesis using n(4-8) f by (intro exI [of _ ws'] exI [of _ "pw_next_addr ws"]) (simp add: p_def)
qed

text \<open>C30: \<open>OpenStream\<close> of a stream that is not in the tree keeps the tree well formed and links the new
  node, with the default weight and an empty queue, below the stream that pushed it, or below the root if
  that one is not in the tree. No other dependency changes.
\<close>

theorem OpenStream_tree:
  assumes "tree_ok ws" "streamID \<noteq> 0" "pw_nodes ws streamID = None"
  shows "\<exists>ws' n. priority_OpenStream ws streamID pusherID = Ret ws' \<and> tree_ok ws' \<and>
    pw_nodes ws' = (pw_nodes ws)(streamID \<mapsto> n) \<and> pw_maxID ws' = max (pw_maxID ws) streamID \<and>
    parents_of (pw_heap ws') = (parents_of (pw_heap ws))(n := Some (case pw_nodes ws pusherID of None \<Rightarrow> 0 | Some p \<Rightarrow> p)) \<and>
    pn_q (pw_heap ws' n) = [] \<and> pn_weight (pw_heap ws' n) = priorityDefaultWeight \<and> pn_state (pw_heap ws' n) = priorityNodeOpen"
  by (rule open_new [OF assms])

text \<open>A new scheduler on which streams 1 and 3 are opened, and stream 5 is pushed by stream 1.\<close>

definition opened :: "priorityWriteScheduler \<Rightarrow> u32 \<Rightarrow> u32 \<Rightarrow> priorityWriteScheduler" where
  "opened ws sid pusher = (case priority_OpenStream ws sid pusher of Ret ws' \<Rightarrow> ws' | _ \<Rightarrow> ws)"

lemma opened_tree:
  assumes "tree_ok ws" "streamID \<noteq> 0" "pw_nodes ws streamID = None"
  shows "tree_ok (opened ws streamID pusherID)"
  using open_new [OF assms, of pusherID] by (auto simp: opened_def)

definition two_streams :: priorityWriteScheduler where
  "two_streams = opened (opened (NewPriorityWriteScheduler None) 1 0) 3 0"

lemmas sched_exec = opened_def priority_OpenStream_def NewPriorityWriteScheduler_def new_node_def pool_get_def setParent_def
  link_def unlink_def link_defs zero_node_def

lemma two_streams_eval:
  "pw_nodes two_streams = [0 \<mapsto> 0, 1 \<mapsto> 1, 3 \<mapsto> 2]"
  "parents_of (pw_heap two_streams) 1 = Some 0" "parents_of (pw_heap two_streams) 2 = Some 0"
  by (simp_all add: two_streams_def sched_exec, metis One_nat_def Suc_1)

lemma two_streams_tree: "tree_ok two_streams"
  unfolding two_streams_def
  by (intro opened_tree tree_ok_new) (simp_all add: sched_exec)

theorem OpenStream_tree_witness:
  "pw_nodes two_streams 5 = None \<and>
   (\<exists>ws' n. priority_OpenStream two_streams 5 1 = Ret ws' \<and> tree_ok ws' \<and> pn_parent (pw_heap ws' n) = Some 1)"
proof -
  have "pw_nodes two_streams 5 = None" "pw_nodes two_streams 1 = Some 1" by (simp_all add: two_streams_eval)
  moreover obtain ws' n where w: "priority_OpenStream two_streams 5 1 = Ret ws'" "tree_ok ws'"
    "parents_of (pw_heap ws') = (parents_of (pw_heap two_streams))(n := Some 1)"
    using OpenStream_tree [OF two_streams_tree, of 5 1] calculation by auto
  moreover have "pn_parent (pw_heap ws' n) = Some 1" using fun_cong [OF w(3), of n] by simp
  ultimately show ?thesis by blast
qed

text \<open>C8: \<open>AdjustStream\<close> on a stream of the tree carries out RFC 7540, section 5.3.3 on the linked
  nodes. It always returns, without panic, and the tree stays a tree: all links are consistent, there is
  no cycle and every stream is connected to the root, also when a stream is made dependent on one of its
  own dependants. If the new parent is known, the parents afterwards are exactly those of
  \<open>dependency\<close>: the parent first takes the place of the stream if it depended on it, an exclusive
  stream adopts the other dependants of its parent, and the stream gets the weight. If it is not known, the stream gets the default
  priority below the root; a dependency of a stream on itself is ignored. Queues, states and byte counts
  stay as they are.
\<close>

theorem AdjustStream_tree:
  assumes "tree_ok ws" "sid \<noteq> 0" "pw_nodes ws sid = Some n"
  shows "\<exists>h. AdjustStream ws sid pr = Some (Ret (ws\<lparr>pw_heap := h\<rparr>)) \<and> tree_ok (ws\<lparr>pw_heap := h\<rparr>) \<and> same_queues (pw_heap ws) h \<and>
    (case pw_nodes ws (StreamDep pr) of
       None \<Rightarrow> parents_of h = (parents_of (pw_heap ws))(n := Some 0) \<and> pn_weight (h n) = priorityDefaultWeight
     | Some d \<Rightarrow>
         if d = n then h = pw_heap ws
         else parents_of h = dependency (pw_heap ws) n d (Exclusive pr) \<and>
           (\<forall>x. pn_weight (h x) = (if x = n then Weight pr else pn_weight (pw_heap ws x))))"
proof (cases "pw_nodes ws (StreamDep pr)")
  case (Some d)
  show ?thesis
  proof (cases "d = n")
    case True
    then show ?thesis using Some assms
      by (intro exI [of _ "pw_heap ws"]) (simp add: AdjustStream_def adjust_node_def same_queues_def)
  next
    case False
    then show ?thesis using AdjustStream_known [OF assms(1,3,2) Some False] Some by auto
  qed
next
  case None
  have n0: "n \<noteq> 0" using tree_ok_not_root [OF assms(1,3,2)] .
  obtain K where K: "links (pw_heap ws) K" using assms(1) unfolding tree_ok_def by blast
  obtain h K' where h: "setParent (pw_heap ws) n (Some 0) = Ret h" "links h K'" "same_data (pw_heap ws) h"
    "\<forall>x. pn_parent (h x) = (if x = n then Some 0 else pn_parent (pw_heap ws x))"
    using last_step [OF K n0 [symmetric]] by blast
  let ?h = "set_weight h n priorityDefaultWeight" and ?P = "parents_of (pw_heap ws)"
  have par: "parents_of ?h = ?P(n := Some 0)" using h(4) by (auto simp: set_weight_def fun_eq_iff)
  then have ad: "parents_of ?h = adopt ?P n 0 False" by (auto simp: adopt_def fun_eq_iff)
  have "\<not> ancestor ?P 0 n" using ancestor_top [of ?P 0 n] tree_ok_root(1) [OF assms(1)] n0 by simp
  note ar = adopt_rooted [where P = ?P and n = n and d = 0 and excl = False,
      OF tree_ok_root(1) [OF assms(1)] n0 rooted_root this]
  have "tree_ok (ws\<lparr>pw_heap := ?h\<rparr>)"
  proof (rule tree_ok_parents [OF assms(1) links_set_weight [OF h(2)]])
    show "parents_of ?h 0 = None" using ar(1) fun_cong [OF ad, of 0] by simp
    show "rooted (parents_of ?h) x" if "rooted ?P x" for x unfolding ad by (rule ar(2) [OF that])
    show "pn_id (?h x) = pn_id (pw_heap ws x)" for x using h(3) by (simp add: same_data_def set_weight_def)
    show "parents_of ?h x = ?P x \<or> x < pw_next_addr ws \<and> (parents_of ?h x = None \<or> the (parents_of ?h x) < pw_next_addr ws)" for x
      using fun_cong [OF par, of x] tree_ok_node(3) [OF assms(1,3)] tree_ok_root(3) [OF assms(1)] by (cases "x = n") simp_all
  qed
  moreover have "AdjustStream ws sid pr = Some (Ret (ws\<lparr>pw_heap := ?h\<rparr>))"
    using assms(2,3) None h(1) by (simp add: AdjustStream_def adjust_node_def)
  moreover have "same_queues (pw_heap ws) ?h" using h(3) by (simp add: same_data_def same_queues_def set_weight_def)
  moreover have "pn_weight (?h n) = priorityDefaultWeight" by (simp add: set_weight_def)
  ultimately show ?thesis using None par by (intro exI [of _ ?h]) simp
qed

theorem AdjustStream_tree_witness:
  "\<exists>h. AdjustStream two_streams 1 \<lparr>StreamDep = 3, Exclusive = True, Weight = 7\<rparr> = Some (Ret (two_streams\<lparr>pw_heap := h\<rparr>)) \<and>
     tree_ok (two_streams\<lparr>pw_heap := h\<rparr>) \<and> pn_parent (h 1) = Some 2 \<and> pn_weight (h 1) = 7"
proof -
  have n: "pw_nodes two_streams 1 = Some 1" "pw_nodes two_streams 3 = Some 2" by (simp_all add: two_streams_eval)
  let ?pr = "\<lparr>StreamDep = 3, Exclusive = True, Weight = 7\<rparr>"
  obtain h where h: "AdjustStream two_streams 1 ?pr = Some (Ret (two_streams\<lparr>pw_heap := h\<rparr>))" "tree_ok (two_streams\<lparr>pw_heap := h\<rparr>)"
    "parents_of h = dependency (pw_heap two_streams) 1 2 True" "\<forall>x. pn_weight (h x) = (if x = 1 then 7 else pn_weight (pw_heap two_streams x))"
    using AdjustStream_tree [OF two_streams_tree _ n(1), of ?pr] n(2) by auto
  have "pn_parent (h 1) = Some 2" using fun_cong [OF h(3), of 1] by (simp add: dependency_def adopt_def)
  then show ?thesis using h by auto
qed

section \<open>Where the tree breaks\<close>

lemma remove_loop_simps:
  "remove_loop h n None = Some (Ret h)"
  "remove_loop h n (Some a) =
     (case setParent h a (pn_parent (h n)) of
        Ret h \<Rightarrow> remove_loop h n (pn_next (h a)) | Fail e \<Rightarrow> Some (Fail e) | Panic \<Rightarrow> Some Panic)"
  by (subst remove_loop.simps, simp)+

lemma remove_loop_siblings:
  assumes "links h K" "pn_parent (h n) = Some q" "K q = pre @ ks" "q \<notin> set ks"
  shows "remove_loop h n (fst_or None ks) = Some (Ret h)"
  using assms(3,4)
proof (induction ks arbitrary: pre)
  case Nil
  then show ?case by (simp add: remove_loop_simps)
next
  case (Cons a ks)
  have "seg h q None (K q) None" using assms(1) by (simp add: links_def lists_ok_def)
  then have "pn_next (h a) = fst_or None ks" "pn_parent (h a) = Some q" using Cons.prems(1) by (simp_all add: seg_append)
  then show ?case using Cons.IH [of "pre @ [a]"] Cons.prems assms(2) by (simp add: remove_loop_simps(2) setParent_def)
qed

lemma not_rooted: "P x = None \<Longrightarrow> x \<noteq> 0 \<Longrightarrow> \<not> rooted P x"
  using depth_not_root by (fastforce simp: rooted_def)

lemma not_rooted_step: "P 0 = None \<Longrightarrow> P x = Some p \<Longrightarrow> \<not> rooted P p \<Longrightarrow> \<not> rooted P x"
  using depth_parent [of P x _ p] unfolding rooted_def by blast


definition pushed_streams :: priorityWriteScheduler where
  "pushed_streams = opened (opened (opened (NewPriorityWriteScheduler None) 1 0) 3 1) 5 1"

lemma pushed_streams_eval:
  "pw_nodes pushed_streams 1 = Some 1" "pn_kids (pw_heap pushed_streams 1) = Some 3" "pn_next (pw_heap pushed_streams 3) = Some 2"
  "pw_nodes pushed_streams 3 = Some 2"
  by (simp_all add: pushed_streams_def sched_exec)

lemma pushed_streams_tree: "tree_ok pushed_streams"
  unfolding pushed_streams_def
  by (intro opened_tree tree_ok_new) (simp_all add: sched_exec)




definition one_idle :: PriorityWriteSchedulerConfig where
  "one_idle = \<lparr>cfg_MaxClosedNodesInTree = 10, cfg_MaxIdleNodesInTree = 1, cfg_ThrottleOutOfOrderWrites = False\<rparr>"

definition plain_priority :: PriorityParam where
  "plain_priority = \<lparr>StreamDep = 0, Exclusive = False, Weight = 15\<rparr>"

lemmas adjust_exec = AdjustStream_def adjust_node_def reparent_def addClosedOrIdleNode_def put_idle_def removeNode_def
  depends_on_simps remove_loop_simps set_weight_def priority_Push_def priority_CloseStream_def


end
