(* ===== verification/Http2_Priority_Pop.thy ===== *)
theory Http2_Priority_Pop
  imports Http2_Priority_Tree "HOL-Library.Multiset"
begin

text \<open>
  \<open>Pop\<close> of the priority scheduler: the walk over the linked tree ends, and it finds a frame whenever
  a stream of the tree has one that flow control lets through.
\<close>

section \<open>Updates that keep the tree\<close>

definition same_links :: "nodes \<Rightarrow> nodes \<Rightarrow> bool" where
  "same_links h h' \<longleftrightarrow> (\<forall>x. pn_parent (h' x) = pn_parent (h x) \<and> pn_kids (h' x) = pn_kids (h x) \<and>
     pn_prev (h' x) = pn_prev (h x) \<and> pn_next (h' x) = pn_next (h x) \<and>
     pn_id (h' x) = pn_id (h x) \<and> pn_weight (h' x) = pn_weight (h x) \<and> pn_state (h' x) = pn_state (h x))"

lemma same_links_trans: "same_links h1 h2 \<Longrightarrow> same_links h2 h3 \<Longrightarrow> same_links h1 h3"
  by (simp add: same_links_def)

lemma same_links_links:
  assumes "same_links h h'"
  shows "links h' K = links h K"
proof -
  have "seg h' p prv xs nxt = seg h p prv xs nxt" for p prv xs nxt
    by (rule seg_cong) (use assms in \<open>simp add: same_links_def\<close>)
  then show ?thesis using assms by (simp add: links_def lists_ok_def same_links_def)
qed

lemma addBytes_loop_simps:
  "addBytes_loop h None b = Some h"
  "addBytes_loop h (Some a) b =
     (let h = h(a := (h a)\<lparr>pn_subtreeBytes := pn_subtreeBytes (h a) + b\<rparr>) in addBytes_loop h (pn_parent (h a)) b)"
  by (subst addBytes_loop.simps, simp)+

lemma addBytes_loop_total:
  assumes "P 0 = None"
  shows "depth P a k \<Longrightarrow> parents_of h = P \<Longrightarrow>
    \<exists>h'. addBytes_loop h (Some a) b = Some h' \<and> same_links h h' \<and> (\<forall>x. pn_q (h' x) = pn_q (h x))"
proof (induction arbitrary: h rule: depth.induct)
  case depth_root
  then have "pn_parent (h 0) = None" using assms by (metis)
  then show ?case by (simp add: addBytes_loop_simps same_links_def)
next
  case (depth_step a p k)
  let ?h = "h(a := (h a)\<lparr>pn_subtreeBytes := pn_subtreeBytes (h a) + b\<rparr>)"
  have par: "pn_parent (h a) = Some p" using depth_step.hyps(1) depth_step.prems by metis
  have "parents_of ?h = P" using depth_step.prems by (auto simp: fun_eq_iff)
  then obtain h' where "addBytes_loop ?h (Some p) b = Some h'" "same_links ?h h'" "\<forall>x. pn_q (h' x) = pn_q (?h x)"
    using depth_step.IH by blast
  moreover have "same_links h ?h" "\<forall>x. pn_q (?h x) = pn_q (h x)" by (simp_all add: same_links_def)
  ultimately show ?case using par same_links_trans by (fastforce simp: addBytes_loop_simps)
qed

lemma addBytes_total:
  assumes "pn_parent (h 0) = None" "rooted (parents_of h) n"
  shows "\<exists>h'. addBytes h n b = Some h' \<and> same_links h h' \<and> (\<forall>x. pn_q (h' x) = pn_q (h x))"
proof -
  let ?h = "h(n := (h n)\<lparr>pn_bytes := pn_bytes (h n) + b\<rparr>)"
  obtain k where k: "depth (parents_of h) n k" using assms(2) by (auto simp: rooted_def)
  have "parents_of ?h = parents_of h" by auto
  then obtain h' where "addBytes_loop ?h (Some n) b = Some h'" "same_links ?h h'" "\<forall>x. pn_q (h' x) = pn_q (?h x)"
    using addBytes_loop_total [of "parents_of h", OF assms(1) k] by blast
  moreover have "same_links h ?h" "\<forall>x. pn_q (?h x) = pn_q (h x)" by (simp_all add: same_links_def)
  ultimately show ?thesis using same_links_trans by (fastforce simp: addBytes_def)
qed

section \<open>The order of the kids\<close>

lemma needSort_simps:
  "needSort h None w = Some False"
  "needSort h (Some a) w = (if pn_weight (h a) \<noteq> w then Some True else needSort h (pn_next (h a)) w)"
  by (subst needSort.simps, simp)+

lemma needSort_total: "seg h p prv ks None \<Longrightarrow> \<exists>b. needSort h (fst_or None ks) w = Some b"
  by (induction ks arbitrary: prv) (auto simp: needSort_simps)

lemma take_kids_simps:
  "pn_kids (h n) = None \<Longrightarrow> take_kids h n tmp = Some (Ret (h, tmp))"
  "pn_kids (h n) = Some k \<Longrightarrow> take_kids h n tmp =
     (case setParent h k None of Ret h \<Rightarrow> take_kids h n (tmp @ [k]) | Fail e \<Rightarrow> Some (Fail e) | Panic \<Rightarrow> Some Panic)"
  by (subst take_kids.simps, simp)+

lemma links_kids: "links h K \<Longrightarrow> pn_kids (h n) = fst_or None (K n)"
  by (simp add: links_def lists_ok_def)

lemma links_distinct: "links h K \<Longrightarrow> distinct (K n)"
  by (simp add: links_def lists_ok_def)

lemma take_kids_links:
  assumes "links h K" "K n = ks"
  shows "\<exists>h'. take_kids h n tmp = Some (Ret (h', tmp @ ks)) \<and> links h' (K(n := [])) \<and> same_data h h' \<and>
    (\<forall>x. pn_parent (h' x) = (if x \<in> set ks then None else pn_parent (h x)))"
  using assms
proof (induction ks arbitrary: h K tmp)
  case Nil
  then have "K(n := []) = K" by auto
  then show ?case using Nil links_kids [OF Nil(1), of n] by (simp add: take_kids_simps same_data_simps)
next
  case (Cons k ks)
  have par: "pn_parent (h k) = Some n" using links_mem [OF Cons.prems(1), of k n] Cons.prems(2) by simp
  obtain h1 where h1: "setParent h k None = Ret h1" "links h1 (move K k None)" "same_data h h1"
    "\<forall>x. pn_parent (h1 x) = (if x = k then None else pn_parent (h x))"
    using setParent_links [OF Cons.prems(1), of None k] par by auto
  have kd: "k \<notin> set ks" using links_distinct [OF Cons.prems(1), of n] Cons.prems(2) by simp
  have mv: "move K k None = K(n := ks)"
  proof
    show "move K k None r = (K(n := ks)) r" for r
      using links_mem [OF Cons.prems(1), of k r] par Cons.prems(2) kd by (cases "r = n") (simp_all add: move_def)
  qed
  obtain h' where "take_kids h1 n (tmp @ [k]) = Some (Ret (h', (tmp @ [k]) @ ks))" "links h' (K(n := []))" "same_data h1 h'"
    "\<forall>x. pn_parent (h' x) = (if x \<in> set ks then None else pn_parent (h1 x))"
    using Cons.IH [OF h1(2) [unfolded mv] fun_upd_same, of "tmp @ [k]"] unfolding fun_upd_upd by blast
  then show ?case using links_kids [OF Cons.prems(1), of n] Cons.prems(2) h1 same_data_simps(2) [OF h1(3)]
    by (auto simp: take_kids_simps fun_upd_def)
qed

lemma insert_kids_links:
  assumes "links h K" "\<forall>k \<in> set xs. pn_parent (h k) = None" "distinct xs" "n \<notin> set xs"
  shows "\<exists>h'. insert_kids h n xs = Ret h' \<and> links h' (K(n := rev xs @ K n)) \<and> same_data h h' \<and>
    (\<forall>x. pn_parent (h' x) = (if x \<in> set xs then Some n else pn_parent (h x)))"
  using assms
proof (induction xs arbitrary: h K)
  case Nil
  then show ?case by (simp add: same_data_simps)
next
  case (Cons k xs)
  obtain h1 where h1: "setParent h k (Some n) = Ret h1" "links h1 (move K k (Some n))" "same_data h h1"
    "\<forall>x. pn_parent (h1 x) = (if x = k then Some n else pn_parent (h x))"
    using setParent_links [OF Cons.prems(1), of "Some n" k] Cons.prems(2,4) by auto
  have mv: "move K k (Some n) = K(n := k # K n)"
  proof
    show "move K k (Some n) r = (K(n := k # K n)) r" for r
      using links_mem [OF Cons.prems(1), of k r] Cons.prems(2) by (simp add: move_def)
  qed
  have "\<forall>x \<in> set xs. pn_parent (h1 x) = None" using h1(4) Cons.prems(2,3) by auto
  moreover have "distinct xs" "n \<notin> set xs" using Cons.prems(3,4) by simp_all
  ultimately obtain h' where "insert_kids h1 n xs = Ret h'" "links h' (K(n := rev xs @ k # K n))" "same_data h1 h'"
    "\<forall>x. pn_parent (h' x) = (if x \<in> set xs then Some n else pn_parent (h1 x))"
    using Cons.IH [OF h1(2) [unfolded mv]] unfolding fun_upd_upd fun_upd_same by blast
  then show ?case using h1 same_data_simps(2) [OF h1(3)] by (auto simp: fun_upd_def)
qed

lemma order_kids_links:
  assumes "links h K" "K n = first # ks" "\<And>less xs. mset (srt less xs) = mset xs" "pn_parent (h n) \<noteq> Some n"
  shows "\<exists>h' K'. order_kids srt h n first = Some (Ret h') \<and> links h' K' \<and> same_data h h' \<and> parents_of h' = parents_of h \<and>
    (\<forall>x. x \<noteq> n \<longrightarrow> K' x = K x)"
proof -
  have "seg h n None (first # ks) None" using assms(1,2) unfolding links_def lists_ok_def by metis
  then have sg: "pn_next (h first) = fst_or None ks" "seg h n (Some first) ks None" by simp_all
  obtain b where b: "needSort h (pn_next (h first)) (pn_weight (h first)) = Some b" using needSort_total sg by metis
  show ?thesis
  proof (cases b)
    case False
    then show ?thesis using b assms(1) same_data_simps(1) [of h] by (auto simp: order_kids_def)
  next
    case True
    obtain h1 where h1: "take_kids h n [] = Some (Ret (h1, first # ks))" "links h1 (K(n := []))" "same_data h h1"
      "\<forall>x. pn_parent (h1 x) = (if x \<in> set (first # ks) then None else pn_parent (h x))"
      using take_kids_links [OF assms(1,2), of "[]"] by auto
    define xs where "xs = srt (\<lambda>a b. siblings_Less (h1 a) (h1 b)) (first # ks)"
    have xs: "set xs = set (first # ks)" "distinct xs"
      using assms(3) [of _ "first # ks"] links_distinct [OF assms(1), of n] assms(2)
      by (metis xs_def set_mset_mset, metis xs_def mset_eq_imp_distinct_iff)
    have "n \<notin> set xs" using xs(1) links_mem [OF assms(1), of n n] assms(2,4) by simp
    then obtain h2 where h2: "insert_kids h1 n (rev xs) = Ret h2" "links h2 ((K(n := []))(n := rev (rev xs) @ []))" "same_data h1 h2"
      "\<forall>x. pn_parent (h2 x) = (if x \<in> set xs then Some n else pn_parent (h1 x))"
      using insert_kids_links [OF h1(2), of "rev xs" n] h1(4) xs by auto
    have "pn_parent (h2 x) = pn_parent (h x)" for x
      using h2(4) h1(4) xs(1) links_mem [OF assms(1), of x n] assms(2) by auto
    moreover have "order_kids srt h n first = Some (Ret h2)"
      using b True h1(1) h2(1) by (simp add: order_kids_def sort_kids_def xs_def)
    ultimately show ?thesis using h2(2) same_data_simps(2) [OF h1(3) h2(3)]
      by (intro exI [of _ h2] exI [of _ "K(n := xs)"]) (auto simp: fun_eq_iff)
  qed
qed

section \<open>Depths are bounded\<close>

lemma depth_path:
  assumes "P 0 = None"
  shows "depth P x k \<Longrightarrow> \<exists>xs. distinct xs \<and> length xs = Suc k \<and> (\<forall>y \<in> set xs. \<exists>j \<le> k. depth P y j)"
proof (induction rule: depth.induct)
  case depth_root
  show ?case by (intro exI [of _ "[0]"]) (auto intro: depth.depth_root)
next
  case (depth_step x p k)
  then obtain xs where xs: "distinct xs" "length xs = Suc k" "\<forall>y \<in> set xs. \<exists>j \<le> k. depth P y j" by blast
  have dx: "depth P x (Suc k)" using depth_step.hyps by (rule depth.depth_step)
  have "x \<notin> set xs" using xs(3) depth_unique [of P, OF assms dx] by fastforce
  then show ?case using xs dx by (intro exI [of _ "x # xs"]) (auto intro: le_SucI)
qed

lemma depth_bound:
  assumes "tree_ok ws" "depth (parents_of (pw_heap ws)) x k"
  shows "k < pw_next_addr ws"
proof -
  note P0 = tree_ok_root(1) [OF assms(1)]
  obtain xs where xs: "distinct xs" "length xs = Suc k" "\<forall>y \<in> set xs. \<exists>j \<le> k. depth (parents_of (pw_heap ws)) y j"
    using depth_path [of "parents_of (pw_heap ws)", OF P0 assms(2)] by blast
  have "y < pw_next_addr ws" if "depth (parents_of (pw_heap ws)) y j" for y j
  proof (cases "y = 0")
    case True
    then show ?thesis using tree_ok_root(3) [OF assms(1)] by simp
  next
    case False
    with \<open>depth (parents_of (pw_heap ws)) y j\<close> obtain p where "pn_parent (pw_heap ws y) = Some p"
      using depth_not_root by blast
    then show ?thesis using tree_ok_fresh(1) [OF assms(1), of y] by (cases "pw_next_addr ws \<le> y") auto
  qed
  then have "set xs \<subseteq> {..<pw_next_addr ws}" using xs(3) by blast
  then have "card (set xs) \<le> pw_next_addr ws" using card_mono [of "{..<pw_next_addr ws}" "set xs"] by simp
  then show ?thesis using xs(1,2) by (simp add: distinct_card)
qed

section \<open>Visiting a node\<close>

lemma queue_consume_requests:
  assumes "\<forall>wr \<in> set q. request_ok wr"
  shows "\<exists>cs' q' r. queue_consume cs q k = Ret (cs', q', r) \<and> (\<forall>wr \<in> set q'. request_ok wr) \<and>
    (case r of
       None \<Rightarrow> q' = q \<and> cs' = cs \<and> (q = [] \<or> blocked cs (hd q) k)
     | Some wr \<Rightarrow> q \<noteq> [] \<and> atoms wr @ queue_atoms q' = queue_atoms q \<and> wr_StreamID wr = wr_StreamID (hd q))"
proof (cases q)
  case Nil
  then show ?thesis by (simp add: queue_consume_def)
next
  case (Cons w q1)
  obtain cs' r where c: "Consume cs w k = Ret (cs', r)"
    "case r of
       Consumed0 \<Rightarrow> blocked cs w k \<and> cs' = cs
     | Consumed1 w' \<Rightarrow> w' = w \<and> \<not> blocked cs w k
     | Consumed2 w' rest \<Rightarrow> \<not> blocked cs w k \<and> atoms w' @ atoms rest = atoms w \<and> wr_StreamID w' = wr_StreamID w \<and>
         wr_StreamID rest = wr_StreamID w \<and> request_ok rest \<and> data_of w' \<noteq> []"
    using Consume_cases [of w cs k] assms Cons by auto
  then show ?thesis using assms Cons
    by (cases r) (auto simp: queue_consume_def simp flip: append_assoc)
qed

text \<open>No frame of the queue can be written now.\<close>

definition stalled :: "conn_state \<Rightarrow> writeQueue \<Rightarrow> bool" where
  "stalled cs q \<longleftrightarrow> q = [] \<or> blocked cs (hd q) 0x7fffffff"

lemma blocked_limit: "blocked cs wr k \<Longrightarrow> 0 < sint k \<Longrightarrow> blocked cs wr 0x7fffffff"
  unfolding blocked_def allowance_def min_le_iff_disj by fastforce

definition pop_inv :: "priorityWriteScheduler \<Rightarrow> bool" where
  "pop_inv ws \<longleftrightarrow> tree_ok ws \<and> (\<forall>x. \<forall>wr \<in> set (pn_q (pw_heap ws x)). request_ok wr) \<and> 0 < sint (writeThrottleLimit ws)"

text \<open>What a walk does not change.\<close>

definition pop_frame :: "priorityWriteScheduler \<Rightarrow> priorityWriteScheduler \<Rightarrow> bool" where
  "pop_frame ws ws' \<longleftrightarrow> parents_of (pw_heap ws') = parents_of (pw_heap ws) \<and>
     (\<forall>x. pn_id (pw_heap ws' x) = pn_id (pw_heap ws x) \<and> pn_weight (pw_heap ws' x) = pn_weight (pw_heap ws x) \<and>
        pn_state (pw_heap ws' x) = pn_state (pw_heap ws x)) \<and>
     pw_nodes ws' = pw_nodes ws \<and> pw_next_addr ws' = pw_next_addr ws \<and> pw_queuePool ws' = pw_queuePool ws"

lemma pop_frame_refl: "pop_frame ws ws"
  by (simp add: pop_frame_def)

lemma pop_frame_trans: "pop_frame ws1 ws2 \<Longrightarrow> pop_frame ws2 ws3 \<Longrightarrow> pop_frame ws1 ws3"
  by (simp add: pop_frame_def)

lemma tree_ok_frame:
  assumes "tree_ok ws" "pop_frame ws ws'" "links (pw_heap ws') K"
  shows "tree_ok ws'"
proof (rule tree_okI [OF assms(3)])
  have par: "pn_parent (pw_heap ws' x) = pn_parent (pw_heap ws x)" for x
    using assms(2) unfolding pop_frame_def by meson
  have f: "pw_nodes ws' = pw_nodes ws" "pw_next_addr ws' = pw_next_addr ws" "pw_queuePool ws' = pw_queuePool ws"
    "parents_of (pw_heap ws') = parents_of (pw_heap ws)" "\<And>x. pn_id (pw_heap ws' x) = pn_id (pw_heap ws x)"
    using assms(2) by (simp_all add: pop_frame_def)
  show "pn_parent (pw_heap ws' 0) = None" "pw_nodes ws' 0 = Some 0" using tree_ok_root [OF assms(1)] by (simp_all add: f(1) par)
  show "rooted (parents_of (pw_heap ws')) n \<and> pn_id (pw_heap ws' n) = sid \<and> n < pw_next_addr ws'"
    if "pw_nodes ws' sid = Some n" for sid n
    using tree_ok_node [OF assms(1), of sid n] that unfolding f by blast
  show "pn_parent (pw_heap ws' a) = None \<and> pn_parent (pw_heap ws' x) \<noteq> Some a" if "pw_next_addr ws' \<le> a" for a x
    using tree_ok_fresh(1) [OF assms(1), of a] tree_ok_fresh(2) [OF assms(1), of a x] that by (simp add: f(2) par)
  show "q = []" if "q \<in> set (pw_queuePool ws')" for q using assms(1) that unfolding tree_ok_def f by blast
qed

text \<open>The frame \<open>wr\<close> was taken from the front of the queue of node \<open>x\<close>.\<close>

definition served :: "priorityWriteScheduler \<Rightarrow> priorityWriteScheduler \<Rightarrow> node_addr \<Rightarrow> FrameWriteRequest \<Rightarrow> bool" where
  "served ws ws' x wr \<longleftrightarrow> pn_q (pw_heap ws x) \<noteq> [] \<and> wr_StreamID wr = wr_StreamID (hd (pn_q (pw_heap ws x))) \<and>
     atoms wr @ queue_atoms (pn_q (pw_heap ws' x)) = queue_atoms (pn_q (pw_heap ws x)) \<and>
     (\<forall>y. y \<noteq> x \<longrightarrow> pn_q (pw_heap ws' y) = pn_q (pw_heap ws y))"

lemma throttle_positive: "0 < sint (if sint (t + 1024) < 0 then 0x7fffffff else t + 1024 :: 32 word)" if "0 < sint t"
proof (cases "sint t + 1024 < 2 ^ 31")
  case True
  then have "sint (t + 1024) = sint t + 1024" using sint_add_exact [of t 1024] that by simp
  then show ?thesis using that by simp
next
  case False
  have "t + 1024 = word_of_int (sint t + 1024)" by simp
  also have "\<dots> = word_of_int (sint t + 1024 - 2 ^ 32)" by simp
  finally have e: "t + 1024 = word_of_int (sint t + 1024 - 2 ^ 32)" .
  have "sint (t + 1024) = sint t + 1024 - 2 ^ 32"
    unfolding e by (rule sint_word_of_int) (use False sint_u32_bounds(2) [of t] in simp_all)
  then show ?thesis using sint_u32_bounds(2) [of t] by simp
qed

lemma visit_total:
  assumes inv: "pop_inv ws" and n: "rooted (parents_of (pw_heap ws)) n" and l: "links (pw_heap ws) K"
  shows "\<exists>cs' ws' r. visit (cs, ws) n op = Some (Ret ((cs', ws'), r)) \<and> pop_inv ws' \<and> pop_frame ws ws' \<and> links (pw_heap ws') K \<and>
    (case r of
       None \<Rightarrow> cs' = cs \<and> ws' = ws \<and> stalled cs (pn_q (pw_heap ws n))
     | Some wr \<Rightarrow> served ws ws' n wr)"
proof -
  let ?k = "if op then writeThrottleLimit ws else 0x7fffffff"
  have ok: "tree_ok ws" "\<forall>wr \<in> set (pn_q (pw_heap ws n)). request_ok wr" "0 < sint (writeThrottleLimit ws)"
    using inv by (simp_all add: pop_inv_def)
  obtain cs' q' r where c: "queue_consume cs (pn_q (pw_heap ws n)) ?k = Ret (cs', q', r)" "\<forall>wr \<in> set q'. request_ok wr"
    "case r of
       None \<Rightarrow> q' = pn_q (pw_heap ws n) \<and> cs' = cs \<and> (pn_q (pw_heap ws n) = [] \<or> blocked cs (hd (pn_q (pw_heap ws n))) ?k)
     | Some wr \<Rightarrow> pn_q (pw_heap ws n) \<noteq> [] \<and> atoms wr @ queue_atoms q' = queue_atoms (pn_q (pw_heap ws n)) \<and>
         wr_StreamID wr = wr_StreamID (hd (pn_q (pw_heap ws n)))"
    using queue_consume_requests [OF ok(2), of cs ?k] by blast
  let ?h = "(pw_heap ws)(n := (pw_heap ws n)\<lparr>pn_q := q'\<rparr>)"
  show ?thesis
  proof (cases r)
    case None
    then have "?h = pw_heap ws" using c(3) by simp
    moreover have "stalled cs (pn_q (pw_heap ws n))"
      using c(3) None blocked_limit [of cs _ ?k] ok(3) by (auto simp: stalled_def)
    ultimately show ?thesis using c(1,3) None inv pop_frame_refl l by (simp add: visit_def)
  next
    case (Some wr)
    have sl: "same_links (pw_heap ws) ?h" by (simp add: same_links_def)
    have pe: "parents_of ?h = parents_of (pw_heap ws)" by auto
    have "pn_parent (?h 0) = None" using tree_ok_root(1) [OF ok(1)] by simp
    then obtain h' where h': "addBytes ?h n (int (wr_DataSize wr)) = Some h'" "same_links ?h h'" "\<forall>x. pn_q (h' x) = pn_q (?h x)"
      using addBytes_total [of ?h n "int (wr_DataSize wr)"] n unfolding pe by blast
    have sl': "same_links (pw_heap ws) h'" using same_links_trans [OF sl h'(2)] .
    define t where "t = (if op then if sint (writeThrottleLimit ws + 1024) < 0 then 0x7fffffff else writeThrottleLimit ws + 1024
      else if enableWriteThrottle ws then 1024 else writeThrottleLimit ws)"
    define ws' where "ws' = ws\<lparr>pw_heap := h', writeThrottleLimit := t\<rparr>"
    have f: "pw_heap ws' = h'" "writeThrottleLimit ws' = t" by (simp_all add: ws'_def)
    have fr: "pop_frame ws ws'" using sl' by (auto simp: pop_frame_def ws'_def same_links_def)
    have l': "links (pw_heap ws') K" using same_links_links [OF sl'] l by (simp add: f)
    have v: "visit (cs, ws) n op = Some (Ret ((cs', ws'), r))"
      using c(1) Some h'(1) by (simp add: visit_def ws'_def t_def Let_def)
    have tp: "0 < sint t" using throttle_positive [OF ok(3)] ok(3) by (simp add: t_def)
    have "pop_inv ws'" using tree_ok_frame [OF ok(1) fr l'] inv c(2) h'(3) tp by (simp add: pop_inv_def f)
    moreover have "served ws ws' n wr" using c(3) Some h'(3) by (simp add: served_def f)
    ultimately show ?thesis using v fr l' Some by auto
  qed
qed

section \<open>The walk\<close>

lemma walk_simps:
  "walk srt s (Inr None) op = Some (Ret (s, None))"
  "walk srt s (Inr (Some k)) op =
     Option.bind (walk srt s (Inl k) op) (\<lambda>x. case x of
        Ret (s, Some wr) \<Rightarrow> Some (Ret (s, Some wr))
      | Ret (s, None) \<Rightarrow> walk srt s (Inr (pn_next (pw_heap (snd s) k))) op
      | Fail e \<Rightarrow> Some (Fail e)
      | Panic \<Rightarrow> Some Panic)"
  by (subst walk.simps, simp)+

text \<open>
  A walk over the part \<open>R\<close> of the tree returns; it serves a node there, or all of them are stalled.
  It reorders the kids only of nodes in that part.
\<close>

definition walk_done :: "(node_addr \<Rightarrow> bool) \<Rightarrow> conn_state \<Rightarrow> priorityWriteScheduler \<Rightarrow> (node_addr \<Rightarrow> node_addr list) \<Rightarrow>
    (unit, pop_state \<times> FrameWriteRequest option) go option \<Rightarrow> bool" where
  "walk_done R cs ws K res \<longleftrightarrow> (\<exists>cs' ws' r K'. res = Some (Ret ((cs', ws'), r)) \<and> pop_inv ws' \<and> pop_frame ws ws' \<and>
     links (pw_heap ws') K' \<and> (\<forall>x. \<not> R x \<longrightarrow> K' x = K x) \<and>
     (case r of
        None \<Rightarrow> cs' = cs \<and> (\<forall>x. pn_q (pw_heap ws' x) = pn_q (pw_heap ws x)) \<and> (\<forall>x. R x \<longrightarrow> stalled cs (pn_q (pw_heap ws x)))
      | Some wr \<Rightarrow> \<exists>x. R x \<and> served ws ws' x wr))"

lemma served_after:
  "\<forall>x. pn_q (pw_heap ws1 x) = pn_q (pw_heap ws x) \<Longrightarrow> served ws1 ws' x wr = served ws ws' x wr"
  by (simp add: served_def)

lemma walk_done_step:
  assumes "pop_frame ws ws1" "\<forall>x. pn_q (pw_heap ws1 x) = pn_q (pw_heap ws x)" "\<forall>x. \<not> R1 x \<longrightarrow> K1 x = K x"
    "\<forall>x. R1 x \<longrightarrow> stalled cs (pn_q (pw_heap ws x))" "walk_done R2 cs ws1 K1 res" "\<And>x. R x \<longleftrightarrow> R1 x \<or> R2 x"
  shows "walk_done R cs ws K res"
proof -
  obtain cs' ws' r K' where w: "res = Some (Ret ((cs', ws'), r))" "pop_inv ws'" "pop_frame ws1 ws'"
    "links (pw_heap ws') K'" "\<forall>x. \<not> R2 x \<longrightarrow> K' x = K1 x"
    "case r of
        None \<Rightarrow> cs' = cs \<and> (\<forall>x. pn_q (pw_heap ws' x) = pn_q (pw_heap ws1 x)) \<and> (\<forall>x. R2 x \<longrightarrow> stalled cs (pn_q (pw_heap ws1 x)))
      | Some wr \<Rightarrow> \<exists>x. R2 x \<and> served ws1 ws' x wr"
    using assms(5) unfolding walk_done_def by blast
  have "\<forall>x. \<not> R x \<longrightarrow> K' x = K x" using w(5) assms(3,6) by simp
  moreover have "case r of
        None \<Rightarrow> cs' = cs \<and> (\<forall>x. pn_q (pw_heap ws' x) = pn_q (pw_heap ws x)) \<and> (\<forall>x. R x \<longrightarrow> stalled cs (pn_q (pw_heap ws x)))
      | Some wr \<Rightarrow> \<exists>x. R x \<and> served ws ws' x wr"
    using w(6) assms(2,4,6) served_after [OF assms(2)] by (cases r) auto
  ultimately show ?thesis using w(1-4) pop_frame_trans [OF assms(1)] unfolding walk_done_def by blast
qed

lemma walk_done_weaken: "walk_done R1 cs ws K res \<Longrightarrow> (\<And>x. R1 x \<Longrightarrow> R x) \<Longrightarrow>
    (\<And>cs' ws'. res \<noteq> Some (Ret ((cs', ws'), None))) \<Longrightarrow> walk_done R cs ws K res"
  unfolding walk_done_def by (fastforce split: option.splits)

lemma kids_walk:
  assumes each: "\<And>k cs ws K. k \<in> set ks \<Longrightarrow> pop_inv ws \<Longrightarrow> parents_of (pw_heap ws) = P \<Longrightarrow> links (pw_heap ws) K \<Longrightarrow>
      pw_next_addr ws = a \<Longrightarrow> walk_done (\<lambda>x. ancestor P x k) cs ws K (walk srt (cs, ws) (Inl k) op)"
    and inv: "pw_next_addr ws = a" "pop_inv ws" "parents_of (pw_heap ws) = P" "links (pw_heap ws) K" "K p = pre @ ks"
    and apart: "\<And>k. k \<in> set ks \<Longrightarrow> \<not> ancestor P p k"
  shows "walk_done (\<lambda>x. \<exists>k \<in> set ks. ancestor P x k) cs ws K (walk srt (cs, ws) (Inr (fst_or None ks)) op)"
  using assms
proof (induction ks arbitrary: cs ws K pre)
  case Nil
  then show ?case using pop_frame_refl by (auto simp: walk_done_def walk_simps)
next
  case (Cons k ks)
  have wk: "walk_done (\<lambda>x. ancestor P x k) cs ws K (walk srt (cs, ws) (Inl k) op)"
    using Cons.prems(1) [of k ws K cs] Cons.prems(2-5) by simp
  then obtain cs1 ws1 r K1 where w: "walk srt (cs, ws) (Inl k) op = Some (Ret ((cs1, ws1), r))" "pop_inv ws1" "pop_frame ws ws1"
    "links (pw_heap ws1) K1" "\<forall>x. \<not> ancestor P x k \<longrightarrow> K1 x = K x"
    "case r of
        None \<Rightarrow> cs1 = cs \<and> (\<forall>x. pn_q (pw_heap ws1 x) = pn_q (pw_heap ws x)) \<and>
          (\<forall>x. ancestor P x k \<longrightarrow> stalled cs (pn_q (pw_heap ws x)))
      | Some wr \<Rightarrow> \<exists>x. ancestor P x k \<and> served ws ws1 x wr"
    unfolding walk_done_def by blast
  show ?case
  proof (cases r)
    case (Some wr)
    have "walk srt (cs, ws) (Inr (fst_or None (k # ks))) op = walk srt (cs, ws) (Inl k) op"
      using w(1) Some by (simp add: walk_simps)
    then show ?thesis using walk_done_weaken [OF wk] w(1) Some by simp
  next
    case None
    have idle: "cs1 = cs" "\<forall>x. pn_q (pw_heap ws1 x) = pn_q (pw_heap ws x)"
      "\<forall>x. ancestor P x k \<longrightarrow> stalled cs (pn_q (pw_heap ws x))" using w(6) None by simp_all
    have Kp: "K1 p = (pre @ [k]) @ ks" using w(5) Cons.prems(6) Cons.prems(7) [of k] by simp
    have "seg (pw_heap ws1) p None (K1 p) None" using w(4) by (simp add: links_def lists_ok_def)
    then have nxt: "pn_next (pw_heap ws1 k) = fst_or None ks" using Kp by (simp add: seg_append)
    have P1: "parents_of (pw_heap ws1) = P" using w(3) Cons.prems(4) by (simp add: pop_frame_def)
    have a1: "pw_next_addr ws1 = a" using w(3) Cons.prems(2) by (simp add: pop_frame_def)
    have "walk_done (\<lambda>x. \<exists>k \<in> set ks. ancestor P x k) cs ws1 K1 (walk srt (cs, ws1) (Inr (fst_or None ks)) op)"
      by (rule Cons.IH [OF _ a1 w(2) P1 w(4) Kp]) (use Cons.prems(1,7) in auto)
    moreover have "walk srt (cs, ws) (Inr (fst_or None (k # ks))) op = walk srt (cs, ws1) (Inr (fst_or None ks)) op"
      using w(1) idle(1) None nxt by (simp add: walk_simps)
    ultimately show ?thesis using walk_done_step [OF w(3) idle(2) w(5) idle(3)] by simp
  qed
qed

lemma walk_node:
  "walk srt s (Inl n) op =
     (case (if pn_q (pw_heap (snd s) n) \<noteq> [] then visit s n op else Some (Ret (s, None))) of
        None \<Rightarrow> None
      | Some (Ret (s, Some wr)) \<Rightarrow> Some (Ret (s, Some wr))
      | Some (Ret (s, None)) \<Rightarrow>
          (let h = pw_heap (snd s)
           in case pn_kids (h n) of
                None \<Rightarrow> Some (Ret (s, None))
              | Some first \<Rightarrow>
                  (let op = (if pn_id (h n) \<noteq> 0 then op \<or> pn_state (h n) = priorityNodeOpen else op)
                   in case order_kids srt h n first of
                        None \<Rightarrow> None
                      | Some (Ret h) \<Rightarrow> walk srt (fst s, (snd s)\<lparr>pw_heap := h\<rparr>) (Inr (pn_kids (h n))) op
                      | Some (Fail e) \<Rightarrow> Some (Fail e)
                      | Some Panic \<Rightarrow> Some Panic))
      | Some (Fail e) \<Rightarrow> Some (Fail e)
      | Some Panic \<Rightarrow> Some Panic)"
  by (subst walk.simps) simp

lemma ancestor_last: "ancestor P x n \<longleftrightarrow> x = n \<or> (\<exists>k. P k = Some n \<and> ancestor P x k)"
proof
  assume "ancestor P x n"
  then show "x = n \<or> (\<exists>k. P k = Some n \<and> ancestor P x k)" by (cases rule: rtranclp.cases) auto
next
  assume "x = n \<or> (\<exists>k. P k = Some n \<and> ancestor P x k)"
  then show "ancestor P x n" using rtranclp.rtrancl_into_rtrancl [of "\<lambda>x y. P x = Some y"] by blast
qed

lemma node_first:
  assumes "pop_inv ws" "rooted (parents_of (pw_heap ws)) n" "links (pw_heap ws) K"
  shows "\<exists>cs' ws' r. (if pn_q (pw_heap ws n) \<noteq> [] then visit (cs, ws) n op else Some (Ret ((cs, ws), None))) =
      Some (Ret ((cs', ws'), r)) \<and> pop_inv ws' \<and> pop_frame ws ws' \<and> links (pw_heap ws') K \<and>
    (case r of
       None \<Rightarrow> cs' = cs \<and> ws' = ws \<and> stalled cs (pn_q (pw_heap ws n))
     | Some wr \<Rightarrow> served ws ws' n wr)"
proof (cases "pn_q (pw_heap ws n) = []")
  case True
  then show ?thesis using assms pop_frame_refl by (simp add: stalled_def)
next
  case False
  then show ?thesis using visit_total [OF assms, of cs op] by simp
qed

lemma node_walk:
  assumes srt: "\<And>less xs. mset (srt less xs) = mset xs"
    and "pop_inv ws" "parents_of (pw_heap ws) = P" "links (pw_heap ws) K" "depth P n d"
  shows "walk_done (\<lambda>x. ancestor P x n) cs ws K (walk srt (cs, ws) (Inl n) op)"
  using assms(2-)
proof (induction "pw_next_addr ws - d" arbitrary: cs ws K n d op rule: less_induct)
  case less
  note inv = less.prems(1) and par = less.prems(2) and l = less.prems(3) and dn = less.prems(4)
  have ok: "tree_ok ws" using inv by (simp add: pop_inv_def)
  have P0: "P 0 = None" using tree_ok_root(1) [OF ok] fun_cong [OF par, of 0] by simp
  have rn: "rooted (parents_of (pw_heap ws)) n" using dn unfolding par rooted_def by blast
  have bound: "d < pw_next_addr ws" using depth_bound [OF ok] dn unfolding par by blast
  obtain cs1 ws1 r where v: "(if pn_q (pw_heap ws n) \<noteq> [] then visit (cs, ws) n op else Some (Ret ((cs, ws), None))) =
      Some (Ret ((cs1, ws1), r))" "pop_inv ws1" "pop_frame ws ws1" "links (pw_heap ws1) K"
    "case r of None \<Rightarrow> cs1 = cs \<and> ws1 = ws \<and> stalled cs (pn_q (pw_heap ws n)) | Some wr \<Rightarrow> served ws ws1 n wr"
    using node_first [OF inv rn l, of cs op] by blast
  show ?case
  proof (cases r)
    case (Some wr)
    then have "walk srt (cs, ws) (Inl n) op = Some (Ret ((cs1, ws1), Some wr))" using v(1) by (simp add: walk_node)
    moreover have "served ws ws1 n wr" using v(5) Some by simp
    ultimately show ?thesis using v(2-4) unfolding walk_done_def by auto
  next
    case None
    then have st: "stalled cs (pn_q (pw_heap ws n))" and same: "cs1 = cs" "ws1 = ws" using v(5) by simp_all
    have kids: "k \<in> set (K n) \<longleftrightarrow> P k = Some n" for k using links_mem [OF l, of k n] fun_cong [OF par, of k] by simp
    show ?thesis
    proof (cases "K n")
      case Nil
      then have "ancestor P x n \<longleftrightarrow> x = n" for x using kids ancestor_last [of P x n] by auto
      moreover have "walk srt (cs, ws) (Inl n) op = Some (Ret ((cs, ws), None))"
        using v(1) None same links_kids [OF l, of n] Nil by (simp add: walk_node)
      ultimately show ?thesis using inv l st pop_frame_refl unfolding walk_done_def by auto
    next
      case (Cons first ks)
      have "P n \<noteq> Some n"
      proof
        assume "P n = Some n"
        then obtain j where "d = Suc j" "depth P n j" using depth_parent [of P, OF P0 dn] by blast
        then show False using depth_unique [of P, OF P0 dn] by fastforce
      qed
      then have "pn_parent (pw_heap ws n) \<noteq> Some n" using fun_cong [OF par, of n] by simp
      then obtain h' K' where o: "order_kids srt (pw_heap ws) n first = Some (Ret h')" "links h' K'" "same_data (pw_heap ws) h'"
        "parents_of h' = parents_of (pw_heap ws)" "\<forall>x. x \<noteq> n \<longrightarrow> K' x = K x"
        using order_kids_links [of _ _ _ _ _ srt, OF l Cons srt] by blast
      define ws2 where "ws2 = ws\<lparr>pw_heap := h'\<rparr>"
      have f: "pw_heap ws2 = h'" "pw_next_addr ws2 = pw_next_addr ws" "writeThrottleLimit ws2 = writeThrottleLimit ws"
        by (simp_all add: ws2_def)
      have q: "\<forall>x. pn_q (pw_heap ws2 x) = pn_q (pw_heap ws x)" using o(3) by (simp add: f same_data_def)
      have fr: "pop_frame ws ws2" using o(3,4) by (simp add: pop_frame_def ws2_def same_data_def)
      have l2: "links (pw_heap ws2) K'" using o(2) by (simp add: f)
      have inv2: "pop_inv ws2" using tree_ok_frame [OF ok fr l2] inv q by (simp add: pop_inv_def f)
      have par2: "parents_of (pw_heap ws2) = P" using o(4) par by (simp add: f)
      have kids2: "k \<in> set (K' n) \<longleftrightarrow> P k = Some n" for k using links_mem [OF l2, of k n] fun_cong [OF par2, of k] by simp
      define op' where "op' = (if pn_id (pw_heap ws n) \<noteq> 0 then op \<or> pn_state (pw_heap ws n) = priorityNodeOpen else op)"
      have "walk_done (\<lambda>x. \<exists>k \<in> set (K' n). ancestor P x k) cs ws2 K' (walk srt (cs, ws2) (Inr (fst_or None (K' n))) op')"
      proof (rule kids_walk [OF _ f(2) inv2 par2 l2, where p = n and pre = "[]"])
        fix k cs3 ws3 K3
        assume k: "k \<in> set (K' n)" and i3: "pop_inv ws3" "parents_of (pw_heap ws3) = P" "links (pw_heap ws3) K3"
          "pw_next_addr ws3 = pw_next_addr ws"
        have dk: "depth P k (Suc d)" using depth_step [of P, OF _ dn] kids2 k by blast
        show "walk_done (\<lambda>x. ancestor P x k) cs3 ws3 K3 (walk srt (cs3, ws3) (Inl k) op')"
          by (rule less.hyps [OF _ i3(1-3) dk]) (use i3(4) bound in simp)
      next
        show "K' n = [] @ K' n" by simp
        fix k assume "k \<in> set (K' n)"
        then have dk: "depth P k (Suc d)" using depth_step [of P, OF _ dn] kids2 by blast
        show "\<not> ancestor P n k"
        proof
          assume "ancestor P n k"
          then obtain j where "j \<le> d" "depth P k j" using ancestor_depth [of P, OF P0 _ dn] by blast
          then show False using depth_unique [of P, OF P0 dk] by fastforce
        qed
      qed
      moreover have "walk srt (cs, ws) (Inl n) op = walk srt (cs, ws2) (Inr (fst_or None (K' n))) op'"
        using v(1) None same links_kids [OF l, of n] links_kids [OF l2, of n] Cons o(1)
        by (simp add: walk_node [of srt "(cs, ws)"] ws2_def op'_def Let_def)
      moreover have "ancestor P x n \<longleftrightarrow> x = n \<or> (\<exists>k \<in> set (K' n). ancestor P x k)" for x
        using ancestor_last [of P x n] kids2 by auto
      ultimately show ?thesis
        using walk_done_step [OF fr q, of "\<lambda>x. x = n" K' K cs "\<lambda>x. \<exists>k \<in> set (K' n). ancestor P x k"] o(5) st by simp
    qed
  qed
qed

section \<open>Pop\<close>

lemma tree_root_depth: "depth P 0 0"
  by (rule depth.intros)

lemma ancestor_of_root: "ancestor P x 0 \<longleftrightarrow> rooted P x"
proof
  show "ancestor P x 0 \<Longrightarrow> rooted P x"
    by (induction rule: converse_rtranclp_induct) (auto simp: rooted_def intro: depth.intros)
next
  assume "rooted P x"
  then obtain k where "depth P x k" unfolding rooted_def by blast
  then show "ancestor P x 0" by induction (auto intro: converse_rtranclp_into_rtranclp)
qed

lemma root_first:
  assumes "pop_inv ws" "\<not> stalled cs (pn_q (pw_heap ws 0))"
  shows "\<exists>cs' ws' wr. priority_Pop srt (cs, ws) = Some (Ret ((cs', ws'), Some wr)) \<and> served ws ws' 0 wr"
proof -
  have ok: "tree_ok ws" using assms(1) by (simp add: pop_inv_def)
  have "rooted (parents_of (pw_heap ws)) 0" using tree_root_depth rooted_def by blast
  moreover obtain K where "links (pw_heap ws) K" using ok unfolding tree_ok_def by blast
  ultimately obtain cs1 ws1 r where v: "(if pn_q (pw_heap ws 0) \<noteq> [] then visit (cs, ws) 0 False else Some (Ret ((cs, ws), None))) =
      Some (Ret ((cs1, ws1), r))"
    "case r of None \<Rightarrow> cs1 = cs \<and> ws1 = ws \<and> stalled cs (pn_q (pw_heap ws 0)) | Some wr \<Rightarrow> served ws ws1 0 wr"
    using node_first [OF assms(1), of 0 K cs False] by blast
  obtain wr where "r = Some wr" using v(2) assms(2) by (cases r) auto
  then show ?thesis using v by (simp add: priority_Pop_def walk_node)
qed

text \<open>C7: \<open>Pop\<close> of the priority scheduler always returns: the recursive walk over the linked tree, which
  relinks the children of every node whose weights differ while it goes down, ends on every tree and never
  panics, whatever permutation the sort computes from the (inconsistent, floating-point) comparison. The
  tree keeps its shape, and the scheduler can go on. If \<open>Pop\<close> returns nothing, no queue has changed and
  every stream has an empty queue or a DATA frame at its head that flow control blocks. Otherwise it
  returns the next piece of the queue of one node and leaves every other queue alone; a queue of control
  frames at the root goes first.\<close>

theorem priority_Pop_total:
  assumes "pop_inv ws" "\<And>less xs. mset (srt less xs) = mset xs"
  shows "\<exists>cs' ws' r. priority_Pop srt (cs, ws) = Some (Ret ((cs', ws'), r)) \<and> pop_inv ws' \<and> pop_frame ws ws' \<and>
    (case r of
       None \<Rightarrow> cs' = cs \<and> (\<forall>x. pn_q (pw_heap ws' x) = pn_q (pw_heap ws x)) \<and>
         (\<forall>sid n. pw_nodes ws sid = Some n \<longrightarrow> stalled cs (pn_q (pw_heap ws n)))
     | Some wr \<Rightarrow> \<exists>n. rooted (parents_of (pw_heap ws)) n \<and> served ws ws' n wr \<and>
         (\<not> stalled cs (pn_q (pw_heap ws 0)) \<longrightarrow> n = 0))"
proof -
  let ?P = "parents_of (pw_heap ws)"
  have ok: "tree_ok ws" using assms(1) by (simp add: pop_inv_def)
  obtain K where l: "links (pw_heap ws) K" using ok unfolding tree_ok_def by blast
  have "walk_done (\<lambda>x. ancestor ?P x 0) cs ws K (priority_Pop srt (cs, ws))"
    unfolding priority_Pop_def by (rule node_walk [OF assms(2,1) refl l tree_root_depth])
  then obtain cs' ws' r where w: "priority_Pop srt (cs, ws) = Some (Ret ((cs', ws'), r))" "pop_inv ws'" "pop_frame ws ws'"
    "case r of
        None \<Rightarrow> cs' = cs \<and> (\<forall>x. pn_q (pw_heap ws' x) = pn_q (pw_heap ws x)) \<and>
          (\<forall>x. ancestor ?P x 0 \<longrightarrow> stalled cs (pn_q (pw_heap ws x)))
      | Some wr \<Rightarrow> \<exists>x. ancestor ?P x 0 \<and> served ws ws' x wr"
    unfolding walk_done_def by blast
  show ?thesis
  proof (cases r)
    case None
    then show ?thesis using w ancestor_of_root [of ?P] tree_ok_node(1) [OF ok] by auto
  next
    case (Some wr)
    show ?thesis
    proof (cases "stalled cs (pn_q (pw_heap ws 0))")
      case True
      then show ?thesis using w Some ancestor_of_root [of ?P] by auto
    next
      case False
      then have "served ws ws' 0 wr" using root_first [OF assms(1) False, of srt] w(1) Some by auto
      moreover have "rooted ?P 0" using tree_root_depth rooted_def by blast
      ultimately show ?thesis using w Some by auto
    qed
  qed
qed

text \<open>Stream 3 of two open streams has data to send.\<close>

definition busy_streams :: priorityWriteScheduler where
  "busy_streams = push_at two_streams 2 (data_request 3 [1, 2, 3])"

lemma busy_streams_queues: "pn_q (pw_heap busy_streams x) = (if x = 2 then [data_request 3 [1, 2, 3]] else [])"
  by (simp add: busy_streams_def push_at_def queue_push_def two_streams_def sched_exec)

lemma busy_streams_inv: "pop_inv busy_streams"
proof -
  obtain K where l: "links (pw_heap two_streams) K" using two_streams_tree unfolding tree_ok_def by blast
  have fr: "pop_frame two_streams busy_streams" by (auto simp: pop_frame_def busy_streams_def push_at_def)
  have "same_links (pw_heap two_streams) (pw_heap busy_streams)" by (simp add: same_links_def busy_streams_def push_at_def)
  then have "links (pw_heap busy_streams) K" using same_links_links l by blast
  then have "tree_ok busy_streams" using tree_ok_frame [OF two_streams_tree fr] by blast
  moreover have "writeThrottleLimit busy_streams = 0x7fffffff"
    by (simp add: busy_streams_def push_at_def two_streams_def sched_exec)
  ultimately show ?thesis by (simp add: pop_inv_def busy_streams_queues request_ok_def data_request_def)
qed

theorem priority_Pop_total_witness:
  "\<exists>cs' ws' wr. priority_Pop (\<lambda>less xs. xs) (example_conn, busy_streams) = Some (Ret ((cs', ws'), Some wr)) \<and>
     pop_inv ws' \<and> served busy_streams ws' 2 wr"
proof -
  have n: "pw_nodes busy_streams 3 = Some 2" by (simp add: busy_streams_def push_at_def two_streams_eval)
  have st: "\<not> stalled example_conn (pn_q (pw_heap busy_streams 2))"
    by (simp add: busy_streams_queues stalled_def blocked_def allowance_def data_request_def example_conn_def available_def)
  obtain cs' ws' r where w: "priority_Pop (\<lambda>less xs. xs) (example_conn, busy_streams) = Some (Ret ((cs', ws'), r))" "pop_inv ws'"
    "case r of
       None \<Rightarrow> cs' = example_conn \<and> (\<forall>x. pn_q (pw_heap ws' x) = pn_q (pw_heap busy_streams x)) \<and>
         (\<forall>sid n. pw_nodes busy_streams sid = Some n \<longrightarrow> stalled example_conn (pn_q (pw_heap busy_streams n)))
     | Some wr \<Rightarrow> \<exists>n. rooted (parents_of (pw_heap busy_streams)) n \<and> served busy_streams ws' n wr \<and>
         (\<not> stalled example_conn (pn_q (pw_heap busy_streams 0)) \<longrightarrow> n = 0)"
    using priority_Pop_total [OF busy_streams_inv, of "\<lambda>less xs. xs" example_conn] by auto
  obtain wr where "r = Some wr" using w(3) n st by (cases r) auto
  moreover from this w(3) obtain n where "served busy_streams ws' n wr" by auto
  moreover from this have "n = 2" by (auto simp: served_def busy_streams_queues split: if_splits)
  ultimately show ?thesis using w by blast
qed

end
