(* ===== verification/Workqueue.thy ===== *)
theory Workqueue
  imports Go_Prelude
begin

text \<open>
  The work queue of Kubernetes controllers (k8s.io/client-go/util/workqueue/queue.go). Every method runs
  under the queue's mutex, so it is one function on the queue; what it does to its condition variable
  (\<open>Signal\<close>, \<open>Broadcast\<close>) is part of the result. Goroutines interleave as a step relation: producers add
  items, workers call \<open>Get\<close>, sleep in \<open>cond.Wait\<close>, wake up and call \<open>Done\<close>. Metrics are left out.
\<close>

section \<open>The queue\<close>

record 't workqueue =
  queue :: "'t list"
  dirty :: "'t set"
  processing :: "'t set"
  shuttingDown :: bool

definition New_queue :: "'t workqueue" where
  "New_queue = \<lparr>queue = [], dirty = {}, processing = {}, shuttingDown = False\<rparr>"

definition set_has :: "'t set \<Rightarrow> 't \<Rightarrow> bool" where
  "set_has s item \<longleftrightarrow> item \<in> s"

definition set_insert :: "'t set \<Rightarrow> 't \<Rightarrow> 't set" where
  "set_insert s item = insert item s"

definition set_delete :: "'t set \<Rightarrow> 't \<Rightarrow> 't set" where
  "set_delete s item = s - {item}"

lemmas set_ops = set_has_def set_insert_def set_delete_def

text \<open>What a method does to the goroutines that sleep on \<open>cond\<close>.\<close>

datatype signal = NoSignal | Signal | Broadcast

definition Add :: "'t workqueue \<Rightarrow> 't \<Rightarrow> 't workqueue \<times> signal" where
  "Add q item =
     (if shuttingDown q then (q, NoSignal)
      else if set_has (dirty q) item then (q, NoSignal)
      else let q = q\<lparr>dirty := set_insert (dirty q) item\<rparr>
           in if set_has (processing q) item then (q, NoSignal)
              else (q\<lparr>queue := queue q @ [item]\<rparr>, Signal))"

definition Len :: "'t workqueue \<Rightarrow> nat" where
  "Len q = length (queue q)"

text \<open>One pass through \<open>Get\<close> from the check of the loop on: it waits, is told to stop, or has an item.\<close>

datatype 't get_result = Waits | Shutdown | Item 't

definition Get :: "'t workqueue \<Rightarrow> 't workqueue \<times> 't get_result" where
  "Get q =
     (if length (queue q) = 0 \<and> \<not> shuttingDown q then (q, Waits)
      else case queue q of
             [] \<Rightarrow> (q, Shutdown)
           | item # rest \<Rightarrow>
               (q\<lparr>queue := rest, processing := set_insert (processing q) item, dirty := set_delete (dirty q) item\<rparr>, Item item))"

definition Done :: "'t workqueue \<Rightarrow> 't \<Rightarrow> 't workqueue \<times> signal" where
  "Done q item =
     (let q = q\<lparr>processing := set_delete (processing q) item\<rparr>
      in if set_has (dirty q) item then (q\<lparr>queue := queue q @ [item]\<rparr>, Signal) else (q, NoSignal))"

definition ShutDown :: "'t workqueue \<Rightarrow> 't workqueue \<times> signal" where
  "ShutDown q = (q\<lparr>shuttingDown := True\<rparr>, Broadcast)"

definition ShuttingDown :: "'t workqueue \<Rightarrow> bool" where
  "ShuttingDown q = shuttingDown q"

section \<open>Goroutines\<close>

text \<open>A worker is about to call \<open>Get\<close>, sleeps in \<open>Wait\<close>, was woken and is about to check again, works, or has ended.\<close>

datatype 't worker = Running | Sleeping | Woken | Holding 't | Exited

type_synonym ('w, 't) system = "'t workqueue \<times> ('w \<Rightarrow> 't worker)"

inductive notify :: "signal \<Rightarrow> ('w \<Rightarrow> 't worker) \<Rightarrow> ('w \<Rightarrow> 't worker) \<Rightarrow> bool" where
  notify_none: "notify NoSignal ws ws"
| notify_one: "ws w = Sleeping \<Longrightarrow> notify Signal ws (ws(w := Woken))"
| notify_lost: "\<forall>w. ws w \<noteq> Sleeping \<Longrightarrow> notify Signal ws ws"
| notify_all: "notify Broadcast ws (\<lambda>w. if ws w = Sleeping then Woken else ws w)"

inductive_cases notify_Signal: "notify Signal ws ws'"
inductive_simps notify_NoSignal: "notify NoSignal ws ws'"
inductive_simps notify_Broadcast: "notify Broadcast ws ws'"

fun after_get :: "'t get_result \<Rightarrow> 't worker" where
  "after_get Waits = Sleeping"
| "after_get Shutdown = Exited"
| "after_get (Item x) = Holding x"

datatype ('w, 't) event = Added 't | Slept 'w | Stopped 'w | Took 'w 't | Finished 'w 't | Shut

fun got :: "'w \<Rightarrow> 't get_result \<Rightarrow> ('w, 't) event" where
  "got w Waits = Slept w"
| "got w Shutdown = Stopped w"
| "got w (Item x) = Took w x"

inductive wq_step :: "('w, 't) system \<Rightarrow> ('w, 't) event \<Rightarrow> ('w, 't) system \<Rightarrow> bool" where
  step_add: "Add q x = (q', sig) \<Longrightarrow> notify sig ws ws' \<Longrightarrow> wq_step (q, ws) (Added x) (q', ws')"
| step_get: "ws w = Running \<or> ws w = Woken \<Longrightarrow> Get q = (q', r) \<Longrightarrow> wq_step (q, ws) (got w r) (q', ws(w := after_get r))"
| step_done: "ws w = Holding x \<Longrightarrow> Done q x = (q', sig) \<Longrightarrow> notify sig (ws(w := Running)) ws' \<Longrightarrow> wq_step (q, ws) (Finished w x) (q', ws')"
| step_shut: "ShutDown q = (q', sig) \<Longrightarrow> notify sig ws ws' \<Longrightarrow> wq_step (q, ws) Shut (q', ws')"

text \<open>Any interleaving of goroutines.\<close>

inductive wq_steps :: "('w, 't) system \<Rightarrow> ('w, 't) event list \<Rightarrow> ('w, 't) system \<Rightarrow> bool" where
  steps_none: "wq_steps s [] s"
| steps_more: "wq_steps s es s' \<Longrightarrow> wq_step s' e s'' \<Longrightarrow> wq_steps s (es @ [e]) s''"

text \<open>It starts with a new queue and all workers about to call \<open>Get\<close>.\<close>

definition wq_start :: "('w, 't) system" where
  "wq_start = (New_queue, \<lambda>w. Running)"

section \<open>Invariants\<close>

definition queue_ok :: "'t workqueue \<Rightarrow> bool" where
  "queue_ok q \<longleftrightarrow> distinct (queue q) \<and> set (queue q) = dirty q - processing q"

definition owned :: "'t set \<Rightarrow> ('w \<Rightarrow> 't \<Rightarrow> bool) \<Rightarrow> bool" where
  "owned S H \<longleftrightarrow> S = {x. \<exists>w. H w x} \<and> (\<forall>w w' x. H w x \<longrightarrow> H w' x \<longrightarrow> w = w')"

text \<open>The items in process are those the workers hold, each held by one worker.\<close>

definition holders_ok :: "'t workqueue \<Rightarrow> ('w \<Rightarrow> 't worker) \<Rightarrow> bool" where
  "holders_ok q ws \<longleftrightarrow> owned (processing q) (\<lambda>w x. ws w = Holding x)"

lemma owned_take: "owned S H \<Longrightarrow> \<forall>v. \<not> H v x \<Longrightarrow> owned (insert x S) (\<lambda>v y. v = w \<and> y = x \<or> H v y)"
  unfolding owned_def by blast

lemma owned_drop:
  assumes "owned S H" "H w x" "\<forall>y. H w y \<longrightarrow> y = x"
  shows "owned (S - {x}) (\<lambda>v y. v \<noteq> w \<and> H v y)"
proof -
  have S: "y \<in> S \<longleftrightarrow> (\<exists>v. H v y)" and uniq: "H v y \<Longrightarrow> H v' y \<Longrightarrow> v = v'" for y v v'
    using assms(1) unfolding owned_def by blast+
  have "y \<in> S - {x} \<longleftrightarrow> (\<exists>v. v \<noteq> w \<and> H v y)" for y
  proof (cases "y = x")
    case True
    then show ?thesis using uniq [OF assms(2)] by blast
  next
    case False
    then show ?thesis using S [of y] assms(3) by auto
  qed
  then show ?thesis using uniq unfolding owned_def by blast
qed

lemma owned_mem: "owned S H \<Longrightarrow> x \<in> S \<longleftrightarrow> (\<exists>w. H w x)"
  unfolding owned_def by blast

text \<open>For each queued item some woken worker is on its way, as long as any worker sleeps.\<close>

definition wakeups_ok :: "'t workqueue \<Rightarrow> ('w::finite \<Rightarrow> 't worker) \<Rightarrow> bool" where
  "wakeups_ok q ws \<longleftrightarrow> ((\<exists>w. ws w = Sleeping) \<longrightarrow> \<not> shuttingDown q \<and> length (queue q) \<le> card {w. ws w = Woken})"

definition exits_ok :: "'t workqueue \<Rightarrow> ('w \<Rightarrow> 't worker) \<Rightarrow> bool" where
  "exits_ok q ws \<longleftrightarrow> ((\<exists>w. ws w = Exited) \<longrightarrow> shuttingDown q) \<and> ((\<forall>w. ws w = Exited) \<longrightarrow> queue q = [])"

definition wq_inv :: "('w::finite, 't) system \<Rightarrow> bool" where
  "wq_inv s \<longleftrightarrow> queue_ok (fst s) \<and> holders_ok (fst s) (snd s) \<and> wakeups_ok (fst s) (snd s) \<and> exits_ok (fst s) (snd s)"

lemma notify_holding: "notify sig ws ws' \<Longrightarrow> ws' w = Holding x \<longleftrightarrow> ws w = Holding x"
  by (induction rule: notify.induct) auto

lemma notify_exited: "notify sig ws ws' \<Longrightarrow> ws' w = Exited \<longleftrightarrow> ws w = Exited"
  by (induction rule: notify.induct) auto

lemma notify_sleeping: "notify sig ws ws' \<Longrightarrow> ws' w = Sleeping \<Longrightarrow> ws w = Sleeping"
  by (induction rule: notify.induct) (auto split: if_splits)

lemma holders_notify: "notify sig ws ws' \<Longrightarrow> holders_ok q ws' = holders_ok q ws"
  by (simp add: holders_ok_def notify_holding)

lemma exits_notify: "notify sig ws ws' \<Longrightarrow> exits_ok q ws' = exits_ok q ws"
  by (simp add: exits_ok_def notify_exited)

lemma wakeups_Signal:
  assumes "notify Signal ws ws'" "wakeups_ok q ws" "shuttingDown q' = shuttingDown q" "length (queue q') = Suc (length (queue q))"
  shows "wakeups_ok q' (ws' :: 'w::finite \<Rightarrow> 't worker)"
proof -
  from assms(1) consider w where "ws w = Sleeping" "ws' = ws(w := Woken)" | "\<forall>w. ws w \<noteq> Sleeping" "ws' = ws"
    by (blast elim: notify_Signal)
  then show ?thesis
  proof cases
  case (1 w)
  have "{v. ws' v = Woken} = insert w {v. ws v = Woken}" "w \<notin> {v. ws v = Woken}" using 1 by auto
  then have "card {v. ws' v = Woken} = Suc (card {v. ws v = Woken})" by simp
  then show ?thesis using assms(2-4) 1 by (auto simp: wakeups_ok_def)
next
  case 2
  then show ?thesis by (simp add: wakeups_ok_def)
  qed
qed

lemma Add_inv:
  assumes "wq_inv (q, ws)" "Add q x = (q', sig)" "notify sig ws ws'"
  shows "wq_inv (q', ws')"
proof -
  note d = assms(1) [unfolded wq_inv_def fst_conv snd_conv]
  consider "q' = q" "ws' = ws" | "\<not> shuttingDown q" "x \<notin> dirty q" "x \<in> processing q" "q' = q\<lparr>dirty := insert x (dirty q)\<rparr>" "ws' = ws"
    | "\<not> shuttingDown q" "x \<notin> dirty q" "x \<notin> processing q" "q' = q\<lparr>dirty := insert x (dirty q), queue := queue q @ [x]\<rparr>" "sig = Signal"
    using assms(2,3) by (auto simp: Add_def set_ops notify_NoSignal Let_def split: if_splits)
  then show ?thesis
  proof cases
    case 1
    then show ?thesis using assms(1) by simp
  next
    case 2
    then show ?thesis using d by (auto simp: wq_inv_def queue_ok_def holders_ok_def wakeups_ok_def exits_ok_def)
  next
    case 3
    have "wakeups_ok q' ws'" using wakeups_Signal [of ws ws' q q'] assms(3) d 3 by simp
    moreover have "holders_ok q' ws'" using holders_notify [OF assms(3), of q'] d 3 by (simp add: holders_ok_def)
    moreover have "exits_ok q' ws'" using exits_notify [OF assms(3), of q'] d 3 by (auto simp: exits_ok_def)
    moreover have "queue_ok q'" using d 3 by (auto simp: queue_ok_def)
    ultimately show ?thesis by (simp add: wq_inv_def)
  qed
qed

lemma Done_inv:
  assumes "wq_inv (q, ws)" "ws w = Holding x" "Done q x = (q', sig)" "notify sig (ws(w := Running)) ws'"
  shows "wq_inv (q', ws')"
proof -
  note d = assms(1) [unfolded wq_inv_def fst_conv snd_conv]
  let ?ws = "ws(w := Running)" and ?q = "q\<lparr>processing := processing q - {x}\<rparr>"
  have wk: "{v. ?ws v = Woken} = {v. ws v = Woken}" using assms(2) by auto
  have x: "x \<in> processing q" "x \<notin> set (queue q)" using d assms(2) owned_mem [of "processing q" _ x] by (auto simp: holders_ok_def queue_ok_def)
  have upd: "(\<lambda>v y. ?ws v = Holding y) = (\<lambda>v y. v \<noteq> w \<and> ws v = Holding y)" by (intro ext) simp
  have "owned (processing q - {x}) (\<lambda>v y. v \<noteq> w \<and> ws v = Holding y)"
    using d assms(2) by (intro owned_drop) (simp_all add: holders_ok_def)
  then have h: "holders_ok ?q ?ws" unfolding holders_ok_def upd by simp
  have "?ws v = Sleeping \<longleftrightarrow> ws v = Sleeping" for v using assms(2) by (cases "v = w") simp_all
  then have w: "wakeups_ok ?q ?ws" using d unfolding wakeups_ok_def wk by simp
  have "?ws v = Exited \<longleftrightarrow> ws v = Exited" for v using assms(2) by (cases "v = w") simp_all
  then have e: "exits_ok (?q\<lparr>queue := qs\<rparr>) ?ws" for qs using d assms(2) unfolding exits_ok_def by fastforce
  show ?thesis
  proof (cases "x \<in> dirty q")
    case True
    then have q': "q' = ?q\<lparr>queue := queue q @ [x]\<rparr>" "sig = Signal" using assms(3) by (simp_all add: Done_def set_ops)
    have "wakeups_ok q' ws'" using wakeups_Signal [of ?ws ws' ?q q'] assms(4) q' w by simp
    moreover have "holders_ok q' ws'" using holders_notify [OF assms(4), of q'] h q' by (simp add: holders_ok_def)
    moreover have "exits_ok q' ws'" using exits_notify [OF assms(4), of q'] e q' by simp
    moreover have "queue_ok q'" using d x True q' by (auto simp: queue_ok_def)
    ultimately show ?thesis by (simp add: wq_inv_def)
  next
    case False
    then have q': "q' = ?q" "ws' = ?ws" using assms(3,4) by (auto simp: Done_def set_ops notify_NoSignal)
    have "exits_ok ?q ?ws" using e [of "queue q"] by (simp add: exits_ok_def)
    moreover have "queue_ok ?q" using d x False by (auto simp: queue_ok_def)
    ultimately show ?thesis using h w q' by (simp add: wq_inv_def)
  qed
qed

lemma holders_idle:
  assumes "holders_ok q ws" "\<And>y. ws w \<noteq> Holding y" "\<And>y. c \<noteq> Holding y"
  shows "holders_ok q (ws(w := c))"
proof -
  have "(\<lambda>v y. (ws(w := c)) v = Holding y) = (\<lambda>v y. ws v = Holding y)" using assms(2,3) by (intro ext) simp
  then show ?thesis using assms(1) unfolding holders_ok_def by simp
qed

lemma holders_take:
  assumes "holders_ok q ws" "\<And>y. ws w \<noteq> Holding y" "\<And>v. ws v \<noteq> Holding x" "processing q' = insert x (processing q)"
  shows "holders_ok q' (ws(w := Holding x))"
proof -
  have "(\<lambda>v y. (ws(w := Holding x)) v = Holding y) = (\<lambda>v y. v = w \<and> y = x \<or> ws v = Holding y)"
    using assms(2) by (intro ext) auto
  then show ?thesis
    using owned_take [of "processing q" "\<lambda>v y. ws v = Holding y" x w] assms(1,3,4) unfolding holders_ok_def by simp
qed

text \<open>Taking a worker out of the woken ones takes at most one away.\<close>

lemma woken_upd: "card {v. ws v = Woken} \<le> Suc (card {v. (ws(w := Holding x)) v = Woken})" for ws :: "'w::finite \<Rightarrow> 't worker"
proof -
  let ?W = "{v. (ws(w := Holding x)) v = Woken}"
  have "{v. ws v = Woken} \<subseteq> insert w ?W" by auto
  then have "card {v. ws v = Woken} \<le> card (insert w ?W)" by (intro card_mono) simp_all
  also have "\<dots> \<le> Suc (card ?W)" by (simp add: card_insert_if)
  finally show ?thesis .
qed

lemma Get_inv:
  assumes "wq_inv (q, ws)" "ws w = Running \<or> ws w = Woken" "Get q = (q', r)"
  shows "wq_inv (q', ws(w := after_get r))"
proof -
  note d = assms(1) [unfolded wq_inv_def fst_conv snd_conv]
  have no: "ws w \<noteq> Holding y" "ws w \<noteq> Exited" "ws w \<noteq> Sleeping" for y using assms(2) by auto
  show ?thesis
  proof (cases "queue q")
    case Nil
    then have q': "q' = q" "r = (if shuttingDown q then Shutdown else Waits)" using assms(3) by (auto simp: Get_def split: if_splits)
    have "holders_ok q (ws(w := after_get r))" using d no(1) q'(2) by (intro holders_idle) simp_all
    moreover have "wakeups_ok q (ws(w := after_get r))" using d Nil q'(2) by (auto simp: wakeups_ok_def split: if_splits)
    moreover have "exits_ok q (ws(w := after_get r))" using d Nil q'(2) by (auto simp: exits_ok_def split: if_splits)
    ultimately show ?thesis using d q'(1) by (simp add: wq_inv_def)
  next
    case (Cons x xs)
    then have q': "q' = q\<lparr>queue := xs, processing := insert x (processing q), dirty := dirty q - {x}\<rparr>" "r = Item x"
      using assms(3) by (auto simp: Get_def set_ops)
    have x: "x \<notin> processing q" "x \<notin> set xs" using d Cons by (auto simp: queue_ok_def)
    then have nh: "ws v \<noteq> Holding x" for v using d owned_mem [of "processing q" _ x] by (auto simp: holders_ok_def)
    have "queue_ok q'" using d Cons x q'(1) by (auto simp: queue_ok_def)
    moreover have "holders_ok q' (ws(w := Holding x))" using d no(1) nh q'(1) by (intro holders_take [of q]) simp_all
    moreover have "wakeups_ok q' (ws(w := Holding x))"
    proof -
      have "(ws(w := Holding x)) v = Sleeping \<Longrightarrow> ws v = Sleeping" for v by (cases "v = w") simp_all
      then show ?thesis using d Cons q'(1) woken_upd [of ws w x] unfolding wakeups_ok_def by fastforce
    qed
    moreover have "exits_ok q' (ws(w := Holding x))" using d q'(1) by (auto simp: exits_ok_def split: if_splits)
    ultimately show ?thesis using q' by (simp add: wq_inv_def)
  qed
qed

lemma ShutDown_inv:
  assumes "wq_inv (q, ws)" "ShutDown q = (q', sig)" "notify sig ws ws'"
  shows "wq_inv (q', ws')"
proof -
  have q': "q' = q\<lparr>shuttingDown := True\<rparr>" "ws' = (\<lambda>w. if ws w = Sleeping then Woken else ws w)"
    using assms(2,3) by (auto simp: ShutDown_def notify_Broadcast)
  note d = assms(1) [unfolded wq_inv_def fst_conv snd_conv]
  have "exits_ok q' ws'" using exits_notify [OF assms(3), of q'] d q' by (auto simp: exits_ok_def)
  moreover have "holders_ok q' ws'" using holders_notify [OF assms(3), of q'] d q' by (simp add: holders_ok_def)
  moreover have "wakeups_ok q' ws'" using q'(2) by (simp add: wakeups_ok_def)
  ultimately show ?thesis using d q'(1) by (simp add: wq_inv_def queue_ok_def)
qed

lemma wq_step_inv: "wq_step s e s' \<Longrightarrow> wq_inv s \<Longrightarrow> wq_inv s'"
  by (induction rule: wq_step.induct) (auto intro: Add_inv Get_inv Done_inv ShutDown_inv)

lemma wq_start_inv: "wq_inv wq_start"
  by (simp add: wq_inv_def wq_start_def New_queue_def queue_ok_def holders_ok_def owned_def wakeups_ok_def exits_ok_def)

lemma wq_steps_inv: "wq_steps s es s' \<Longrightarrow> wq_inv s \<Longrightarrow> wq_inv s'"
  by (induction rule: wq_steps.induct) (auto intro: wq_step_inv)

section \<open>What is pending\<close>

text \<open>The items that were added before the shutdown and not taken since, and whether the queue shuts down, from the events alone.\<close>

fun pend :: "'t set \<times> bool \<Rightarrow> ('w, 't) event \<Rightarrow> 't set \<times> bool" where
  "pend (S, shut) (Added x) = (if shut then S else insert x S, shut)"
| "pend (S, shut) (Took w x) = (S - {x}, shut)"
| "pend (S, shut) Shut = (S, True)"
| "pend (S, shut) _ = (S, shut)"

definition pending :: "('w, 't) event list \<Rightarrow> 't set" where
  "pending es = fst (foldl pend ({}, False) es)"

lemma step_pend: "wq_step s e s' \<Longrightarrow> pend (dirty (fst s), shuttingDown (fst s)) e = (dirty (fst s'), shuttingDown (fst s'))"
proof (induction rule: wq_step.induct)
  case (step_get ws w q q' r)
  then show ?case by (cases "queue q"; cases "shuttingDown q") (auto simp: Get_def set_ops)
qed (auto simp: Add_def Done_def ShutDown_def set_ops Let_def split: if_splits)

lemma steps_pend: "wq_steps s es s' \<Longrightarrow> foldl pend (dirty (fst s), shuttingDown (fst s)) es = (dirty (fst s'), shuttingDown (fst s'))"
  by (induction rule: wq_steps.induct) (simp_all add: step_pend)

lemma start_pending: "wq_steps wq_start es (q, ws) \<Longrightarrow> pending es = dirty q"
  using steps_pend [of wq_start es "(q, ws)"] by (simp add: pending_def wq_start_def New_queue_def)

section \<open>Progress\<close>

fun is_work :: "('w, 't) event \<Rightarrow> bool" where
  "is_work (Took w x) = True"
| "is_work (Finished w x) = True"
| "is_work _ = False"

fun is_add :: "('w, 't) event \<Rightarrow> bool" where
  "is_add (Added x) = True"
| "is_add _ = False"

definition work_left :: "'t workqueue \<Rightarrow> nat" where
  "work_left q = 2 * card (dirty q) + card (processing q)"

lemma inv_finite:
  assumes "wq_inv (q, ws :: 'w::finite \<Rightarrow> 't worker)"
  shows "finite (processing q)" "finite (dirty q)"
proof -
  have "processing q \<subseteq> (\<lambda>w. case ws w of Holding x \<Rightarrow> x) ` UNIV"
  proof
    fix x assume "x \<in> processing q"
    moreover have "owned (processing q) (\<lambda>w x. ws w = Holding x)" using assms by (simp add: wq_inv_def holders_ok_def)
    ultimately obtain w where "ws w = Holding x" unfolding owned_def by blast
    then show "x \<in> (\<lambda>w. case ws w of Holding x \<Rightarrow> x) ` UNIV" by (intro image_eqI [of _ _ w]) simp_all
  qed
  then show p: "finite (processing q)" by (rule finite_subset) simp
  have "dirty q \<subseteq> set (queue q) \<union> processing q" using assms by (auto simp: wq_inv_def queue_ok_def)
  then show "finite (dirty q)" using p finite_subset by blast
qed

lemma step_work:
  "wq_step s e s' \<Longrightarrow> wq_inv s \<Longrightarrow> \<not> is_add e \<Longrightarrow> work_left (fst s) = work_left (fst s') + (if is_work e then 1 else 0)"
proof (induction rule: wq_step.induct)
  case (step_get ws w q q' r)
  note f = inv_finite [OF step_get.prems(1)]
  show ?case
  proof (cases "queue q")
    case Nil
    then show ?thesis using step_get by (cases "shuttingDown q") (auto simp: Get_def)
  next
    case (Cons x xs)
    then have x: "x \<in> dirty q" "x \<notin> processing q" using step_get.prems(1) by (auto simp: wq_inv_def queue_ok_def)
    then have "card (dirty q) = Suc (card (dirty q - {x}))" using card.remove [OF f(2)] by blast
    moreover have "q' = q\<lparr>queue := xs, processing := insert x (processing q), dirty := dirty q - {x}\<rparr>" "r = Item x"
      using step_get(2) Cons by (auto simp: Get_def set_ops)
    ultimately show ?thesis using x(2) f(1) by (simp add: work_left_def)
  qed
next
  case (step_done ws w x q q' sig ws')
  note f = inv_finite [OF step_done.prems(1)]
  have "x \<in> processing q" using step_done.hyps(1) step_done.prems(1) by (auto simp: wq_inv_def holders_ok_def owned_def)
  then have "card (processing q) = Suc (card (processing q - {x}))" using card.remove [OF f(1)] by blast
  moreover have "dirty q' = dirty q" "processing q' = processing q - {x}"
    using step_done(2) by (auto simp: Done_def set_ops Let_def split: if_splits)
  ultimately show ?case by (simp add: work_left_def)
qed (auto simp: ShutDown_def work_left_def)

lemma steps_work:
  "wq_steps s es s' \<Longrightarrow> wq_inv s \<Longrightarrow> list_all (\<lambda>e. \<not> is_add e) es \<Longrightarrow>
   work_left (fst s) = work_left (fst s') + length (filter is_work es)"
proof (induction rule: wq_steps.induct)
  case (steps_more s es s' e s'')
  then show ?case using step_work [OF steps_more.hyps(2)] wq_steps_inv [OF steps_more.hyps(1)] by auto
qed simp

lemma notify_total: "\<exists>ws'. notify sig ws ws'"
  by (cases sig) (auto intro: notify_none notify_all notify_lost notify_one)

lemma Holding_step: "ws w = Holding x \<Longrightarrow> \<exists>s'. wq_step (q, ws) (Finished w x) s'"
proof -
  assume h: "ws w = Holding x"
  obtain q' sig where d: "Done q x = (q', sig)" by fastforce
  obtain ws' where "notify sig (ws(w := Running)) ws'" using notify_total by blast
  then show ?thesis using step_done [of ws w, OF h d] by blast
qed

lemma can_work:
  assumes "wq_inv (q, ws)" "dirty q \<noteq> {}"
  shows "\<exists>e s'. is_work e \<and> wq_step (q, ws) e s'"
proof (cases "\<exists>w x. ws w = Holding x")
  case True
  then show ?thesis using Holding_step is_work.simps(2) by metis
next
  case False
  note d = assms(1) [unfolded wq_inv_def fst_conv snd_conv]
  have "processing q = {}" using False d by (auto simp: holders_ok_def owned_def)
  then obtain x xs where x: "queue q = x # xs" using d assms(2) by (cases "queue q") (auto simp: queue_ok_def)
  have "\<exists>w. ws w = Running \<or> ws w = Woken"
  proof (cases "\<exists>w. ws w = Sleeping")
    case True
    then have "0 < card {w. ws w = Woken}" using d x by (auto simp: wakeups_ok_def)
    then have "{w. ws w = Woken} \<noteq> {}" by (metis card.empty less_irrefl)
    then show ?thesis by blast
  next
    case none: False
    obtain w where "ws w \<noteq> Exited" using d x by (auto simp: exits_ok_def)
    then show ?thesis using none False by (metis worker.exhaust)
  qed
  then obtain w where w: "ws w = Running \<or> ws w = Woken" by blast
  obtain q' where "Get q = (q', Item x)" using x by (auto simp: Get_def)
  from step_get [of ws w, OF w this] show ?thesis by (metis got.simps(3) is_work.simps(1))
qed

section \<open>Properties\<close>

text \<open>C11: Whatever producers and workers do, in any interleaving, the queue keeps its documented invariant:
  the queued items are distinct and are exactly the items that need processing and are not being processed;
  an item is being processed exactly if some worker holds it, and no two workers ever hold the same item.
  No wakeup is lost: while a worker sleeps in \<open>Get\<close>, every queued item has a woken worker on its way, and no
  worker sleeps on a queue that shuts down.\<close>

theorem workqueue_invariant:
  assumes "wq_steps wq_start es (q, ws :: 'w::finite \<Rightarrow> 't worker)"
  shows "distinct (queue q) \<and> set (queue q) = dirty q - processing q \<and>
    (\<forall>x. x \<in> processing q \<longleftrightarrow> (\<exists>!w. ws w = Holding x)) \<and>
    (\<forall>x v w. ws v = Holding x \<and> ws w = Holding x \<longrightarrow> v = w) \<and>
    ((\<exists>w. ws w = Sleeping) \<longrightarrow> \<not> shuttingDown q \<and> length (queue q) \<le> card {w. ws w = Woken})"
proof -
  have inv: "wq_inv (q, ws)" using wq_steps_inv [OF assms wq_start_inv] .
  have own: "owned (processing q) (\<lambda>w x. ws w = Holding x)" using inv by (simp add: wq_inv_def holders_ok_def)
  then have "v = w" if "ws v = Holding x" "ws w = Holding x" for v w x using that unfolding owned_def by blast
  moreover from this have "x \<in> processing q \<longleftrightarrow> (\<exists>!w. ws w = Holding x)" for x using owned_mem [OF own, of x] by blast
  ultimately show ?thesis using inv unfolding wq_inv_def queue_ok_def wakeups_ok_def by simp
qed

text \<open>Worker \<open>True\<close> takes item 7, which is added again while it is being processed; worker \<open>False\<close> finds nothing and sleeps.\<close>

definition example_events :: "(bool, nat) event list" where
  "example_events = [Added 7, Took True 7, Added 7, Slept False]"

definition example_queue :: "nat workqueue" where
  "example_queue = \<lparr>queue = [], dirty = {7}, processing = {7}, shuttingDown = False\<rparr>"

definition example_workers :: "bool \<Rightarrow> nat worker" where
  "example_workers = (\<lambda>w. Running)(True := Holding 7, False := Sleeping)"

lemma example_steps: "wq_steps wq_start example_events (example_queue, example_workers)"
proof -
  let ?new = "New_queue :: nat workqueue" and ?ws = "\<lambda>w :: bool. Running :: nat worker"
  let ?q1 = "?new\<lparr>dirty := {7}, queue := [7]\<rparr>" and ?q2 = "?new\<lparr>processing := {7}\<rparr>"
  have "wq_step (?new, ?ws) (Added 7) (?q1, ?ws)"
    by (rule step_add [where sig = Signal]) (simp_all add: Add_def set_ops New_queue_def notify_lost)
  moreover have "wq_step (?q1, ?ws) (Took True 7) (?q2, ?ws(True := Holding 7))"
    using step_get [of ?ws True ?q1 ?q2 "Item 7"] by (simp add: Get_def set_ops New_queue_def)
  moreover have "wq_step (?q2, ?ws(True := Holding 7)) (Added 7) (example_queue, ?ws(True := Holding 7))"
    by (rule step_add [where sig = NoSignal]) (simp_all add: Add_def set_ops New_queue_def notify_none example_queue_def)
  moreover have "wq_step (example_queue, ?ws(True := Holding 7)) (Slept False) (example_queue, example_workers)"
    using step_get [of "?ws(True := Holding 7)" False example_queue example_queue Waits]
    by (simp add: Get_def example_queue_def example_workers_def)
  ultimately have "wq_steps (?new, ?ws) (((([] @ [Added 7]) @ [Took True 7]) @ [Added 7]) @ [Slept False]) (example_queue, example_workers)"
    by (meson steps_more steps_none)
  then show ?thesis by (simp add: wq_start_def example_events_def)
qed

theorem workqueue_invariant_witness:
  "wq_steps wq_start example_events (example_queue, example_workers) \<and> (\<exists>!w. example_workers w = Holding 7)"
proof -
  have "7 \<in> processing example_queue" by (simp add: example_queue_def)
  then show ?thesis using workqueue_invariant [OF example_steps] example_steps by blast
qed

text \<open>C15: Nothing added is ever forgotten, and the workers finish. The dirty set is exactly what the events say
  is pending: the items added, before any shutdown, that no worker took since; so an accepted \<open>Add\<close>,
  also one that comes while its item is being processed, stays pending until another \<open>Get\<close> takes the item. As long
  as something is pending some worker can take or finish an item, never all are stuck or gone. And once
  nothing is added any more, the number of takes and completions is bounded by the work left, whatever
  sleeping and waking goes on in between.\<close>

theorem workqueue_drains:
  assumes "wq_steps wq_start es (q, ws :: 'w::finite \<Rightarrow> 't worker)" "wq_steps (q, ws) es' (q', ws')"
    "list_all (\<lambda>e. \<not> is_add e) es'"
  shows "pending es = dirty q \<and>
    length (filter is_work es') + 2 * card (dirty q') + card (processing q') = 2 * card (dirty q) + card (processing q) \<and>
    (dirty q' \<noteq> {} \<longrightarrow> (\<exists>e s. is_work e \<and> wq_step (q', ws') e s))"
proof -
  have inv: "wq_inv (q, ws)" using wq_steps_inv [OF assms(1) wq_start_inv] .
  have "pending es = dirty q" using assms(1) by (rule start_pending)
  moreover have "work_left q = work_left q' + length (filter is_work es')" using steps_work [OF assms(2) inv assms(3)] by simp
  moreover have "wq_inv (q', ws')" using wq_steps_inv [OF assms(2) inv] .
  ultimately show ?thesis using can_work [of q' ws'] by (auto simp: work_left_def)
qed

theorem workqueue_drains_witness:
  "pending example_events = {7} \<and> (\<exists>e s. is_work e \<and> wq_step (example_queue, example_workers) e s)"
  using workqueue_drains [OF example_steps steps_none] by (simp add: example_queue_def)

end
