(* ===== verification/Go_Heap.thy ===== *)
theory Go_Heap
  imports Go_Prelude
begin

text \<open>
  Go's package \<open>container/heap\<close>: its algorithms over any \<open>heap.Interface\<close>, and what they promise to a client
  whose \<open>Less\<close> compares positions by a value and whose \<open>Swap\<close> exchanges them. Indices are natural numbers:
  the parent \<open>(j - 1) / 2\<close> of position 0 is 0 as with Go's division, and positions are too small to overflow.
\<close>

section \<open>The algorithms\<close>

function heap_up :: "('s \<Rightarrow> nat \<Rightarrow> nat \<Rightarrow> bool) \<Rightarrow> ('s \<Rightarrow> nat \<Rightarrow> nat \<Rightarrow> 's) \<Rightarrow> 's \<Rightarrow> nat \<Rightarrow> 's" where
  "heap_up Less Swap s j =
     (let i = (j - 1) div 2
      in if i = j \<or> \<not> Less s j i then s else heap_up Less Swap (Swap s i j) i)"
  by pat_completeness auto
termination
  by (relation "measure (\<lambda>(Less, Swap, s, j). j)") auto

text \<open>The smaller child of position \<open>i\<close>, of which there is at least one below \<open>n\<close>.\<close>

definition heap_child :: "('s \<Rightarrow> nat \<Rightarrow> nat \<Rightarrow> bool) \<Rightarrow> 's \<Rightarrow> nat \<Rightarrow> nat \<Rightarrow> nat" where
  "heap_child Less s i n = (let j1 = 2 * i + 1; j2 = j1 + 1 in if j2 < n \<and> Less s j2 j1 then j2 else j1)"

text \<open>\<open>down\<close> ends at the returned position; it reports whether that is below the one it started from.\<close>

function heap_down :: "('s \<Rightarrow> nat \<Rightarrow> nat \<Rightarrow> bool) \<Rightarrow> ('s \<Rightarrow> nat \<Rightarrow> nat \<Rightarrow> 's) \<Rightarrow> 's \<Rightarrow> nat \<Rightarrow> nat \<Rightarrow> 's \<times> nat" where
  "heap_down Less Swap s i n =
     (if 2 * i + 1 \<ge> n then (s, i)
      else let j = heap_child Less s i n
           in if \<not> Less s j i then (s, i) else heap_down Less Swap (Swap s i j) j n)"
  by pat_completeness auto
termination
  by (relation "measure (\<lambda>(Less, Swap, s, i, n). n - i)") (auto simp: heap_child_def Let_def split: if_splits)

declare heap_up.simps [simp del] heap_down.simps [simp del]

lemma heap_up_stop: "(j - 1) div 2 = j \<or> \<not> Less s j ((j - 1) div 2) \<Longrightarrow> heap_up Less Swap s j = s"
  by (subst heap_up.simps) (simp add: Let_def)

lemma heap_up_move:
  "\<not> ((j - 1) div 2 = j \<or> \<not> Less s j ((j - 1) div 2)) \<Longrightarrow> heap_up Less Swap s j = heap_up Less Swap (Swap s ((j - 1) div 2) j) ((j - 1) div 2)"
  by (subst heap_up.simps) (simp add: Let_def)

lemma heap_child_cases: "heap_child Less s i n = 2 * i + 1 \<or> heap_child Less s i n = 2 * i + 2 \<and> 2 * i + 2 < n"
  by (auto simp: heap_child_def Let_def)

lemma heap_down_stop: "n \<le> 2 * i + 1 \<or> \<not> Less s (heap_child Less s i n) i \<Longrightarrow> heap_down Less Swap s i n = (s, i)"
  by (subst heap_down.simps) (auto simp: Let_def)

lemma heap_down_move:
  "\<not> (n \<le> 2 * i + 1 \<or> \<not> Less s (heap_child Less s i n) i) \<Longrightarrow>
   heap_down Less Swap s i n = heap_down Less Swap (Swap s i (heap_child Less s i n)) (heap_child Less s i n) n"
  by (subst heap_down.simps) (simp add: Let_def)

definition heap_Fix :: "('s \<Rightarrow> nat \<Rightarrow> nat \<Rightarrow> bool) \<Rightarrow> ('s \<Rightarrow> nat \<Rightarrow> nat \<Rightarrow> 's) \<Rightarrow> ('s \<Rightarrow> nat) \<Rightarrow> 's \<Rightarrow> nat \<Rightarrow> 's" where
  "heap_Fix Less Swap Len s i =
     (case heap_down Less Swap s i (Len s) of (s, i') \<Rightarrow> if i' > i then s else heap_up Less Swap s i)"

definition heap_Push :: "('s \<Rightarrow> nat \<Rightarrow> nat \<Rightarrow> bool) \<Rightarrow> ('s \<Rightarrow> nat \<Rightarrow> nat \<Rightarrow> 's) \<Rightarrow> ('s \<Rightarrow> nat) \<Rightarrow> ('s \<Rightarrow> 'e \<Rightarrow> 's) \<Rightarrow> 's \<Rightarrow> 'e \<Rightarrow> 's" where
  "heap_Push Less Swap Len Push s x = (let s = Push s x in heap_up Less Swap s (Len s - 1))"

definition heap_Pop :: "('s \<Rightarrow> nat \<Rightarrow> nat \<Rightarrow> bool) \<Rightarrow> ('s \<Rightarrow> nat \<Rightarrow> nat \<Rightarrow> 's) \<Rightarrow> ('s \<Rightarrow> nat) \<Rightarrow> ('s \<Rightarrow> 's \<times> 'e) \<Rightarrow> 's \<Rightarrow> 's \<times> 'e" where
  "heap_Pop Less Swap Len Pop s =
     (let n = Len s - 1; s = Swap s 0 n; s = fst (heap_down Less Swap s 0 n) in Pop s)"

section \<open>Heaps\<close>

abbreviation parent :: "nat \<Rightarrow> nat" where
  "parent c \<equiv> (c - 1) div 2"

definition heap_upto :: "nat \<Rightarrow> 'k::linorder list \<Rightarrow> bool" where
  "heap_upto n v \<longleftrightarrow> (\<forall>c. 0 < c \<and> c < n \<longrightarrow> v ! parent c \<le> v ! c)"

text \<open>A heap but for position \<open>j\<close>, whose value may be too small; or too small or too big.\<close>

definition up_ok :: "nat \<Rightarrow> 'k::linorder list \<Rightarrow> nat \<Rightarrow> bool" where
  "up_ok n v j \<longleftrightarrow> (\<forall>c. 0 < c \<and> c < n \<and> c \<noteq> j \<longrightarrow> v ! parent c \<le> v ! c) \<and>
     (0 < j \<longrightarrow> (\<forall>c. 0 < c \<and> c < n \<and> parent c = j \<longrightarrow> v ! parent j \<le> v ! c))"

definition down_ok :: "nat \<Rightarrow> 'k::linorder list \<Rightarrow> nat \<Rightarrow> bool" where
  "down_ok n v i \<longleftrightarrow> (\<forall>c. 0 < c \<and> c < n \<and> c \<noteq> i \<and> parent c \<noteq> i \<longrightarrow> v ! parent c \<le> v ! c) \<and>
     (0 < i \<longrightarrow> (\<forall>c. 0 < c \<and> c < n \<and> parent c = i \<longrightarrow> v ! parent i \<le> v ! c))"

abbreviation swapped :: "nat \<Rightarrow> nat \<Rightarrow> 'k list \<Rightarrow> 'k list" where
  "swapped i j v \<equiv> v[i := v ! j, j := v ! i]"

lemma parent_less: "0 < c \<Longrightarrow> parent c < c"
  by linarith

lemma parent_iff: "0 < c \<Longrightarrow> parent c = i \<longleftrightarrow> c = 2 * i + 1 \<or> c = 2 * i + 2"
  by linarith

lemma swapped_nth: "i < length v \<Longrightarrow> j < length v \<Longrightarrow> swapped i j v ! c = (if c = j then v ! i else if c = i then v ! j else v ! c)"
  by (simp add: nth_list_update)

lemma up_ok_root: "up_ok n v 0 \<longleftrightarrow> heap_upto n v"
  by (auto simp: up_ok_def heap_upto_def)

lemma up_ok_done: "up_ok n v j \<Longrightarrow> v ! parent j \<le> v ! j \<Longrightarrow> heap_upto n v"
  by (auto simp: up_ok_def heap_upto_def)

lemma up_ok_swap:
  assumes up: "up_ok n v j" and j: "0 < j" "j < n" "n \<le> length v" "v ! j < v ! parent j"
  shows "up_ok n (swapped (parent j) j v) (parent j)"
proof -
  let ?k = "parent j" and ?v = "swapped (parent j) j v"
  have kj: "?k < j" using j(1) by (rule parent_less)
  have nth: "?v ! c = (if c = j then v ! ?k else if c = ?k then v ! j else v ! c)" for c using j kj by (intro swapped_nth) simp_all
  have A: "v ! parent c \<le> v ! c" if "0 < c" "c < n" "c \<noteq> j" for c using up that by (simp add: up_ok_def)
  have B: "v ! ?k \<le> v ! c" if "0 < c" "c < n" "parent c = j" for c using up that j by (simp add: up_ok_def)
  have "?v ! parent c \<le> ?v ! c" if c: "0 < c" "c < n" "c \<noteq> ?k" for c
  proof -
    consider "c = j" | "c \<noteq> j" "parent c = j" | "c \<noteq> j" "parent c = ?k" | "c \<noteq> j" "parent c \<noteq> j" "parent c \<noteq> ?k" by blast
    then show ?thesis
    proof cases
      case 1
      then show ?thesis using nth kj j by simp
    next
      case 2
      then show ?thesis using B c nth by simp
    next
      case 3
      then show ?thesis using A [of c] c nth [of c] nth [of ?k] kj j by simp
    next
      case 4
      then show ?thesis using A c nth [of c] nth [of "parent c"] by simp
    qed
  qed
  moreover have "?v ! parent ?k \<le> ?v ! c" if k: "0 < ?k" and c: "0 < c" "c < n" "parent c = ?k" for c
  proof -
    have pk: "parent ?k < ?k" using k by (rule parent_less)
    have k1: "v ! parent ?k \<le> v ! ?k" using A [of ?k] k kj j by simp
    have c1: "v ! ?k \<le> v ! c" if "c \<noteq> j" using A [of c] c that by simp
    have ck: "c \<noteq> ?k" using parent_less [OF c(1)] c(3) by simp
    have "?v ! parent ?k = v ! parent ?k" using nth [of "parent ?k"] pk kj by simp
    moreover have "?v ! c = (if c = j then v ! ?k else v ! c)" using nth [of c] ck by simp
    ultimately show ?thesis using k1 c1 by auto
  qed
  ultimately show ?thesis unfolding up_ok_def by blast
qed


lemma down_ok_swap:
  assumes dn: "down_ok n v i" and j: "0 < j" "parent j = i" "j < n" "n \<le> length v" "v ! j < v ! i"
    and small: "\<And>c. 0 < c \<Longrightarrow> c < n \<Longrightarrow> parent c = i \<Longrightarrow> v ! j \<le> v ! c"
  shows "down_ok n (swapped i j v) j \<and> swapped i j v ! parent j \<le> swapped i j v ! j"
proof -
  let ?v = "swapped i j v"
  have ij: "i < j" using parent_less [OF j(1)] j(2) by simp
  have nth: "?v ! c = (if c = j then v ! i else if c = i then v ! j else v ! c)" for c using j ij by (intro swapped_nth) simp_all
  have A: "v ! parent c \<le> v ! c" if "0 < c" "c < n" "c \<noteq> i" "parent c \<noteq> i" for c using dn that by (simp add: down_ok_def)
  have B: "v ! parent i \<le> v ! c" if "0 < i" "0 < c" "c < n" "parent c = i" for c using dn that by (simp add: down_ok_def)
  have "?v ! parent c \<le> ?v ! c" if c: "0 < c" "c < n" "c \<noteq> j" "parent c \<noteq> j" for c
  proof -
    consider "c = i" | "c \<noteq> i" "parent c = i" | "c \<noteq> i" "parent c \<noteq> i" by blast
    then show ?thesis
    proof cases
      case 1
      then have "parent i < i" using c(1) by (intro parent_less) simp
      then show ?thesis using 1 c B [of j] j nth [of i] nth [of "parent i"] ij by simp
    next
      case 2
      then show ?thesis using small [of c] c nth [of c] nth [of i] ij by simp
    next
      case 3
      then show ?thesis using A [of c] c nth [of c] nth [of "parent c"] by simp
    qed
  qed
  moreover have "?v ! parent j \<le> ?v ! c" if c: "0 < c" "c < n" "parent c = j" for c
  proof -
    have "j < c" using parent_less [OF c(1)] c(3) by simp
    then have "?v ! c = v ! c" "v ! j \<le> v ! c" using A [OF c(1,2)] c(3) nth [of c] ij by simp_all
    moreover have "?v ! parent j = v ! j" unfolding j(2) using nth [of i] ij by simp
    ultimately show ?thesis by simp
  qed
  moreover have "?v ! parent j \<le> ?v ! j" unfolding j(2) using nth [of i] nth [of j] j(5) ij by simp
  ultimately show ?thesis unfolding down_ok_def by blast
qed

lemma down_ok_stop:
  assumes "down_ok n v i" "\<And>c. 0 < c \<Longrightarrow> c < n \<Longrightarrow> parent c = i \<Longrightarrow> v ! i \<le> v ! c"
  shows "up_ok n v i"
proof -
  have "v ! parent c \<le> v ! c" if "0 < c" "c < n" "c \<noteq> i" for c
    using assms(1) assms(2) [OF that(1,2)] that unfolding down_ok_def by (cases "parent c = i") auto
  then show ?thesis using assms(1) unfolding down_ok_def up_ok_def by blast
qed

lemma down_ok_update:
  assumes "heap_upto n v" "n \<le> length v" "i < n"
  shows "down_ok n (v[i := x]) i"
proof -
  have A: "v ! parent c \<le> v ! c" if "0 < c" "c < n" for c using assms(1) that by (simp add: heap_upto_def)
  have "v[i := x] ! parent i \<le> v[i := x] ! c" if c: "0 < i" "0 < c" "c < n" "parent c = i" for c
  proof -
    have "parent i < i" "i < c" using c parent_less [of i] parent_less [of c] by simp_all
    then show ?thesis using order_trans [OF A [of i] A [of c, unfolded c(4)]] c by simp
  qed
  moreover have "v[i := x] ! parent c \<le> v[i := x] ! c" if "0 < c" "c < n" "c \<noteq> i" "parent c \<noteq> i" for c
    using A that by simp
  ultimately show ?thesis unfolding down_ok_def by blast
qed

lemma heap_root:
  assumes "heap_upto n v" "c < n"
  shows "v ! 0 \<le> v ! c"
  using assms(2)
proof (induction c rule: less_induct)
  case (less c)
  show ?case
  proof (cases "c = 0")
    case False
    then have "parent c < c" by (intro parent_less) simp
    then have "v ! 0 \<le> v ! parent c" using less by simp
    also have "\<dots> \<le> v ! c" using assms(1) less.prems False by (simp add: heap_upto_def)
    finally show ?thesis .
  qed simp
qed

section \<open>What the algorithms promise\<close>

text \<open>An implementation of \<open>heap.Interface\<close>, seen as the list of the values by which \<open>Less\<close> compares.\<close>

locale heap_interface =
  fixes Less :: "'s \<Rightarrow> nat \<Rightarrow> nat \<Rightarrow> bool" and Swap :: "'s \<Rightarrow> nat \<Rightarrow> nat \<Rightarrow> 's" and vals :: "'s \<Rightarrow> 'k::linorder list"
  assumes less_vals: "i < length (vals s) \<Longrightarrow> j < length (vals s) \<Longrightarrow> Less s i j \<longleftrightarrow> vals s ! i < vals s ! j"
    and vals_swap: "i < length (vals s) \<Longrightarrow> j < length (vals s) \<Longrightarrow> vals (Swap s i j) = swapped i j (vals s)"
begin

lemma up_keeps:
  assumes "Q s" "j < length (vals s)"
    and "\<And>s i j. Q s \<Longrightarrow> i < length (vals s) \<Longrightarrow> j < length (vals s) \<Longrightarrow> Q (Swap s i j)"
  shows "Q (heap_up Less Swap s j) \<and> length (vals (heap_up Less Swap s j)) = length (vals s)"
  using assms(1,2)
proof (induction j arbitrary: s rule: less_induct)
  case (less j)
  show ?case
  proof (cases "parent j = j \<or> \<not> Less s j (parent j)")
    case True
    then show ?thesis using less.prems by (simp add: heap_up_stop)
  next
    case False
    then have k: "parent j < j" by linarith
    then have "Q (Swap s (parent j) j)" "length (vals (Swap s (parent j) j)) = length (vals s)"
      using less.prems assms(3) by (simp_all add: vals_swap)
    then show ?thesis unfolding heap_up_move [of j Less s, OF False] using less.IH [OF k, of "Swap s (parent j) j"] k less.prems by simp
  qed
qed

lemma up_heap:
  assumes "up_ok (length (vals s)) (vals s) j" "j < length (vals s)"
  shows "heap_upto (length (vals s)) (vals (heap_up Less Swap s j))"
  using assms
proof (induction j arbitrary: s rule: less_induct)
  case (less j)
  show ?case
  proof (cases "parent j = j \<or> \<not> Less s j (parent j)")
    case True
    then have "vals s ! parent j \<le> vals s ! j" 
    proof (cases "j = 0")
      case False
      then have "parent j \<noteq> j" by linarith
      moreover have "parent j < length (vals s)" using less.prems(2) by linarith
      ultimately show ?thesis using True less.prems(2) less_vals [of j s "parent j"] by simp
    qed simp
    then have "heap_upto (length (vals s)) (vals s)" using less.prems(1) by (rule up_ok_done [rotated])
    then show ?thesis using True by (simp add: heap_up_stop)
  next
    case False
    then have k: "parent j < j" by linarith
    have v: "vals (Swap s (parent j) j) = swapped (parent j) j (vals s)" using less.prems(2) k by (intro vals_swap) simp_all
    have "up_ok (length (vals s)) (swapped (parent j) j (vals s)) (parent j)"
      using less.prems False k less_vals [of j s "parent j"] by (intro up_ok_swap) simp_all
    then show ?thesis unfolding heap_up_move [of j Less s, OF False] using less.IH [OF k, of "Swap s (parent j) j"] k less.prems(2) v by simp
  qed
qed

lemma down_keeps:
  assumes "Q s" "n \<le> length (vals s)"
    and "\<And>s i j. Q s \<Longrightarrow> i < n \<Longrightarrow> j < n \<Longrightarrow> n \<le> length (vals s) \<Longrightarrow> Q (Swap s i j)"
  shows "Q (fst (heap_down Less Swap s i n)) \<and> length (vals (fst (heap_down Less Swap s i n))) = length (vals s)"
  using assms(1,2)
proof (induction "n - i" arbitrary: s i rule: less_induct)
  case less
  let ?j = "heap_child Less s i n"
  show ?case
  proof (cases "n \<le> 2 * i + 1 \<or> \<not> Less s ?j i")
    case True
    then show ?thesis using less.prems by (simp add: heap_down_stop)
  next
    case False
    have j: "i < ?j" "?j < n" using False heap_child_cases [of Less s i n] by auto
    then have "Q (Swap s i ?j)" "length (vals (Swap s i ?j)) = length (vals s)"
      using less.prems assms(3) by (simp_all add: vals_swap)
    moreover have "n - ?j < n - i" using j by linarith
    ultimately show ?thesis unfolding heap_down_move [of n i Less s, OF False] using less.hyps [of ?j "Swap s i ?j"] less.prems(2) by simp
  qed
qed

lemma down_heap:
  assumes "heap_down Less Swap s i n = (s', i')" "down_ok n (vals s) i" "n \<le> length (vals s)"
  shows "i \<le> i' \<and> (i' = i \<longrightarrow> s' = s \<and> up_ok n (vals s) i) \<and> (i < i' \<longrightarrow> heap_upto n (vals s'))"
  using assms
proof (induction "n - i" arbitrary: s i rule: less_induct)
  case less
  let ?j = "heap_child Less s i n"
  have child: "c = 2 * i + 1 \<or> c = 2 * i + 2" if "0 < c" "parent c = i" for c using parent_iff that by blast
  have small: "vals s ! ?j \<le> vals s ! c" if c: "0 < c" "c < n" "parent c = i" for c
    using child [OF c(1,3)] c(2) less.prems(3) less_vals [of "2 * i + 2" s "2 * i + 1"] by (auto simp: heap_child_def Let_def)
  show ?case
  proof (cases "n \<le> 2 * i + 1 \<or> \<not> Less s ?j i")
    case True
    have "vals s ! i \<le> vals s ! c" if c: "0 < c" "c < n" "parent c = i" for c
    proof -
      have "\<not> n \<le> 2 * i + 1" using child [OF c(1,3)] c(2) by auto
      then have "\<not> Less s ?j i" using True by simp
      then have "vals s ! i \<le> vals s ! ?j" using less_vals [of ?j s i] less.prems(3) heap_child_cases [of Less s i n] \<open>\<not> n \<le> 2 * i + 1\<close> by auto
      also have "\<dots> \<le> vals s ! c" using small c less.prems(3) by simp
      finally show ?thesis .
    qed
    then show ?thesis using True less.prems down_ok_stop by (auto simp: heap_down_stop)
  next
    case False
    have j: "i < ?j" "?j < n" using False heap_child_cases [of Less s i n] by auto
    have v: "vals (Swap s i ?j) = swapped i ?j (vals s)" using j less.prems(3) by (intro vals_swap) simp_all
    have lt: "vals s ! ?j < vals s ! i" using False less_vals [of ?j s i] j less.prems(3) by simp
    have pj: "0 < ?j" "parent ?j = i" using heap_child_cases [of Less s i n] by auto
    have sw: "down_ok n (swapped i ?j (vals s)) ?j \<and> swapped i ?j (vals s) ! parent ?j \<le> swapped i ?j (vals s) ! ?j"
      using lt pj j(2) less.prems(2,3) small by (intro down_ok_swap) simp_all
    have "heap_down Less Swap (Swap s i ?j) ?j n = (s', i')" using less.prems(1) heap_down_move [of n i Less s, OF False] by simp
    from less.hyps [OF _ this] j sw v less.prems(3)
    have IH: "?j \<le> i' \<and> (i' = ?j \<longrightarrow> s' = Swap s i ?j \<and> up_ok n (vals (Swap s i ?j)) ?j) \<and> (?j < i' \<longrightarrow> heap_upto n (vals s'))" by simp
    have "heap_upto n (vals s')"
    proof (cases "i' = ?j")
      case True
      then show ?thesis using IH sw v up_ok_done [of n "vals s'" ?j] by simp
    next
      case False
      then show ?thesis using IH by simp
    qed
    then show ?thesis using IH j by simp
  qed
qed

end

text \<open>The whole interface, with \<open>Len\<close> and \<open>Push\<close>.\<close>

lemma up_ok_append: "heap_upto (length v) v \<Longrightarrow> up_ok (Suc (length v)) (v @ [x]) (length v)"
  using parent_less by (force simp: up_ok_def heap_upto_def nth_append)

lemma down_ok_root:
  assumes "heap_upto (Suc n) v" "n < length v"
  shows "down_ok n (swapped 0 n v) 0"
proof -
  have "swapped 0 n v ! parent c \<le> swapped 0 n v ! c" if c: "0 < c" "c < n" "parent c \<noteq> 0" for c
    using assms c parent_less [OF c(1)] by (simp add: heap_upto_def nth_list_update)
  then show ?thesis unfolding down_ok_def by blast
qed

locale heap_container = heap_interface Less Swap vals
  for Less :: "'s \<Rightarrow> nat \<Rightarrow> nat \<Rightarrow> bool" and Swap :: "'s \<Rightarrow> nat \<Rightarrow> nat \<Rightarrow> 's" and vals :: "'s \<Rightarrow> 'k::linorder list" +
  fixes Len :: "'s \<Rightarrow> nat" and Push :: "'s \<Rightarrow> 'e \<Rightarrow> 's" and weight :: "'s \<Rightarrow> 'e \<Rightarrow> 'k"
  assumes Len_vals: "Len s = length (vals s)"
    and Push_vals: "vals (Push s x) = vals s @ [weight s x]"
begin

lemma Push_heap:
  assumes "heap_upto (length (vals s)) (vals s)"
  shows "heap_upto (length (vals (heap_Push Less Swap Len Push s x))) (vals (heap_Push Less Swap Len Push s x))"
proof -
  let ?s = "Push s x"
  have "up_ok (length (vals ?s)) (vals ?s) (length (vals s))" using up_ok_append [OF assms] by (simp add: Push_vals)
  then have "heap_upto (length (vals ?s)) (vals (heap_up Less Swap ?s (length (vals s))))" by (rule up_heap) (simp add: Push_vals)
  moreover have "length (vals (heap_up Less Swap ?s (length (vals s)))) = length (vals ?s)"
    using up_keeps [of "\<lambda>_. True" ?s "length (vals s)"] by (simp add: Push_vals)
  ultimately show ?thesis by (simp add: heap_Push_def Let_def Len_vals Push_vals)
qed

lemma Fix_heap:
  assumes "down_ok (length (vals s)) (vals s) i" "i < length (vals s)"
  shows "heap_upto (length (vals (heap_Fix Less Swap Len s i))) (vals (heap_Fix Less Swap Len s i))"
proof -
  obtain s' i' where d: "heap_down Less Swap s i (length (vals s)) = (s', i')" by fastforce
  have l: "length (vals s') = length (vals s)" using down_keeps [of "\<lambda>_. True" s "length (vals s)" i] d by simp
  note dn = down_heap [OF d assms(1)]
  show ?thesis
  proof (cases "i < i'")
    case True
    then show ?thesis using dn d l by (simp add: heap_Fix_def Len_vals)
  next
    case False
    then have s': "i' = i" "s' = s" "up_ok (length (vals s)) (vals s) i" using dn by auto
    then have "heap_upto (length (vals s)) (vals (heap_up Less Swap s i))" using assms(2) by (intro up_heap)
    moreover have "length (vals (heap_up Less Swap s i)) = length (vals s)" using up_keeps [of "\<lambda>_. True" s i] assms(2) by simp
    ultimately show ?thesis using d s' by (simp add: heap_Fix_def Len_vals)
  qed
qed

lemma Pop_heap:
  assumes "heap_upto (Suc n) (vals s)" "length (vals s) = Suc n"
  shows "heap_upto n (vals (fst (heap_down Less Swap (Swap s 0 n) 0 n)))"
proof -
  obtain s' i' where d: "heap_down Less Swap (Swap s 0 n) 0 n = (s', i')" by fastforce
  have v: "vals (Swap s 0 n) = swapped 0 n (vals s)" using assms by (intro vals_swap) simp_all
  have "down_ok n (vals (Swap s 0 n)) 0" unfolding v using assms by (intro down_ok_root) simp_all
  from down_heap [OF d this] have "(i' = 0 \<longrightarrow> s' = Swap s 0 n \<and> up_ok n (vals s') 0) \<and> (0 < i' \<longrightarrow> heap_upto n (vals s'))"
    using v assms by auto
  then have "heap_upto n (vals s')" by (cases "i' = 0") (auto simp: up_ok_root)
  then show ?thesis using d by simp
qed

lemma Push_keeps:
  assumes "Q (Push s x)" "\<And>s i j. Q s \<Longrightarrow> i < length (vals s) \<Longrightarrow> j < length (vals s) \<Longrightarrow> Q (Swap s i j)"
  shows "Q (heap_Push Less Swap Len Push s x)"
  using up_keeps [of Q "Push s x" "length (vals s)"] assms by (simp add: heap_Push_def Let_def Len_vals Push_vals)

lemma Fix_keeps:
  assumes "Q s" "i < length (vals s)" "\<And>s i j. Q s \<Longrightarrow> i < length (vals s) \<Longrightarrow> j < length (vals s) \<Longrightarrow> Q (Swap s i j)"
  shows "Q (heap_Fix Less Swap Len s i)"
proof -
  obtain s' i' where d: "heap_down Less Swap s i (length (vals s)) = (s', i')" by fastforce
  have "(Q s' \<and> length (vals s') = length (vals s))"
    using down_keeps [of "\<lambda>u. Q u \<and> length (vals u) = length (vals s)" s "length (vals s)" i] d assms by (simp add: vals_swap)
  then have "Q (heap_up Less Swap s' i)" "Q s'" using up_keeps [of Q s' i] assms(2,3) by simp_all
  then show ?thesis using d by (simp add: heap_Fix_def Len_vals)
qed

end

end
