(* ===== verification/Go_Time.thy ===== *)
theory Go_Time
  imports Go_Prelude "HOL-Library.Signed_Division"
begin

text \<open>
  Go's \<open>int64\<close> as integers whose results go through \<open>wrap64\<close>, and what the sources use of package \<open>time\<close>: a
  moment is a number of nanoseconds, a duration an \<open>int64\<close> of nanoseconds, \<open>Time.Sub\<close> saturates.
\<close>

definition wrap64 :: "int \<Rightarrow> int" where
  "wrap64 x = (x + 2 ^ 63) mod 2 ^ 64 - 2 ^ 63"

type_synonym int64 = int
type_synonym Duration = int
type_synonym Time = int

definition time_Sub :: "Time \<Rightarrow> Time \<Rightarrow> Duration" where
  "time_Sub t u = (if t - u < - (2 ^ 63) then - (2 ^ 63) else if t - u > 2 ^ 63 - 1 then 2 ^ 63 - 1 else t - u)"

definition time_Add :: "Time \<Rightarrow> Duration \<Rightarrow> Time" where
  "time_Add t d = t + d"

lemma wrap64_id [simp]: "- (2 ^ 63) \<le> x \<Longrightarrow> x < 2 ^ 63 \<Longrightarrow> wrap64 x = x"
  by (simp add: wrap64_def)

lemma sdiv_nonneg: "0 \<le> a \<Longrightarrow> 0 < b \<Longrightarrow> a sdiv b = a div (b :: int)"
  by (cases "a = 0") (simp_all add: signed_divide_int_def)

end
