(* ===== verification/Delaying_Queue.thy ===== *)
theory Delaying_Queue
  imports Workqueue Go_Heap Go_Time "HOL-Library.Multiset"
begin

text \<open>
  The delaying queue (k8s.io/client-go/util/workqueue/delaying_queue.go): a work queue with \<open>AddAfter\<close>. A waiting
  loop receives entries from a channel, keeps them in a priority queue by the time they are ready, and adds
  them to the work queue then. Entries are shared by pointer between the channel, the heap and the map
  \<open>waitingEntryByData\<close>, so they live in a store. The clock is a component of the state that only moves forward;
  timers may fire at any moment at which they are allowed to.
\<close>

section \<open>The priority queue\<close>

type_synonym addr = nat

record 't waitFor =
  data :: 't
  readyAt :: Time
  index :: int

record 't waitForPriorityQueue =
  entries :: "addr \<Rightarrow> 't waitFor"
  items :: "addr list"

abbreviation ready :: "'t waitForPriorityQueue \<Rightarrow> addr \<Rightarrow> Time" where
  "ready pq a \<equiv> readyAt (entries pq a)"

abbreviation item :: "'t waitForPriorityQueue \<Rightarrow> addr \<Rightarrow> 't" where
  "item pq a \<equiv> data (entries pq a)"

definition pq_Len :: "'t waitForPriorityQueue \<Rightarrow> nat" where
  "pq_Len pq = length (items pq)"

definition pq_Less :: "'t waitForPriorityQueue \<Rightarrow> nat \<Rightarrow> nat \<Rightarrow> bool" where
  "pq_Less pq i j \<longleftrightarrow> ready pq (items pq ! i) < ready pq (items pq ! j)"

definition set_index :: "(addr \<Rightarrow> 't waitFor) \<Rightarrow> addr \<Rightarrow> int \<Rightarrow> addr \<Rightarrow> 't waitFor" where
  "set_index es a k = es(a := (es a)\<lparr>index := k\<rparr>)"

definition pq_Swap :: "'t waitForPriorityQueue \<Rightarrow> nat \<Rightarrow> nat \<Rightarrow> 't waitForPriorityQueue" where
  "pq_Swap pq i j =
     (let xs = (items pq)[i := items pq ! j, j := items pq ! i]
      in pq\<lparr>items := xs, entries := set_index (set_index (entries pq) (xs ! i) (int i)) (xs ! j) (int j)\<rparr>)"

definition pq_Push :: "'t waitForPriorityQueue \<Rightarrow> addr \<Rightarrow> 't waitForPriorityQueue" where
  "pq_Push pq x =
     (let n = length (items pq)
      in pq\<lparr>entries := set_index (entries pq) x (int n), items := items pq @ [x]\<rparr>)"

definition pq_Pop :: "'t waitForPriorityQueue \<Rightarrow> 't waitForPriorityQueue \<times> addr" where
  "pq_Pop pq =
     (let n = length (items pq); x = items pq ! (n - 1)
      in (pq\<lparr>entries := set_index (entries pq) x (-1), items := take (n - 1) (items pq)\<rparr>, x))"

definition pq_Peek :: "'t waitForPriorityQueue \<Rightarrow> addr" where
  "pq_Peek pq = items pq ! 0"

text \<open>
  \<open>insert\<close>. A position below 0 marks an entry that left the heap: \<open>heap.Fix\<close> at -1 would find no child and be its
  own parent, and change nothing.
\<close>

definition pq_Fix :: "'t waitForPriorityQueue \<Rightarrow> int \<Rightarrow> 't waitForPriorityQueue" where
  "pq_Fix pq i = (if i < 0 then pq else heap_Fix pq_Less pq_Swap pq_Len pq (nat i))"

definition insert_entry :: "'t waitForPriorityQueue \<Rightarrow> ('t \<rightharpoonup> addr) \<Rightarrow> addr \<Rightarrow> 't waitForPriorityQueue \<times> ('t \<rightharpoonup> addr)" where
  "insert_entry pq known entry =
     (case known (item pq entry) of
        Some existing \<Rightarrow>
          if ready pq existing > ready pq entry
          then let pq = pq\<lparr>entries := (entries pq)(existing := (entries pq existing)\<lparr>readyAt := ready pq entry\<rparr>)\<rparr>
               in (pq_Fix pq (index (entries pq existing)), known)
          else (pq, known)
      | None \<Rightarrow> (heap_Push pq_Less pq_Swap pq_Len pq_Push pq entry, known(item pq entry \<mapsto> entry)))"

definition pop_entry :: "'t waitForPriorityQueue \<Rightarrow> 't waitForPriorityQueue \<times> addr" where
  "pop_entry pq = heap_Pop pq_Less pq_Swap pq_Len pq_Pop pq"

section \<open>What the priority queue does\<close>

definition times :: "'t waitForPriorityQueue \<Rightarrow> Time list" where
  "times pq = map (ready pq) (items pq)"

lemma length_times [simp]: "length (times pq) = length (items pq)"
  by (simp add: times_def)

lemma ready_set_index [simp]:
  "readyAt (set_index es a k b) = readyAt (es b)" "data (set_index es a k b) = data (es b)"
  "index (set_index es a k b) = (if b = a then k else index (es b))"
  by (simp_all add: set_index_def)

lemma pq_Swap_fields [simp]:
  "items (pq_Swap pq i j) = swapped i j (items pq)" "ready (pq_Swap pq i j) a = ready pq a" "item (pq_Swap pq i j) a = item pq a"
  by (simp_all add: pq_Swap_def Let_def)

lemma times_swap: "i < length (items pq) \<Longrightarrow> j < length (items pq) \<Longrightarrow> times (pq_Swap pq i j) = swapped i j (times pq)"
  by (simp add: times_def map_update)

interpretation hp: heap_container pq_Less pq_Swap times pq_Len pq_Push "\<lambda>pq a. ready pq a"
proof unfold_locales
  show "pq_Less s i j = (times s ! i < times s ! j)" if "i < length (times s)" "j < length (times s)" for i j and s :: "'t waitForPriorityQueue"
    using that by (simp add: pq_Less_def times_def)
  show "times (pq_Swap s i j) = swapped i j (times s)" if "i < length (times s)" "j < length (times s)" for i j and s :: "'t waitForPriorityQueue"
    using that by (simp add: times_swap)
qed (simp_all add: pq_Len_def times_def pq_Push_def Let_def)

text \<open>Every entry of the heap knows its position; heap operations keep the entries and all but their positions.\<close>

definition index_ok :: "'t waitForPriorityQueue \<Rightarrow> bool" where
  "index_ok pq \<longleftrightarrow> distinct (items pq) \<and> (\<forall>i < length (items pq). index (entries pq (items pq ! i)) = int i)"

definition same_entries :: "'t waitForPriorityQueue \<Rightarrow> 't waitForPriorityQueue \<Rightarrow> bool" where
  "same_entries pq pq' \<longleftrightarrow> mset (items pq') = mset (items pq) \<and> (\<forall>a. ready pq' a = ready pq a \<and> item pq' a = item pq a)"

lemma swap_mset: "i < length xs \<Longrightarrow> j < length xs \<Longrightarrow> mset (swapped i j xs) = mset xs"
  by (rule mset_swap)

lemma index_ok_swap:
  assumes "index_ok pq" "i < length (items pq)" "j < length (items pq)"
  shows "index_ok (pq_Swap pq i j)"
proof -
  define xs where "xs = swapped i j (items pq)"
  have ix: "index (entries pq (items pq ! k)) = int k" if "k < length (items pq)" for k using assms(1) that by (simp add: index_ok_def)
  have dx: "distinct xs" "length xs = length (items pq)" using assms by (simp_all add: xs_def index_ok_def distinct_swap)
  have "index (entries (pq_Swap pq i j) (xs ! k)) = int k" if k: "k < length (items pq)" for k
  proof -
    have e: "xs ! k = xs ! l \<longleftrightarrow> k = l" if "l < length (items pq)" for l using nth_eq_iff_index_eq [OF dx(1)] that k dx(2) by simp
    have "index (entries (pq_Swap pq i j) (xs ! k)) = (if k = j then int j else if k = i then int i else index (entries pq (xs ! k)))"
      unfolding pq_Swap_def Let_def xs_def [symmetric] using e [OF assms(2)] e [OF assms(3)] by simp
    moreover have "xs ! k = items pq ! k" if "k \<noteq> i" "k \<noteq> j" using that by (simp add: xs_def)
    ultimately show ?thesis using ix [OF k] by simp
  qed
  then show ?thesis using dx by (simp add: index_ok_def xs_def)
qed

lemma same_entries_swap:
  "same_entries pq0 pq \<Longrightarrow> i < length (items pq) \<Longrightarrow> j < length (items pq) \<Longrightarrow> same_entries pq0 (pq_Swap pq i j)"
  by (simp add: same_entries_def swap_mset)


text \<open>The heap at rest.\<close>

definition pq_ok :: "'t waitForPriorityQueue \<Rightarrow> bool" where
  "pq_ok pq \<longleftrightarrow> index_ok pq \<and> heap_upto (length (items pq)) (times pq)"

lemma same_refl [simp]: "same_entries pq pq"
  by (simp add: same_entries_def)

lemma kept_swap:
  assumes "index_ok s \<and> same_entries pq s" "i < length (times s)" "j < length (times s)"
  shows "index_ok (pq_Swap s i j) \<and> same_entries pq (pq_Swap s i j)"
  using assms index_ok_swap same_entries_swap by auto

lemma push_ok:
  assumes "pq_ok pq" "a \<notin> set (items pq)"
  shows "pq_ok (heap_Push pq_Less pq_Swap pq_Len pq_Push pq a)"
    "same_entries (pq_Push pq a) (heap_Push pq_Less pq_Swap pq_Len pq_Push pq a)"
proof -
  let ?Q = "\<lambda>s. index_ok s \<and> same_entries (pq_Push pq a) s"
  have "index_ok (pq_Push pq a)" using assms by (auto simp: pq_ok_def index_ok_def pq_Push_def Let_def nth_append in_set_conv_nth)
  then have k: "?Q (heap_Push pq_Less pq_Swap pq_Len pq_Push pq a)" using kept_swap by (intro hp.Push_keeps [of ?Q]) auto
  then show "same_entries (pq_Push pq a) (heap_Push pq_Less pq_Swap pq_Len pq_Push pq a)" by simp
  show "pq_ok (heap_Push pq_Less pq_Swap pq_Len pq_Push pq a)"
    using k hp.Push_heap [of pq a] assms(1) by (simp add: pq_ok_def)
qed

text \<open>Moving one entry forward or back in time and fixing the heap at its position.\<close>

lemma fix_ok:
  fixes r :: Time
  assumes "pq_ok pq" "a \<in> set (items pq)"
  defines "pq1 \<equiv> pq\<lparr>entries := (entries pq)(a := (entries pq a)\<lparr>readyAt := r\<rparr>)\<rparr>"
  shows "pq_ok (pq_Fix pq1 (index (entries pq1 a)))" "same_entries pq1 (pq_Fix pq1 (index (entries pq1 a)))"
proof -
  let ?Q = "\<lambda>s. index_ok s \<and> same_entries pq1 s"
  obtain i where i: "i < length (items pq)" "items pq ! i = a" using assms(2) by (auto simp: in_set_conv_nth)
  have dist: "distinct (items pq)" using assms(1) by (simp add: pq_ok_def index_ok_def)
  have ix: "index (entries pq1 a) = int i" using assms(1) i by (auto simp: pq1_def pq_ok_def index_ok_def)
  have t: "times pq1 = (times pq)[i := r]"
    using i dist by (intro nth_equalityI) (auto simp: times_def pq1_def nth_list_update nth_eq_iff_index_eq)
  have ok1: "index_ok pq1" using assms(1) by (auto simp: pq1_def pq_ok_def index_ok_def)
  have dn: "down_ok (length (times pq1)) (times pq1) i"
    using down_ok_update [of "length (items pq)" "times pq" i r] assms(1) i by (simp add: t pq_ok_def)
  let ?f = "heap_Fix pq_Less pq_Swap pq_Len pq1 i"
  have k: "?Q ?f" using ok1 kept_swap i by (intro hp.Fix_keeps [of ?Q]) (auto simp: pq1_def)
  have h: "heap_upto (length (items ?f)) (times ?f)" using hp.Fix_heap [OF dn] i t by simp
  have "pq_Fix pq1 (index (entries pq1 a)) = ?f" by (simp add: pq_Fix_def ix)
  then show "pq_ok (pq_Fix pq1 (index (entries pq1 a)))" "same_entries pq1 (pq_Fix pq1 (index (entries pq1 a)))"
    using k h by (simp_all add: pq_ok_def)
qed

text \<open>Popping takes out the first entry, which is one that is ready first.\<close>

lemma peek_first:
  assumes "pq_ok pq" "a \<in> set (items pq)"
  shows "ready pq (pq_Peek pq) \<le> ready pq a"
proof -
  obtain i where i: "i < length (items pq)" "items pq ! i = a" using assms(2) by (auto simp: in_set_conv_nth)
  have "times pq ! 0 \<le> times pq ! i" using assms(1) i by (intro heap_root) (auto simp: pq_ok_def)
  moreover have "times pq ! 0 = ready pq (items pq ! 0)" using i by (simp add: times_def, subst nth_map) auto
  ultimately show ?thesis using i by (simp add: times_def pq_Peek_def)
qed

lemma pop_ok:
  assumes "pq_ok pq" "items pq \<noteq> []" "pop_entry pq = (pq', a)"
  shows "pq_ok pq' \<and> a = pq_Peek pq \<and> mset (items pq) = add_mset a (mset (items pq')) \<and>
    (\<forall>b. ready pq' b = ready pq b \<and> item pq' b = item pq b)"
proof -
  obtain n where n: "length (items pq) = Suc n" using assms(2) by (cases "items pq") auto
  let ?s = "pq_Swap pq 0 n"
  let ?d = "fst (heap_down pq_Less pq_Swap ?s 0 n)"
  let ?Q = "\<lambda>s. index_ok s \<and> same_entries pq s \<and> items s ! n = items pq ! 0"
  have s: "?Q ?s" using index_ok_swap [of pq 0 n] same_entries_swap [of pq pq 0 n] assms(1) n by (simp add: pq_ok_def nth_list_update)
  have "?Q ?d \<and> length (times ?d) = length (times ?s)"
  proof (rule hp.down_keeps [of ?Q])
    fix u :: "'a waitForPriorityQueue" and i j
    assume "?Q u" "i < n" "j < n" "n \<le> length (times u)"
    then show "?Q (pq_Swap u i j)" using index_ok_swap [of u i j] same_entries_swap [of pq u i j] by (simp add: nth_list_update)
  qed (use s n in simp_all)
  then have d: "index_ok ?d" "same_entries pq ?d" "items ?d ! n = items pq ! 0" "length (items ?d) = Suc n" using n by simp_all
  have r: "pq' = ?d\<lparr>entries := set_index (entries ?d) a (-1), items := take n (items ?d)\<rparr>" "a = items ?d ! n"
    using assms(3) d(4) n by (auto simp: pop_entry_def heap_Pop_def pq_Pop_def pq_Len_def Let_def)
  have split: "items ?d = take n (items ?d) @ [a]" using d(4) r(2) by (metis take_Suc_conv_app_nth lessI order_refl take_all)
  have fld: "ready pq' b = ready pq b" "item pq' b = item pq b" for b using d(2) r(1) by (simp_all add: same_entries_def)
  have "mset (items pq) = mset (take n (items ?d) @ [a])" using d(2) split by (simp add: same_entries_def)
  then have ms: "mset (items pq) = add_mset a (mset (items pq'))" using r(1) by simp
  have "times pq' = take n (times ?d)" using r(1) by (simp add: times_def take_map)
  moreover have "heap_upto n (times ?d)" using hp.Pop_heap [of n pq] assms(1) n by (simp add: pq_ok_def)
  ultimately have h: "heap_upto n (times pq')" using d(4) by (auto simp: heap_upto_def)
  have "a \<notin> set (take n (items ?d))" using d(1) split by (metis distinct_append index_ok_def disjoint_iff list.set_intros(1))
  then have "index_ok pq'" using d(1,4) r(1) by (auto simp: index_ok_def in_set_conv_nth)
  then show ?thesis using h ms fld r d(3,4) by (simp add: pq_ok_def pq_Peek_def)
qed


text \<open>What \<open>insert\<close> does: a new item is put into the heap, a known one is ready at the earlier of the two times.\<close>

definition known_ok :: "'t waitForPriorityQueue \<Rightarrow> ('t \<rightharpoonup> addr) \<Rightarrow> bool" where
  "known_ok pq known \<longleftrightarrow> (\<forall>x a. known x = Some a \<longleftrightarrow> a \<in> set (items pq) \<and> item pq a = x)"

lemma insert_ok:
  assumes "pq_ok pq" "known_ok pq known" "a \<notin> set (items pq)" "insert_entry pq known a = (pq', known')"
  shows "pq_ok pq' \<and> known_ok pq' known' \<and> (\<forall>b. item pq' b = item pq b) \<and>
    (\<forall>b. ready pq' b = (if known (item pq a) = Some b then min (ready pq a) (ready pq b) else ready pq b)) \<and>
    set (items pq') = (if known (item pq a) = None then insert a (set (items pq)) else set (items pq)) \<and>
    (\<exists>b. known' (item pq a) = Some b \<and> ready pq' b \<le> ready pq a)"
proof (cases "known (item pq a)")
  case None
  then have r: "pq' = heap_Push pq_Less pq_Swap pq_Len pq_Push pq a" "known' = known(item pq a \<mapsto> a)"
    using assms(4) by (simp_all add: insert_entry_def)
  note p = push_ok [OF assms(1,3), folded r(1)]
  have f: "ready pq' b = ready pq b" "item pq' b = item pq b" for b using p(2) by (simp_all add: same_entries_def pq_Push_def Let_def)
  have st: "set (items pq') = insert a (set (items pq))" using p(2) mset_eq_setD [of "items pq'" "items (pq_Push pq a)"] by (simp add: same_entries_def pq_Push_def Let_def)
  have no: "item pq b \<noteq> item pq a" if "b \<in> set (items pq)" for b using that assms(2) None by (metis known_ok_def option.distinct(1))
  have "known_ok pq' known'" unfolding known_ok_def
  proof (intro allI)
    fix x b
    show "(known' x = Some b) = (b \<in> set (items pq') \<and> item pq' b = x)"
      using assms(2,3) None no unfolding known_ok_def r(2) f st by (cases "x = item pq a") auto
  qed
  then show ?thesis using p(1) f st None r(2) by simp
next
  case (Some e)
  then have e: "e \<in> set (items pq)" "item pq e = item pq a" using assms(2) by (simp_all add: known_ok_def)
  show ?thesis
  proof (cases "ready pq e > ready pq a")
    case True
    define pq1 where "pq1 = pq\<lparr>entries := (entries pq)(e := (entries pq e)\<lparr>readyAt := ready pq a\<rparr>)\<rparr>"
    have r: "pq' = pq_Fix pq1 (index (entries pq1 e))" "known' = known"
      using assms(4) Some True by (simp_all add: insert_entry_def Let_def pq1_def)
    note p = fix_ok [OF assms(1) e(1), of "ready pq a", folded pq1_def, folded r(1)]
    have f: "ready pq' b = (if b = e then ready pq a else ready pq b)" "item pq' b = item pq b" for b
      using p(2) by (simp_all add: same_entries_def pq1_def)
    have st: "set (items pq') = set (items pq)" using p(2) mset_eq_setD [of "items pq'" "items pq1"] by (simp add: same_entries_def pq1_def)
    have "known_ok pq' known'" using assms(2) by (simp add: known_ok_def f st r(2))
    then show ?thesis using p(1) f st Some True r(2) by simp
  next
    case False
    then have "pq' = pq" "known' = known" using assms(4) Some by (simp_all add: insert_entry_def)
    then show ?thesis using False assms(1,2) Some by (auto simp: min_def)
  qed
qed

section \<open>The waiting loop and its clients\<close>

text \<open>
  Where the goroutine of \<open>waitingLoop\<close> is: before the check of \<open>ShuttingDown\<close>, adding what is ready at a reading
  of the clock, in the \<open>select\<close>, in the loop that drains the channel, or at its end.
\<close>

datatype loop = Top | AddReady Time | Selecting Time | Draining | Ended

text \<open>
  The queue with its workers, the loop's local variables, the channels, and the clients of \<open>AddAfter\<close>: those
  past the check of \<open>ShuttingDown\<close> and those blocked in the \<open>select\<close>, each with its entry; \<open>closers\<close> counts the calls
  of \<open>ShutDown\<close> that have yet to close \<open>stopCh\<close>.
\<close>

record ('w, 't) delayingType =
  sys :: "('w, 't) system"
  pq :: "'t waitForPriorityQueue"
  known :: "'t \<rightharpoonup> addr"
  waitingForAddCh :: "addr list"
  stopCh :: bool
  closers :: nat
  checked :: "('t \<times> Duration) list"
  blocked :: "addr list"
  fresh :: addr
  clk :: Time
  pc :: loop

datatype ('w, 't) dq_event = Wq "('w, 't) event" | Asked 't Time | AddedAt 't Time | Tau

definition new_entry :: "'t waitForPriorityQueue \<Rightarrow> addr \<Rightarrow> 't \<Rightarrow> Time \<Rightarrow> 't waitForPriorityQueue" where
  "new_entry q a x r = q\<lparr>entries := (entries q)(a := \<lparr>data = x, readyAt = r, index = 0\<rparr>)\<rparr>"

text \<open>
  One step of some goroutine. Closing \<open>stopCh\<close> twice panics, so there is no such step. Both \<open>select\<close>s of the loop
  treat an entry they receive the same way.
\<close>

inductive dq_step :: "('w, 't) delayingType \<Rightarrow> ('w, 't) dq_event \<Rightarrow> ('w, 't) delayingType \<Rightarrow> bool" where
  clock: "clk d \<le> t \<Longrightarrow> dq_step d Tau (d\<lparr>clk := t\<rparr>)"
| queue_call: "wq_step (sys d) e s \<Longrightarrow> e \<noteq> Shut \<Longrightarrow> dq_step d (Wq e) (d\<lparr>sys := s\<rparr>)"
| shut_down: "wq_step (sys d) Shut s \<Longrightarrow> dq_step d (Wq Shut) (d\<lparr>sys := s, closers := Suc (closers d)\<rparr>)"
| close: "closers d = Suc n \<Longrightarrow> \<not> stopCh d \<Longrightarrow> dq_step d Tau (d\<lparr>closers := n, stopCh := True\<rparr>)"
| after_check: "\<not> ShuttingDown (fst (sys d)) \<Longrightarrow> dq_step d Tau (d\<lparr>checked := (x, dur) # checked d\<rparr>)"
| after_now: "(x, dur) \<in> set (checked d) \<Longrightarrow> dur \<le> 0 \<Longrightarrow> wq_step (sys d) (Added x) s \<Longrightarrow>
    dq_step d (Wq (Added x)) (d\<lparr>sys := s, checked := remove1 (x, dur) (checked d)\<rparr>)"
| after_select: "(x, dur) \<in> set (checked d) \<Longrightarrow> \<not> dur \<le> 0 \<Longrightarrow> r = time_Add (clk d) dur \<Longrightarrow>
    dq_step d (Asked x r) (d\<lparr>checked := remove1 (x, dur) (checked d), pq := new_entry (pq d) (fresh d) x r,
      blocked := blocked d @ [fresh d], fresh := Suc (fresh d)\<rparr>)"
| after_send: "a \<in> set (blocked d) \<Longrightarrow> length (waitingForAddCh d) < 1000 \<Longrightarrow>
    dq_step d Tau (d\<lparr>blocked := remove1 a (blocked d), waitingForAddCh := waitingForAddCh d @ [a]\<rparr>)"
| after_stop: "a \<in> set (blocked d) \<Longrightarrow> stopCh d \<Longrightarrow> dq_step d Tau (d\<lparr>blocked := remove1 a (blocked d)\<rparr>)"
| loop_end: "pc d = Top \<Longrightarrow> ShuttingDown (fst (sys d)) \<Longrightarrow> dq_step d Tau (d\<lparr>pc := Ended\<rparr>)"
| loop_now: "pc d = Top \<Longrightarrow> \<not> ShuttingDown (fst (sys d)) \<Longrightarrow> dq_step d Tau (d\<lparr>pc := AddReady (clk d)\<rparr>)"
| loop_add: "pc d = AddReady now \<Longrightarrow> pq_Len (pq d) > 0 \<Longrightarrow> \<not> ready (pq d) (pq_Peek (pq d)) > now \<Longrightarrow>
    pop_entry (pq d) = (q, a) \<Longrightarrow> wq_step (sys d) (Added (item q a)) s \<Longrightarrow>
    dq_step d (AddedAt (item q a) now) (d\<lparr>pq := q, sys := s, known := (known d)(item q a := None)\<rparr>)"
| loop_select: "pc d = AddReady now \<Longrightarrow> \<not> (pq_Len (pq d) > 0 \<and> \<not> ready (pq d) (pq_Peek (pq d)) > now) \<Longrightarrow>
    dq_step d Tau (d\<lparr>pc := Selecting now\<rparr>)"
| loop_stop: "pc d = Selecting now \<Longrightarrow> stopCh d \<Longrightarrow> dq_step d Tau (d\<lparr>pc := Ended\<rparr>)"
| loop_heartbeat: "pc d = Selecting now \<Longrightarrow> dq_step d Tau (d\<lparr>pc := Top\<rparr>)"
| loop_timer: "pc d = Selecting now \<Longrightarrow> pq_Len (pq d) > 0 \<Longrightarrow> ready (pq d) (pq_Peek (pq d)) \<le> clk d \<Longrightarrow> dq_step d Tau (d\<lparr>pc := Top\<rparr>)"
| loop_insert: "pc d = Selecting now \<or> pc d = Draining \<Longrightarrow> waitingForAddCh d = a # rest \<Longrightarrow> ready (pq d) a > clk d \<Longrightarrow>
    insert_entry (pq d) (known d) a = (q, k) \<Longrightarrow>
    dq_step d Tau (d\<lparr>waitingForAddCh := rest, pq := q, known := k, pc := Draining\<rparr>)"
| loop_add_now: "pc d = Selecting now \<or> pc d = Draining \<Longrightarrow> waitingForAddCh d = a # rest \<Longrightarrow> \<not> ready (pq d) a > clk d \<Longrightarrow>
    wq_step (sys d) (Added (item (pq d) a)) s \<Longrightarrow>
    dq_step d (AddedAt (item (pq d) a) (clk d)) (d\<lparr>waitingForAddCh := rest, sys := s, pc := Draining\<rparr>)"
| loop_drained: "pc d = Draining \<Longrightarrow> waitingForAddCh d = [] \<Longrightarrow> dq_step d Tau (d\<lparr>pc := Top\<rparr>)"

inductive dq_steps :: "('w, 't) delayingType \<Rightarrow> ('w, 't) dq_event list \<Rightarrow> ('w, 't) delayingType \<Rightarrow> bool" where
  dq_none: "dq_steps d [] d"
| dq_more: "dq_steps d es d' \<Longrightarrow> dq_step d' e d'' \<Longrightarrow> dq_steps d (es @ [e]) d''"

text \<open>A new queue, at any time and with any store.\<close>

definition newDelayingQueue :: "(addr \<Rightarrow> 't waitFor) \<Rightarrow> Time \<Rightarrow> ('w, 't) delayingType" where
  "newDelayingQueue es t =
     \<lparr>sys = wq_start, pq = \<lparr>entries = es, items = []\<rparr>, known = Map.empty, waitingForAddCh = [], stopCh = False,
      closers = 0, checked = [], blocked = [], fresh = 0, clk = t, pc = Top\<rparr>"

section \<open>What was asked for\<close>

text \<open>The items and times that were asked for with no addition of the item since.\<close>

fun owe :: "('t \<times> Time) set \<Rightarrow> ('w, 't) dq_event \<Rightarrow> ('t \<times> Time) set" where
  "owe S (Asked x r) = insert (x, r) S"
| "owe S (AddedAt x now) = {(y, r) \<in> S. y \<noteq> x}"
| "owe S _ = S"

definition owed :: "('w, 't) dq_event list \<Rightarrow> ('t \<times> Time) set" where
  "owed tr = foldl owe {} tr"

text \<open>Nothing is added before some time it was asked for.\<close>

definition never_early :: "('w, 't) dq_event list \<Rightarrow> bool" where
  "never_early tr \<longleftrightarrow> (\<forall>tr1 x now tr2. tr = tr1 @ AddedAt x now # tr2 \<longrightarrow> (\<exists>r. Asked x r \<in> set tr1 \<and> r \<le> now))"

text \<open>Entries on their way to the loop: in the channel, or with a client that is about to send it.\<close>

definition in_transit :: "('w, 't) delayingType \<Rightarrow> addr set" where
  "in_transit d = set (waitingForAddCh d) \<union> set (blocked d)"


definition store_ok :: "('w, 't) delayingType \<Rightarrow> bool" where
  "store_ok d \<longleftrightarrow> pq_ok (pq d) \<and> known_ok (pq d) (known d) \<and> distinct (waitingForAddCh d @ blocked d) \<and>
     set (items (pq d)) \<inter> in_transit d = {} \<and> (\<forall>a \<in> set (items (pq d)) \<union> in_transit d. a < fresh d)"

definition asked_ok :: "('w, 't) dq_event list \<Rightarrow> ('w, 't) delayingType \<Rightarrow> bool" where
  "asked_ok tr d \<longleftrightarrow> (\<forall>a \<in> set (items (pq d)) \<union> in_transit d. Asked (item (pq d) a) (ready (pq d) a) \<in> set tr)"

definition covered :: "('w, 't) delayingType \<Rightarrow> 't \<Rightarrow> Time \<Rightarrow> bool" where
  "covered d x r \<longleftrightarrow> (\<exists>a \<in> in_transit d. item (pq d) a = x \<and> ready (pq d) a = r) \<or> (\<exists>a. known d x = Some a \<and> ready (pq d) a \<le> r)"

lemma covered_transit: "a \<in> in_transit d \<Longrightarrow> item (pq d) a = x \<Longrightarrow> ready (pq d) a = r \<Longrightarrow> covered d x r"
  unfolding covered_def by blast

lemma covered_known: "known d x = Some a \<Longrightarrow> ready (pq d) a \<le> r \<Longrightarrow> covered d x r"
  unfolding covered_def by blast

definition owed_ok :: "('w, 't) dq_event list \<Rightarrow> ('w, 't) delayingType \<Rightarrow> bool" where
  "owed_ok tr d \<longleftrightarrow> (\<forall>x r. (x, r) \<in> owed tr \<longrightarrow> covered d x r)"

definition select_ok :: "('w, 't) delayingType \<Rightarrow> bool" where
  "select_ok d \<longleftrightarrow> (\<forall>now. pc d = Selecting now \<longrightarrow> (\<forall>a \<in> set (items (pq d)). now < ready (pq d) a))"

definition dq_inv :: "('w, 't) dq_event list \<Rightarrow> ('w, 't) delayingType \<Rightarrow> bool" where
  "dq_inv tr d \<longleftrightarrow> store_ok d \<and> asked_ok tr d \<and> (stopCh d \<or> owed_ok tr d) \<and> select_ok d \<and> never_early tr"

lemma owed_snoc [simp]: "owed (tr @ [e]) = owe (owed tr) e"
  by (simp add: owed_def)

lemma never_early_snoc:
  "never_early (tr @ [e]) \<longleftrightarrow> never_early tr \<and> (\<forall>x now. e = AddedAt x now \<longrightarrow> (\<exists>r. Asked x r \<in> set tr \<and> r \<le> now))"
proof
  assume n: "never_early (tr @ [e])"
  have "never_early tr" unfolding never_early_def
  proof (intro allI impI)
    fix tr1 x now tr2
    assume "tr = tr1 @ AddedAt x now # tr2"
    then show "\<exists>r. Asked x r \<in> set tr1 \<and> r \<le> now" using n [unfolded never_early_def, rule_format, of tr1 x now "tr2 @ [e]"] by simp
  qed
  moreover have "\<exists>r. Asked x r \<in> set tr \<and> r \<le> now" if "e = AddedAt x now" for x now
    using n [unfolded never_early_def, rule_format, of tr x now "[]"] that by simp
  ultimately show "never_early tr \<and> (\<forall>x now. e = AddedAt x now \<longrightarrow> (\<exists>r. Asked x r \<in> set tr \<and> r \<le> now))" by blast
next
  assume n: "never_early tr \<and> (\<forall>x now. e = AddedAt x now \<longrightarrow> (\<exists>r. Asked x r \<in> set tr \<and> r \<le> now))"
  show "never_early (tr @ [e])" unfolding never_early_def
  proof (intro allI impI)
    fix tr1 x now tr2
    assume eq: "tr @ [e] = tr1 @ AddedAt x now # tr2"
    show "\<exists>r. Asked x r \<in> set tr1 \<and> r \<le> now"
    proof (cases tr2 rule: rev_cases)
      case Nil
      then show ?thesis using eq n by simp
    next
      case (snoc us u)
      then have "tr = tr1 @ AddedAt x now # us" using eq by simp
      then show ?thesis using n unfolding never_early_def by blast
    qed
  qed
qed

text \<open>Steps that leave the entries alone.\<close>

lemma quiet_inv:
  assumes "dq_inv tr d" "e = Tau \<or> (\<exists>w. e = Wq w)" "pq d' = pq d" "known d' = known d" "in_transit d' = in_transit d"
    "distinct (waitingForAddCh d' @ blocked d')" "fresh d' = fresh d" "stopCh d \<Longrightarrow> stopCh d'" "select_ok d'"
  shows "dq_inv (tr @ [e]) d'"
proof -
  have "owed (tr @ [e]) = owed tr" "\<And>x now. e \<noteq> AddedAt x now" using assms(2) by auto
  then show ?thesis using assms unfolding dq_inv_def store_ok_def asked_ok_def owed_ok_def covered_def never_early_snoc by auto
qed


text \<open>A client of \<open>AddAfter\<close> makes its entry; one gives up.\<close>

lemma asked_inv:
  assumes inv: "dq_inv tr d" and d': "d' = d\<lparr>checked := c, pq := new_entry (pq d) (fresh d) x r, blocked := blocked d @ [fresh d], fresh := Suc (fresh d)\<rparr>"
  shows "dq_inv (tr @ [Asked x r]) d'"
proof -
  note i = inv [unfolded dq_inv_def store_ok_def]
  let ?S = "set (items (pq d)) \<union> in_transit d"
  have new: "fresh d \<notin> ?S" using i by blast
  have e: "entries (pq d') (fresh d) = \<lparr>data = x, readyAt = r, index = 0\<rparr>" "\<And>a. a \<in> ?S \<Longrightarrow> entries (pq d') a = entries (pq d) a"
    using new by (auto simp: d' new_entry_def)
  have sel: "items (pq d') = items (pq d)" "known d' = known d" "in_transit d' = insert (fresh d) (in_transit d)" "pc d' = pc d"
    by (auto simp: d' new_entry_def in_transit_def)
  have "times (pq d') = times (pq d)" using e(2) by (simp add: times_def sel)
  then have "pq_ok (pq d')" using i e(2) by (simp add: pq_ok_def index_ok_def sel(1))
  moreover have k: "known_ok (pq d') (known d')" using i e(2) unfolding known_ok_def sel by (metis UnI1)
  moreover have "distinct (waitingForAddCh d' @ blocked d')" using i new by (auto simp: d' in_transit_def)
  moreover have "a < Suc (fresh d)" if "a \<in> ?S" for a using i that less_SucI by blast
  ultimately have "store_ok d'" using i new unfolding store_ok_def sel by (auto simp: d')
  moreover have "asked_ok (tr @ [Asked x r]) d'" using i e unfolding asked_ok_def sel by auto
  moreover have "covered d' x r" using e(1) by (intro covered_transit [of "fresh d"]) (simp_all add: sel)
  moreover have "covered d' y t" if "covered d y t" for y t
  proof -
    from that consider a where "a \<in> in_transit d" "item (pq d) a = y" "ready (pq d) a = t" | a where "known d y = Some a" "ready (pq d) a \<le> t"
      unfolding covered_def by blast
    then show ?thesis
    proof cases
      case 1
      then show ?thesis using e(2) [of a] by (intro covered_transit [of a]) (simp_all add: sel)
    next
      case 2
      then have "a \<in> ?S" using i by (simp add: known_ok_def)
      then show ?thesis using 2 e(2) [of a] by (intro covered_known [of _ _ a]) (simp_all add: sel)
    qed
  qed
  ultimately have "store_ok d' \<and> asked_ok (tr @ [Asked x r]) d' \<and> (owed_ok tr d \<longrightarrow> owed_ok (tr @ [Asked x r]) d')"
    unfolding owed_ok_def by simp
  moreover have "select_ok d'" using i e(2) unfolding select_ok_def sel by simp
  ultimately show ?thesis using i by (auto simp: dq_inv_def never_early_snoc d')
qed

lemma stop_inv:
  assumes "dq_inv tr d" "stopCh d" "a \<in> set (blocked d)"
  shows "dq_inv (tr @ [Tau]) (d\<lparr>blocked := remove1 a (blocked d)\<rparr>)"
proof -
  note i = assms(1) [unfolded dq_inv_def store_ok_def]
  have sub: "in_transit (d\<lparr>blocked := remove1 a (blocked d)\<rparr>) \<subseteq> in_transit d" using set_remove1_subset by (fastforce simp: in_transit_def)
  have "distinct (waitingForAddCh d @ remove1 a (blocked d))" using i set_remove1_subset [of a "blocked d"] by auto
  then have "store_ok (d\<lparr>blocked := remove1 a (blocked d)\<rparr>)" using i sub by (auto simp: store_ok_def)
  moreover have "asked_ok (tr @ [Tau]) (d\<lparr>blocked := remove1 a (blocked d)\<rparr>)" using i sub by (auto simp: asked_ok_def)
  ultimately show ?thesis using i assms(2) by (simp add: dq_inv_def never_early_snoc select_ok_def)
qed


text \<open>The loop adds an entry that is ready, from the heap or from the channel, and it inserts one that is not.\<close>

lemma pop_inv:
  assumes inv: "dq_inv tr d" and pc: "pc d = AddReady now" "pq_Len (pq d) > 0" "\<not> ready (pq d) (pq_Peek (pq d)) > now"
    and pop: "pop_entry (pq d) = (q, a)" and d': "d' = d\<lparr>pq := q, sys := s, known := (known d)(item q a := None)\<rparr>"
  shows "dq_inv (tr @ [AddedAt (item q a) now]) d'"
proof -
  note i = inv [unfolded dq_inv_def store_ok_def]
  have "pq_ok (pq d)" "items (pq d) \<noteq> []" using i pc(2) by (auto simp: pq_Len_def)
  note p = pop_ok [OF this pop]
  have f: "ready q b = ready (pq d) b" "item q b = item (pq d) b" for b using p by simp_all
  have st: "set (items (pq d)) = insert a (set (items q))" "a \<notin> set (items q)"
  proof -
    have "set_mset (mset (items (pq d))) = set_mset (add_mset a (mset (items q)))" using p by metis
    then show "set (items (pq d)) = insert a (set (items q))" by simp
    have "distinct (a # items q)" using mset_eq_imp_distinct_iff [of "items (pq d)" "a # items q"] p i by (simp add: pq_ok_def index_ok_def)
    then show "a \<notin> set (items q)" by simp
  qed
  have sel: "pq d' = q" "known d' = (known d)(item (pq d) a := None)" "in_transit d' = in_transit d" "fresh d' = fresh d" "stopCh d' = stopCh d" "pc d' = pc d"
    by (simp_all add: d' in_transit_def f)
  have uniq: "b = a" if "b \<in> set (items (pq d))" "item (pq d) b = item (pq d) a" for b
  proof -
    have k: "known d y = Some c \<longleftrightarrow> c \<in> set (items (pq d)) \<and> item (pq d) c = y" for y c using i by (simp add: known_ok_def)
    have "known d (item (pq d) a) = Some a" "known d (item (pq d) a) = Some b" using that st(1) by (simp_all add: k)
    then show ?thesis by simp
  qed
  have "known_ok q (known d')" unfolding known_ok_def sel
  proof (intro allI)
    fix x b
    show "(((known d)(item (pq d) a := None)) x = Some b) = (b \<in> set (items q) \<and> item q b = x)"
      using i uniq [of b] st unfolding known_ok_def f by (cases "x = item (pq d) a") auto
  qed
  then have "store_ok d'" using i p st unfolding store_ok_def sel by (auto simp: d')
  moreover have "asked_ok (tr @ [AddedAt (item q a) now]) d'" using i st unfolding asked_ok_def sel f by auto
  moreover have "owed_ok (tr @ [AddedAt (item q a) now]) d'" if "owed_ok tr d"
    using that unfolding owed_ok_def covered_def sel f by auto
  moreover have "select_ok d'" using pc(1) by (simp add: select_ok_def sel)
  moreover have "\<exists>r. Asked (item q a) r \<in> set tr \<and> r \<le> now"
    using i st p pc(3) unfolding asked_ok_def by (intro exI [of _ "ready (pq d) a"]) (auto simp: f)
  ultimately show ?thesis using i by (auto simp: dq_inv_def never_early_snoc sel)
qed

lemma receive_transit:
  assumes "dq_inv tr d" "waitingForAddCh d = a # rest"
  shows "in_transit d = insert a (set rest \<union> set (blocked d))" "a \<notin> set rest \<union> set (blocked d)" "a \<notin> set (items (pq d))"
    "distinct (rest @ blocked d)"
  using assms by (auto simp: dq_inv_def store_ok_def in_transit_def)

lemma add_now_inv:
  assumes inv: "dq_inv tr d" and ch: "waitingForAddCh d = a # rest" "\<not> ready (pq d) a > clk d"
    and d': "d' = d\<lparr>waitingForAddCh := rest, sys := s, pc := Draining\<rparr>"
  shows "dq_inv (tr @ [AddedAt (item (pq d) a) (clk d)]) d'"
proof -
  note i = inv [unfolded dq_inv_def store_ok_def] and t = receive_transit [OF inv ch(1)]
  have sel: "pq d' = pq d" "known d' = known d" "in_transit d' = set rest \<union> set (blocked d)" "fresh d' = fresh d"
    "stopCh d' = stopCh d" "pc d' = Draining" "waitingForAddCh d' = rest" "blocked d' = blocked d"
    by (simp_all add: d' in_transit_def)
  have "store_ok d'" using i t unfolding store_ok_def sel by auto
  moreover have "asked_ok (tr @ [AddedAt (item (pq d) a) (clk d)]) d'" using i t unfolding asked_ok_def sel by auto
  moreover have "owed_ok (tr @ [AddedAt (item (pq d) a) (clk d)]) d'" if "owed_ok tr d"
    using that unfolding owed_ok_def covered_def sel t(1) by auto
  moreover have "\<exists>r. Asked (item (pq d) a) r \<in> set tr \<and> r \<le> clk d"
    using i t ch(2) unfolding asked_ok_def by (intro exI [of _ "ready (pq d) a"]) auto
  ultimately show ?thesis using i by (auto simp: dq_inv_def never_early_snoc select_ok_def sel)
qed

lemma insert_inv:
  assumes inv: "dq_inv tr d" and ch: "waitingForAddCh d = a # rest" and ins: "insert_entry (pq d) (known d) a = (q, k)"
    and d': "d' = d\<lparr>waitingForAddCh := rest, pq := q, known := k, pc := Draining\<rparr>"
  shows "dq_inv (tr @ [Tau]) d'"
proof -
  note i = inv [unfolded dq_inv_def store_ok_def] and t = receive_transit [OF inv ch]
  let ?T = "set rest \<union> set (blocked d)" and ?x = "item (pq d) a"
  have sel: "pq d' = q" "known d' = k" "in_transit d' = ?T" "fresh d' = fresh d"
    "stopCh d' = stopCh d" "pc d' = Draining" "waitingForAddCh d' = rest" "blocked d' = blocked d"
    by (simp_all add: d' in_transit_def)
  have "pq_ok (pq d)" "known_ok (pq d) (known d)" using i by simp_all
  note p = insert_ok [OF this t(3) ins]
  have f: "item q b = item (pq d) b" "ready q b = (if known d ?x = Some b then min (ready (pq d) a) (ready (pq d) b) else ready (pq d) b)" for b
    using p by simp_all
  have sub: "set (items q) \<subseteq> insert a (set (items (pq d)))" using p by (auto split: if_splits)
  have kn: "known d ?x = Some b \<Longrightarrow> b \<in> set (items (pq d)) \<and> item (pq d) b = ?x" for b using i by (simp add: known_ok_def)
  have tr: "ready q b = ready (pq d) b" if "b \<in> ?T" for b using that kn [of b] i t f(2) by auto
  have "store_ok d'" using i p t sub unfolding store_ok_def sel by fast
  moreover have "asked_ok (tr @ [Tau]) d'"
  proof -
    have A: "Asked (item (pq d) b) (ready (pq d) b) \<in> set tr" if "b \<in> set (items (pq d)) \<union> insert a ?T" for b
      using i that t(1) by (auto simp: asked_ok_def)
    have "Asked (item q b) (ready q b) \<in> set tr" if "b \<in> set (items q) \<union> ?T" for b
    proof (cases "known d ?x = Some b")
      case True
      then show ?thesis using A [of b] A [of a] kn [of b] f by (simp add: min_def)
    next
      case False
      then show ?thesis using A [of b] that sub f by auto
    qed
    then show ?thesis unfolding asked_ok_def sel by simp
  qed
  moreover have "covered d' y r" if "covered d y r" for y r
  proof -
    from that consider "y = ?x" "r = ready (pq d) a" | b where "b \<in> ?T" "item (pq d) b = y" "ready (pq d) b = r" | b where "known d y = Some b" "ready (pq d) b \<le> r"
      unfolding covered_def t(1) by blast
    then show ?thesis
    proof cases
      case 1
      obtain b where "k ?x = Some b" "ready q b \<le> ready (pq d) a" using p by blast
      then show ?thesis using 1 by (intro covered_known [of _ _ b]) (simp_all add: sel)
    next
      case 2
      then show ?thesis using tr [of b] f(1) [of b] by (intro covered_transit [of b]) (simp_all add: sel)
    next
      case 3
      then have b: "b \<in> set (items (pq d))" "item (pq d) b = y" using i by (simp_all add: known_ok_def)
      have "set (items (pq d)) \<subseteq> set (items q)" using p by auto
      then have "k y = Some b" using p b unfolding known_ok_def by auto
      moreover have "ready q b \<le> ready (pq d) b" using f(2) [of b] by simp
      ultimately show ?thesis using 3(2) by (intro covered_known [of _ _ b]) (simp_all add: sel)
    qed
  qed
  then have "owed_ok tr d \<Longrightarrow> owed_ok (tr @ [Tau]) d'" unfolding owed_ok_def by simp
  ultimately show ?thesis using i by (auto simp: dq_inv_def never_early_snoc select_ok_def sel)
qed


lemma select_inv:
  assumes "dq_inv tr d" "pc d = AddReady now" "\<not> (pq_Len (pq d) > 0 \<and> \<not> ready (pq d) (pq_Peek (pq d)) > now)"
  shows "select_ok (d\<lparr>pc := Selecting now\<rparr>)"
proof -
  have ok: "pq_ok (pq d)" using assms(1) by (simp add: dq_inv_def store_ok_def)
  have "now < ready (pq d) a" if "a \<in> set (items (pq d))" for a
    using peek_first [OF ok that] assms(3) that by (cases "items (pq d)") (auto simp: pq_Len_def)
  then show ?thesis by (simp add: select_ok_def)
qed

lemma send_inv:
  assumes "dq_inv tr d" "a \<in> set (blocked d)"
  shows "dq_inv (tr @ [Tau]) (d\<lparr>blocked := remove1 a (blocked d), waitingForAddCh := waitingForAddCh d @ [a]\<rparr>)"
proof -
  have dist: "distinct (waitingForAddCh d @ blocked d)" using assms(1) by (simp add: dq_inv_def store_ok_def)
  then have "set (remove1 a (blocked d)) = set (blocked d) - {a}" by (simp add: set_remove1_eq)
  then have "in_transit (d\<lparr>blocked := remove1 a (blocked d), waitingForAddCh := waitingForAddCh d @ [a]\<rparr>) = in_transit d"
    "distinct ((waitingForAddCh d @ [a]) @ remove1 a (blocked d))"
    using dist assms(2) by (auto simp: in_transit_def)
  then show ?thesis using assms(1) by (intro quiet_inv [OF assms(1)]) (auto simp: dq_inv_def select_ok_def)
qed

lemma idle_inv:
  assumes "dq_inv tr d" "e = Tau \<or> (\<exists>w. e = Wq w)"
  shows "dq_inv (tr @ [e]) (d\<lparr>sys := s, clk := t, closers := n, checked := c, stopCh := stopCh d \<or> b\<rparr>)"
  using assms by (intro quiet_inv [OF assms]) (auto simp: dq_inv_def store_ok_def select_ok_def in_transit_def)

lemma pc_inv:
  assumes "dq_inv tr d" "select_ok (d\<lparr>pc := p\<rparr>)"
  shows "dq_inv (tr @ [Tau]) (d\<lparr>pc := p\<rparr>)"
  using assms by (intro quiet_inv [OF assms(1)]) (auto simp: dq_inv_def store_ok_def in_transit_def)

lemma select_other [simp]: "(\<And>now. p \<noteq> Selecting now) \<Longrightarrow> select_ok (d\<lparr>pc := p\<rparr>)"
  by (simp add: select_ok_def)

lemma dq_step_inv: "dq_step d e d' \<Longrightarrow> dq_inv tr d \<Longrightarrow> dq_inv (tr @ [e]) d'"
proof (induction rule: dq_step.induct)
  case (clock d t)
  then show ?case using idle_inv [of tr d Tau False "checked d" "closers d" t "sys d"] by simp
next
  case (queue_call d e s)
  then show ?case using idle_inv [of tr d "Wq e" False "checked d" "closers d" "clk d" s] by simp
next
  case (shut_down d s)
  then show ?case using idle_inv [of tr d "Wq Shut" False "checked d" "Suc (closers d)" "clk d" s] by simp
next
  case (close d n)
  then show ?case using idle_inv [of tr d Tau True "checked d" n "clk d" "sys d"] by simp
next
  case (after_check d x dur)
  then show ?case using idle_inv [of tr d Tau False "(x, dur) # checked d" "closers d" "clk d" "sys d"] by simp
next
  case (after_now x dur d s)
  then show ?case using idle_inv [of tr d "Wq (Added x)" False "remove1 (x, dur) (checked d)" "closers d" "clk d" s] by simp
next
  case (after_select x dur d r)
  show ?case by (rule asked_inv [OF after_select.prems refl])
next
  case (after_send a d)
  then show ?case using send_inv by blast
next
  case (after_stop a d)
  then show ?case using stop_inv by blast
next
  case (loop_add d now q a s)
  show ?case by (rule pop_inv [OF loop_add.prems loop_add.hyps(1-4) refl])
next
  case (loop_select d now)
  then show ?case using pc_inv select_inv by blast
next
  case (loop_insert d now a rest q k)
  show ?case by (rule insert_inv [OF loop_insert.prems loop_insert.hyps(2,4) refl])
next
  case (loop_add_now d now a rest s)
  show ?case by (rule add_now_inv [OF loop_add_now.prems loop_add_now.hyps(2,3) refl])
qed (auto intro: pc_inv)

lemma dq_start_inv: "dq_inv [] (newDelayingQueue es t)"
  by (simp add: dq_inv_def newDelayingQueue_def store_ok_def pq_ok_def index_ok_def heap_upto_def known_ok_def in_transit_def
      asked_ok_def owed_ok_def owed_def select_ok_def never_early_def)

lemma dq_steps_inv: "dq_steps d es d' \<Longrightarrow> d = newDelayingQueue es0 t \<Longrightarrow> dq_inv es d'"
  by (induction rule: dq_steps.induct) (auto intro: dq_start_inv dq_step_inv)


text \<open>What a step is for the work queue inside.\<close>

fun queue_events :: "('w, 't) dq_event \<Rightarrow> ('w, 't) event list" where
  "queue_events (Wq e) = [e]"
| "queue_events (AddedAt x now) = [Added x]"
| "queue_events _ = []"

lemma dq_step_sys: "dq_step d e d' \<Longrightarrow> queue_events e = [] \<and> sys d' = sys d \<or> (\<exists>w. queue_events e = [w] \<and> wq_step (sys d) w (sys d'))"
  by (induction rule: dq_step.induct) auto

lemma dq_steps_sys: "dq_steps d es d' \<Longrightarrow> wq_steps (sys d) (concat (map queue_events es)) (sys d')"
proof (induction rule: dq_steps.induct)
  case (dq_none d)
  then show ?case by (simp add: steps_none)
next
  case (dq_more d es d' e d'')
  then show ?case using dq_step_sys [OF dq_more.hyps(2)] by (auto intro: steps_more)
qed

section \<open>Properties\<close>

text \<open>C12: Delayed items come on time, in any interleaving of clients, workers, the clock and the waiting loop. The loop
  adds an item only at a reading of the clock that is not before some time the item was asked for. Until
  \<open>stopCh\<close> is closed nothing is forgotten: an item asked for at time \<open>r\<close> and not added since is in an entry
  on its way to the loop, or it is in the heap, to be added at \<open>r\<close> at the latest, also when it was asked for
  several times. And when the loop goes to sleep after reading the clock, everything it received that was
  asked for by then has been added.\<close>

theorem delaying_queue_on_time:
  assumes "dq_steps (newDelayingQueue es t) tr d"
  shows "(\<forall>tr1 x now tr2. tr = tr1 @ AddedAt x now # tr2 \<longrightarrow> (\<exists>r. Asked x r \<in> set tr1 \<and> r \<le> now)) \<and>
    (\<not> stopCh d \<longrightarrow> (\<forall>x r. (x, r) \<in> owed tr \<longrightarrow>
       (\<exists>a \<in> in_transit d. item (pq d) a = x \<and> ready (pq d) a = r) \<or>
       (\<exists>a \<in> set (items (pq d)). item (pq d) a = x \<and> ready (pq d) a \<le> r \<and> (\<forall>now. pc d = Selecting now \<longrightarrow> now < r))))"
proof -
  have inv: "dq_inv tr d" by (rule dq_steps_inv [OF assms refl])
  then have k: "known_ok (pq d) (known d)" and sel: "select_ok d" by (simp_all add: dq_inv_def store_ok_def)
  have "(\<exists>a \<in> in_transit d. item (pq d) a = x \<and> ready (pq d) a = r) \<or>
      (\<exists>a \<in> set (items (pq d)). item (pq d) a = x \<and> ready (pq d) a \<le> r \<and> (\<forall>now. pc d = Selecting now \<longrightarrow> now < r))"
    if c: "covered d x r" for x r
  proof (cases "\<exists>a \<in> in_transit d. item (pq d) a = x \<and> ready (pq d) a = r")
    case False
    then obtain a where a: "known d x = Some a" "ready (pq d) a \<le> r" using c unfolding covered_def by blast
    then have "a \<in> set (items (pq d))" "item (pq d) a = x" using k by (simp_all add: known_ok_def)
    moreover have "now < r" if "pc d = Selecting now" for now
      using sel that a(2) calculation(1) less_le_trans unfolding select_ok_def by blast
    ultimately show ?thesis using a(2) by blast
  qed blast
  note here = this
  have n: "never_early tr" and o: "stopCh d \<or> owed_ok tr d" using inv by (simp_all add: dq_inv_def)
  have "covered d x r" if "\<not> stopCh d" "(x, r) \<in> owed tr" for x r using o that by (simp add: owed_ok_def)
  then show ?thesis using n [unfolded never_early_def] here by (intro conjI) simp_all
qed

text \<open>Item 7 is asked for in 5 ns; its entry is sent, received and put into the heap; at 110 the loop adds it.\<close>

definition example_state ::
  "'t waitForPriorityQueue \<Rightarrow> ('t \<rightharpoonup> addr) \<Rightarrow> addr list \<Rightarrow> ('t \<times> Duration) list \<Rightarrow> addr list \<Rightarrow> addr \<Rightarrow> Time \<Rightarrow> loop \<Rightarrow> (bool, 't) delayingType" where
  "example_state q k ch ck bl fr c p =
     \<lparr>sys = wq_start, pq = q, known = k, waitingForAddCh = ch, stopCh = False, closers = 0, checked = ck, blocked = bl, fresh = fr, clk = c, pc = p\<rparr>"

definition example_store :: "addr \<Rightarrow> nat waitFor" where
  "example_store = (\<lambda>a. \<lparr>data = 0, readyAt = 0, index = 0\<rparr>)"

definition example_trace :: "(bool, nat) dq_event list" where
  "example_trace = [Tau, Asked 7 105, Tau, Tau, Tau, Tau, Tau, Tau, Tau, AddedAt 7 110]"

lemma example_run: "\<exists>d. dq_steps (newDelayingQueue example_store 100) example_trace d \<and> \<not> stopCh d"
proof -
  let ?q0 = "\<lparr>entries = example_store, items = []\<rparr>" and ?e = "\<lparr>data = 7 :: nat, readyAt = 105, index = 0\<rparr>"
  let ?q1 = "\<lparr>entries = example_store(0 := ?e), items = []\<rparr>" and ?q2 = "\<lparr>entries = example_store(0 := ?e), items = [0]\<rparr>"
  let ?k = "[7 \<mapsto> 0] :: nat \<rightharpoonup> addr"
  note st = example_state_def wq_start_def New_queue_def ShuttingDown_def new_entry_def
  have s0: "newDelayingQueue example_store 100 = example_state ?q0 Map.empty [] [] [] 0 100 Top" by (simp add: newDelayingQueue_def example_state_def)
  have s1: "dq_step (example_state ?q0 Map.empty [] [] [] 0 100 Top) Tau (example_state ?q0 Map.empty [] [(7, 5)] [] 0 100 Top)"
    using after_check [of "example_state ?q0 Map.empty [] [] [] 0 100 Top" 7 5] by (simp add: st)
  have s2: "dq_step (example_state ?q0 Map.empty [] [(7, 5)] [] 0 100 Top) (Asked 7 105) (example_state ?q1 Map.empty [] [] [0] 1 100 Top)"
    using after_select [of 7 5 "example_state ?q0 Map.empty [] [(7, 5)] [] 0 100 Top"] by (simp add: st time_Add_def)
  have s3: "dq_step (example_state ?q1 Map.empty [] [] [0] 1 100 Top) Tau (example_state ?q1 Map.empty [0] [] [] 1 100 Top)"
    using after_send [of 0 "example_state ?q1 Map.empty [] [] [0] 1 100 Top"] by (simp add: st)
  have s4: "dq_step (example_state ?q1 Map.empty [0] [] [] 1 100 Top) Tau (example_state ?q1 Map.empty [0] [] [] 1 100 (AddReady 100))"
    using loop_now [of "example_state ?q1 Map.empty [0] [] [] 1 100 Top"] by (simp add: st)
  have s5: "dq_step (example_state ?q1 Map.empty [0] [] [] 1 100 (AddReady 100)) Tau (example_state ?q1 Map.empty [0] [] [] 1 100 (Selecting 100))"
    using loop_select [of "example_state ?q1 Map.empty [0] [] [] 1 100 (AddReady 100)" 100] by (simp add: st pq_Len_def)
  have "insert_entry ?q1 Map.empty 0 = (?q2, ?k)"
    by (simp add: insert_entry_def heap_Push_def pq_Push_def pq_Len_def heap_up_stop set_index_def Let_def)
  then have s6: "dq_step (example_state ?q1 Map.empty [0] [] [] 1 100 (Selecting 100)) Tau (example_state ?q2 ?k [] [] [] 1 100 Draining)"
    using loop_insert [of "example_state ?q1 Map.empty [0] [] [] 1 100 (Selecting 100)" 100 0 "[]" ?q2 ?k] by (simp add: st)
  have s7: "dq_step (example_state ?q2 ?k [] [] [] 1 100 Draining) Tau (example_state ?q2 ?k [] [] [] 1 100 Top)"
    using loop_drained [of "example_state ?q2 ?k [] [] [] 1 100 Draining"] by (simp add: st)
  have s8: "dq_step (example_state ?q2 ?k [] [] [] 1 100 Top) Tau (example_state ?q2 ?k [] [] [] 1 110 Top)"
    using clock [of "example_state ?q2 ?k [] [] [] 1 100 Top" 110] by (simp add: st)
  have s9: "dq_step (example_state ?q2 ?k [] [] [] 1 110 Top) Tau (example_state ?q2 ?k [] [] [] 1 110 (AddReady 110))"
    using loop_now [of "example_state ?q2 ?k [] [] [] 1 110 Top"] by (simp add: st)
  let ?d9 = "example_state ?q2 ?k [] [] [] 1 110 (AddReady 110)"
  obtain q where q: "pop_entry ?q2 = (q, 0)" "item q 0 = 7"
    by (simp add: pop_entry_def heap_Pop_def pq_Pop_def pq_Len_def pq_Swap_def heap_down_stop Let_def)
  obtain q' sig where "Add (New_queue :: nat workqueue) 7 = (q', sig)" by fastforce
  moreover obtain ws where "notify sig (\<lambda>w :: bool. Running :: nat worker) ws" using notify_total by blast
  ultimately have "wq_step (New_queue, \<lambda>w. Running) (Added 7) (q', ws)" by (rule step_add)
  then obtain s :: "(bool, nat) system" where s: "wq_step wq_start (Added 7) s" unfolding wq_start_def by blast
  have s10: "dq_step ?d9 (AddedAt 7 110) (?d9\<lparr>pq := q, sys := s, known := ?k(7 := None)\<rparr>)"
    using loop_add [of ?d9 110 q 0 s] q s by (simp add: example_state_def pq_Len_def pq_Peek_def)
  have tr: "example_trace = (((((((((([] @ [Tau]) @ [Asked 7 105]) @ [Tau]) @ [Tau]) @ [Tau]) @ [Tau]) @ [Tau]) @ [Tau]) @ [Tau]) @ [AddedAt 7 110])"
    by (simp add: example_trace_def)
  have "dq_steps (newDelayingQueue example_store 100) example_trace (?d9\<lparr>pq := q, sys := s, known := ?k(7 := None)\<rparr>)"
    unfolding s0 tr by (intro dq_more [OF _ s10] dq_more [OF _ s9] dq_more [OF _ s8] dq_more [OF _ s7] dq_more [OF _ s6] dq_more [OF _ s5]
        dq_more [OF _ s4] dq_more [OF _ s3] dq_more [OF _ s2] dq_more [OF _ s1] dq_none)
  moreover have "\<not> stopCh (?d9\<lparr>pq := q, sys := s, known := ?k(7 := None)\<rparr>)" by (simp add: example_state_def)
  ultimately show ?thesis by blast
qed

theorem delaying_queue_on_time_witness:
  "\<exists>d. dq_steps (newDelayingQueue example_store 100) example_trace d \<and>
     (\<exists>r. Asked 7 r \<in> set (take 9 example_trace) \<and> r \<le> 110)"
proof -
  obtain d where d: "dq_steps (newDelayingQueue example_store 100) example_trace d" using example_run by blast
  have "example_trace = take 9 example_trace @ AddedAt 7 110 # []" by (simp add: example_trace_def)
  then show ?thesis using delaying_queue_on_time [OF d] d by blast
qed



end
