(* ===== verification/Token_Bucket.thy ===== *)
theory Token_Bucket
  imports Go_Time
begin

text \<open>
  The token bucket of github.com/juju/ratelimit (ratelimit.go and reader.go). Tokens, ticks and durations
  are \<open>int64\<close>: sums, differences and products wrap around. Every method that reads the clock takes its reading as an argument,
  and what is to be slept is part of the result.
\<close>

section \<open>The bucket\<close>

record Bucket =
  startTime :: Time
  capacity :: int64
  quantum :: int64
  fillInterval :: Duration
  availableTokens :: int64
  latestTick :: int64

definition NewBucketWithQuantumAndClock :: "Time \<Rightarrow> Duration \<Rightarrow> int64 \<Rightarrow> int64 \<Rightarrow> (unit, Bucket) go" where
  "NewBucketWithQuantumAndClock now fi c q =
     (if fi \<le> 0 then Panic
      else if c \<le> 0 then Panic
      else if q \<le> 0 then Panic
      else Ret \<lparr>startTime = now, capacity = c, quantum = q, fillInterval = fi, availableTokens = c, latestTick = 0\<rparr>)"

definition NewBucketWithQuantum :: "Time \<Rightarrow> Duration \<Rightarrow> int64 \<Rightarrow> int64 \<Rightarrow> (unit, Bucket) go" where
  "NewBucketWithQuantum now fi c q = NewBucketWithQuantumAndClock now fi c q"

definition NewBucketWithClock :: "Time \<Rightarrow> Duration \<Rightarrow> int64 \<Rightarrow> (unit, Bucket) go" where
  "NewBucketWithClock now fi c = NewBucketWithQuantumAndClock now fi c 1"

definition NewBucket :: "Time \<Rightarrow> Duration \<Rightarrow> int64 \<Rightarrow> (unit, Bucket) go" where
  "NewBucket now fi c = NewBucketWithClock now fi c"

definition nextQuantum :: "int64 \<Rightarrow> int64" where
  "nextQuantum q = (let q1 = wrap64 (q * 11) sdiv 10 in if q1 = q then wrap64 (q1 + 1) else q1)"

definition currentTick :: "Bucket \<Rightarrow> Time \<Rightarrow> int64" where
  "currentTick tb now = time_Sub now (startTime tb) sdiv fillInterval tb"

definition adjustavailableTokens :: "Bucket \<Rightarrow> int64 \<Rightarrow> Bucket" where
  "adjustavailableTokens tb tick =
     (if availableTokens tb \<ge> capacity tb then tb
      else let avail = wrap64 (availableTokens tb + wrap64 (wrap64 (tick - latestTick tb) * quantum tb))
           in tb\<lparr>availableTokens := (if avail > capacity tb then capacity tb else avail), latestTick := tick\<rparr>)"

definition bucket_take :: "Bucket \<Rightarrow> Time \<Rightarrow> int64 \<Rightarrow> Duration \<Rightarrow> Bucket \<times> Duration \<times> bool" where
  "bucket_take tb now count maxWait =
     (if count \<le> 0 then (tb, 0, True)
      else let tick = currentTick tb now;
               tb = adjustavailableTokens tb tick;
               avail = wrap64 (availableTokens tb - count)
           in if avail \<ge> 0 then (tb\<lparr>availableTokens := avail\<rparr>, 0, True)
              else let endTick = wrap64 (tick + wrap64 (wrap64 (wrap64 (- avail) + quantum tb) - 1) sdiv quantum tb);
                       endTime = time_Add (startTime tb) (wrap64 (endTick * fillInterval tb));
                       waitTime = time_Sub endTime now
                   in if waitTime > maxWait then (tb, 0, False)
                      else (tb\<lparr>availableTokens := avail\<rparr>, waitTime, True))"

definition infinityDuration :: Duration where
  "infinityDuration = 0x7fffffffffffffff"

definition Take :: "Bucket \<Rightarrow> Time \<Rightarrow> int64 \<Rightarrow> Bucket \<times> Duration" where
  "Take tb now count = (case bucket_take tb now count infinityDuration of (tb, d, _) \<Rightarrow> (tb, d))"

definition TakeMaxDuration :: "Bucket \<Rightarrow> Time \<Rightarrow> int64 \<Rightarrow> Duration \<Rightarrow> Bucket \<times> Duration \<times> bool" where
  "TakeMaxDuration tb now count maxWait = bucket_take tb now count maxWait"

definition takeAvailable :: "Bucket \<Rightarrow> Time \<Rightarrow> int64 \<Rightarrow> Bucket \<times> int64" where
  "takeAvailable tb now count =
     (if count \<le> 0 then (tb, 0)
      else let tb = adjustavailableTokens tb (currentTick tb now)
           in if availableTokens tb \<le> 0 then (tb, 0)
              else let count = (if count > availableTokens tb then availableTokens tb else count)
                   in (tb\<lparr>availableTokens := wrap64 (availableTokens tb - count)\<rparr>, count))"

definition TakeAvailable :: "Bucket \<Rightarrow> Time \<Rightarrow> int64 \<Rightarrow> Bucket \<times> int64" where
  "TakeAvailable tb now count = takeAvailable tb now count"

definition Available :: "Bucket \<Rightarrow> Time \<Rightarrow> Bucket \<times> int64" where
  "Available tb now = (let tb = adjustavailableTokens tb (currentTick tb now) in (tb, availableTokens tb))"

definition Capacity :: "Bucket \<Rightarrow> int64" where
  "Capacity tb = capacity tb"

text \<open>The duration slept, if any, is the last component.\<close>

definition Wait :: "Bucket \<Rightarrow> Time \<Rightarrow> int64 \<Rightarrow> Bucket \<times> Duration option" where
  "Wait tb now count = (case Take tb now count of (tb, d) \<Rightarrow> (tb, if d > 0 then Some d else None))"

definition WaitMaxDuration :: "Bucket \<Rightarrow> Time \<Rightarrow> int64 \<Rightarrow> Duration \<Rightarrow> Bucket \<times> bool \<times> Duration option" where
  "WaitMaxDuration tb now count maxWait =
     (case TakeMaxDuration tb now count maxWait of (tb, d, ok) \<Rightarrow> (tb, ok, if d > 0 then Some d else None))"

text \<open>
  A rate-limited reader waits for the bytes the reader under it returned, a rate-limited writer for those
  it is about to write. \<open>n\<close> and \<open>err\<close> are what the reader returned at \<open>now\<close>; the writer's own \<open>Write\<close> follows
  after the sleep.
\<close>

definition reader_Read :: "Bucket \<Rightarrow> Time \<Rightarrow> int \<times> 'e option \<Rightarrow> Bucket \<times> (int \<times> 'e option) \<times> Duration option" where
  "reader_Read tb now r =
     (case r of (n, err) \<Rightarrow>
        if n \<le> 0 then (tb, (n, err), None)
        else case Wait tb now n of (tb, slept) \<Rightarrow> (tb, (n, err), slept))"

definition writer_Write :: "Bucket \<Rightarrow> Time \<Rightarrow> 'w writer \<Rightarrow> bytes \<Rightarrow> Bucket \<times> (int \<times> 'w option) \<times> Duration option" where
  "writer_Write tb now w buf = (case Wait tb now (int (length buf)) of (tb, slept) \<Rightarrow> (tb, w buf, slept))"

section \<open>Arithmetic without wrap-around\<close>

text \<open>The fixed part of a bucket, and the tick of a moment.\<close>

definition bucket_ok :: "Bucket \<Rightarrow> bool" where
  "bucket_ok tb \<longleftrightarrow> 0 < capacity tb \<and> 0 < quantum tb \<and> 0 < fillInterval tb \<and> availableTokens tb \<le> capacity tb \<and> 0 \<le> latestTick tb"

definition tick_of :: "Bucket \<Rightarrow> Time \<Rightarrow> int" where
  "tick_of tb now = (now - startTime tb) div fillInterval tb"

text \<open>
  The numbers stay within \<open>int64\<close> up to tick \<open>T\<close> while at most \<open>R\<close> tokens are owed: the tokens that come in,
  those owed rounded up to a quantum, and the moment the last of them is there.
\<close>

definition in_range :: "Bucket \<Rightarrow> int \<Rightarrow> int \<Rightarrow> bool" where
  "in_range tb T R \<longleftrightarrow> 0 \<le> R \<and> capacity tb + quantum tb * T < 2 ^ 63 \<and> R + quantum tb \<le> 2 ^ 63 \<and> (T + R + 1) * fillInterval tb < 2 ^ 63"

definition now_ok :: "Bucket \<Rightarrow> int \<Rightarrow> int \<Rightarrow> Time \<Rightarrow> bool" where
  "now_ok tb T R now \<longleftrightarrow> bucket_ok tb \<and> in_range tb T R \<and> - R \<le> availableTokens tb \<and>
     startTime tb \<le> now \<and> latestTick tb \<le> tick_of tb now \<and> tick_of tb now \<le> T"

lemma elapsed:
  assumes "now_ok tb T R now"
  shows "now - startTime tb < 2 ^ 63" "0 \<le> tick_of tb now" "currentTick tb now = tick_of tb now"
proof -
  have fi: "0 < fillInterval tb" and st: "startTime tb \<le> now" and T: "tick_of tb now \<le> T" and R: "0 \<le> R"
    and b: "(T + R + 1) * fillInterval tb < 2 ^ 63"
    using assms by (simp_all add: now_ok_def bucket_ok_def in_range_def)
  have "now - startTime tb < (tick_of tb now + 1) * fillInterval tb"
    unfolding tick_of_def using fi by (metis add.commute mult.commute mod_mult_div_eq pos_mod_bound add_strict_left_mono distrib_left mult.right_neutral)
  also have "\<dots> \<le> (T + R + 1) * fillInterval tb" using fi T R by (intro mult_right_mono) simp_all
  finally show lt: "now - startTime tb < 2 ^ 63" using b by simp
  show "0 \<le> tick_of tb now" using fi st by (simp add: tick_of_def pos_imp_zdiv_nonneg_iff)
  show "currentTick tb now = tick_of tb now" using fi st lt by (simp add: currentTick_def time_Sub_def tick_of_def sdiv_nonneg)
qed

text \<open>What refilling amounts to.\<close>

definition refill :: "Bucket \<Rightarrow> int \<Rightarrow> Bucket" where
  "refill tb tick =
     (if availableTokens tb = capacity tb then tb
      else tb\<lparr>availableTokens := min (capacity tb) (availableTokens tb + (tick - latestTick tb) * quantum tb), latestTick := tick\<rparr>)"

lemma adjust_exact:
  assumes "now_ok tb T R now"
  shows "adjustavailableTokens tb (currentTick tb now) = refill tb (tick_of tb now)"
proof -
  let ?k = "tick_of tb now - latestTick tb"
  have f: "0 < quantum tb" "availableTokens tb \<le> capacity tb" "0 \<le> latestTick tb" "latestTick tb \<le> tick_of tb now" "tick_of tb now \<le> T"
    "capacity tb + quantum tb * T < 2 ^ 63" "R + quantum tb \<le> 2 ^ 63" "- R \<le> availableTokens tb" "0 < capacity tb" "0 \<le> R"
    using assms by (simp_all add: now_ok_def bucket_ok_def in_range_def)
  have k: "0 \<le> ?k" "?k \<le> T" using f by simp_all
  have "?k * quantum tb \<le> T * quantum tb" using k f(1) by (intro mult_right_mono) simp_all
  then have kq: "0 \<le> ?k * quantum tb" "?k * quantum tb \<le> quantum tb * T" using k f(1) by (simp_all add: mult.commute)
  have "T * 1 \<le> T * quantum tb" using k f(1) by (intro mult_left_mono) simp_all
  then have "?k < 2 ^ 63" using k f by (simp add: mult.commute)
  then have w1: "wrap64 ?k = ?k" using k by (intro wrap64_id) simp_all
  have w2: "wrap64 (?k * quantum tb) = ?k * quantum tb" using kq f by (intro wrap64_id) linarith+
  have w3: "wrap64 (availableTokens tb + ?k * quantum tb) = availableTokens tb + ?k * quantum tb" using kq f by (intro wrap64_id) linarith+
  show ?thesis unfolding adjustavailableTokens_def refill_def elapsed(3) [OF assms] w1 w2 w3 Let_def using f(2) by (auto simp: min_def)
qed


lemma refill_fields [simp]:
  "startTime (refill tb k) = startTime tb" "capacity (refill tb k) = capacity tb"
  "quantum (refill tb k) = quantum tb" "fillInterval (refill tb k) = fillInterval tb"
  by (simp_all add: refill_def)

lemma tick_of_fields [simp]: "tick_of (refill tb k) t = tick_of tb t" "tick_of (tb\<lparr>availableTokens := a\<rparr>) t = tick_of tb t"
  by (simp_all add: tick_of_def)

lemma refill_bounds:
  assumes "now_ok tb T R now"
  shows "availableTokens tb \<le> availableTokens (refill tb (tick_of tb now))"
    "availableTokens (refill tb (tick_of tb now)) \<le> capacity tb"
    "latestTick (refill tb (tick_of tb now)) \<le> tick_of tb now" "0 \<le> latestTick (refill tb (tick_of tb now))"
  using assms by (auto simp: now_ok_def bucket_ok_def refill_def)

text \<open>The tick at which the missing tokens are there.\<close>

definition due_tick :: "Bucket \<Rightarrow> int \<Rightarrow> int \<Rightarrow> int" where
  "due_tick tb tick missing = tick + (missing + quantum tb - 1) div quantum tb"

lemma round_up:
  assumes "0 < (q :: int)" "0 < m"
  shows "m \<le> (m + q - 1) div q * q" "((m + q - 1) div q - 1) * q < m" "0 < (m + q - 1) div q" "(m + q - 1) div q \<le> m"
proof -
  let ?c = "(m + q - 1) div q"
  have c: "?c * q + (m + q - 1) mod q = m + q - 1" by (rule div_mult_mod_eq)
  have r: "0 \<le> (m + q - 1) mod q" "(m + q - 1) mod q < q" using assms by simp_all
  show up: "m \<le> ?c * q" using c r by linarith
  have "(?c - 1) * q = ?c * q - q" by (simp add: algebra_simps)
  then show low: "(?c - 1) * q < m" using c r by linarith
  show "0 < ?c" using assms by (simp add: pos_imp_zdiv_pos_iff)
  have "(?c - 1) * 1 \<le> (?c - 1) * q" using assms \<open>0 < ?c\<close> by (intro mult_left_mono) simp_all
  then have "(?c - 1) * 1 < m" using low by (rule le_less_trans)
  then show "?c \<le> m" by simp
qed

definition due_time :: "Bucket \<Rightarrow> int \<Rightarrow> int \<Rightarrow> Time" where
  "due_time tb tick missing = startTime tb + due_tick tb tick missing * fillInterval tb"

lemma take_exact:
  assumes ok: "now_ok tb T R now" and "0 < count" "count - availableTokens tb \<le> R" "count < 2 ^ 63"
  defines "b \<equiv> refill tb (tick_of tb now)"
  defines "due \<equiv> due_time tb (tick_of tb now) (count - availableTokens b)"
  shows "bucket_take tb now count m =
    (if count \<le> availableTokens b then (b\<lparr>availableTokens := availableTokens b - count\<rparr>, 0, True)
     else if due - now > m then (b, 0, False)
     else (b\<lparr>availableTokens := availableTokens b - count\<rparr>, due - now, True))"
proof -
  let ?q = "quantum tb" and ?t = "tick_of tb now" and ?fi = "fillInterval tb" and ?a = "availableTokens b - count"
  have f: "0 < ?q" "0 < ?fi" "0 < capacity tb" "0 \<le> R" "R + ?q \<le> 2 ^ 63" "(T + R + 1) * ?fi < 2 ^ 63" "startTime tb \<le> now" "?t \<le> T"
    "capacity tb + ?q * T < 2 ^ 63"
    using ok by (simp_all add: now_ok_def bucket_ok_def in_range_def)
  have t0: "0 \<le> ?t" and cur: "currentTick tb now = ?t" and el: "now - startTime tb < 2 ^ 63" using elapsed [OF ok] by simp_all
  have "0 \<le> ?q * T" using f(1,8) t0 by simp
  then have cap: "capacity tb < 2 ^ 63" using f(9) by linarith
  have a: "availableTokens tb \<le> availableTokens b" "availableTokens b \<le> capacity tb" using refill_bounds [OF ok] by (simp_all add: b_def)
  have wa: "wrap64 ?a = ?a" using a cap assms(2,3) f(1,4,5) by (intro wrap64_id) linarith+
  have step: "bucket_take tb now count m =
      (if ?a \<ge> 0 then (b\<lparr>availableTokens := ?a\<rparr>, 0, True)
       else let endTick = wrap64 (?t + wrap64 (wrap64 (wrap64 (- ?a) + ?q) - 1) sdiv ?q);
                waitTime = time_Sub (time_Add (startTime tb) (wrap64 (endTick * ?fi))) now
            in if waitTime > m then (b, 0, False) else (b\<lparr>availableTokens := ?a\<rparr>, waitTime, True))"
    using assms(2) wa adjust_exact [OF ok] by (simp add: bucket_take_def Let_def b_def cur)
  show ?thesis
  proof (cases "?a \<ge> 0")
    case True
    then show ?thesis unfolding step by simp
  next
    case False
    let ?m = "count - availableTokens b"
    define c where "c = (?m + ?q - 1) div ?q"
    have m: "0 < ?m" "?m \<le> R" using False a assms(3) by linarith+
    have c: "0 < c" "c \<le> ?m" using round_up [OF f(1) m(1)] by (simp_all add: c_def)
    have w1: "wrap64 (- ?a) = ?m" using m f by (subst wrap64_id) linarith+
    have w2: "wrap64 (wrap64 (?m + ?q) - 1) = ?m + ?q - 1"
    proof (cases "?m + ?q < 2 ^ 63")
      case True
      then have "wrap64 (?m + ?q) = ?m + ?q" using m f by (intro wrap64_id) linarith+
      then show ?thesis using True m f by (simp add: wrap64_def)
    next
      case False
      then have "?m + ?q = 2 ^ 63" using m f by linarith
      then show ?thesis by (simp add: wrap64_def)
    qed
    have d: "(?m + ?q - 1) sdiv ?q = c" unfolding c_def using m f(1) by (intro sdiv_nonneg) linarith+
    have "(?t + c) * ?fi \<le> (T + R + 1) * ?fi" using f c m by (intro mult_right_mono) linarith+
    then have e: "(?t + c) * ?fi < 2 ^ 63" using f(6) by (rule le_less_trans)
    have e0: "0 < (?t + c) * ?fi" using f(2) c t0 by simp
    have "(?t + c) * 1 \<le> (?t + c) * ?fi" using f c t0 by (intro mult_left_mono) linarith+
    then have "(?t + c) * 1 < 2 ^ 63" using e by (rule le_less_trans)
    then have w3: "wrap64 (?t + c) = ?t + c" using c t0 by (intro wrap64_id) simp_all
    have w4: "wrap64 ((?t + c) * ?fi) = (?t + c) * ?fi" using e e0 by (intro wrap64_id) linarith+
    have "time_Sub (startTime tb + (?t + c) * ?fi) now = startTime tb + (?t + c) * ?fi - now"
      using e e0 el f(7) by (simp add: time_Sub_def)
    then show ?thesis using False unfolding step w1 w2 d w3 w4 Let_def time_Add_def due_def due_time_def due_tick_def c_def [symmetric] by simp
  qed
qed


text \<open>The search for a quantum in \<open>NewBucketWithRate\<close> makes progress up to its limit of \<open>2 ^ 50\<close>.\<close>

lemma nextQuantum_grows:
  assumes "1 \<le> q" "q < 2 ^ 50"
  shows "q < nextQuantum q \<and> nextQuantum q < 2 ^ 51"
proof -
  have "wrap64 (q * 11) = q * 11" using assms by (intro wrap64_id) simp_all
  then have "nextQuantum q = (if q * 11 div 10 = q then wrap64 (q + 1) else q * 11 div 10)"
    using assms by (simp add: nextQuantum_def Let_def sdiv_nonneg)
  moreover have "wrap64 (q + 1) = q + 1" using assms by (intro wrap64_id) simp_all
  moreover have "q \<le> q * 11 div 10" "q * 11 div 10 < 2 ^ 51" using assms by simp_all
  ultimately show ?thesis using assms by auto
qed

section \<open>Sessions\<close>

text \<open>
  What clients ask for, and what they are granted: a number of tokens and the moment they may use them,
  which is when their wait is over.
\<close>

datatype request = TakeReq int64 | TakeMaxReq int64 Duration | TakeAvailableReq int64 | AvailableReq

fun asked :: "request \<Rightarrow> int" where
  "asked (TakeReq c) = max 0 c"
| "asked (TakeMaxReq c m) = max 0 c"
| "asked (TakeAvailableReq c) = 0"
| "asked AvailableReq = 0"

fun is_int64 :: "request \<Rightarrow> bool" where
  "is_int64 (TakeReq c) \<longleftrightarrow> c < 2 ^ 63"
| "is_int64 (TakeMaxReq c m) \<longleftrightarrow> c < 2 ^ 63"
| "is_int64 _ \<longleftrightarrow> True"

fun serve :: "Bucket \<Rightarrow> Time \<Rightarrow> request \<Rightarrow> Bucket \<times> int64 \<times> Time" where
  "serve tb now (TakeReq c) = (case Take tb now c of (tb, d) \<Rightarrow> (tb, max 0 c, now + d))"
| "serve tb now (TakeMaxReq c m) =
     (case TakeMaxDuration tb now c m of (tb, d, ok) \<Rightarrow> (tb, if ok then max 0 c else 0, now + d))"
| "serve tb now (TakeAvailableReq c) = (case TakeAvailable tb now c of (tb, n) \<Rightarrow> (tb, n, now))"
| "serve tb now AvailableReq = (case Available tb now of (tb, n) \<Rightarrow> (tb, 0, now))"

fun serve_all :: "Bucket \<Rightarrow> (Time \<times> request) list \<Rightarrow> Bucket \<times> (int64 \<times> Time) list" where
  "serve_all tb [] = (tb, [])"
| "serve_all tb ((now, r) # rs) =
     (case serve tb now r of (tb, n, due) \<Rightarrow>
      case serve_all tb rs of (tb, gs) \<Rightarrow> (tb, (n, due) # gs))"

fun due_by :: "Time \<Rightarrow> (int64 \<times> Time) list \<Rightarrow> int" where
  "due_by t [] = 0"
| "due_by t ((n, due) # gs) = (if due \<le> t then n else 0) + due_by t gs"

text \<open>
  After serving one request at \<open>now\<close>: nothing but the tokens and the tick changed, \<open>n\<close> tokens fewer are
  there than the fill gave, and the ticks until they are due pay for what is owed.
\<close>

definition served :: "Bucket \<Rightarrow> Time \<Rightarrow> Bucket \<Rightarrow> int64 \<Rightarrow> Time \<Rightarrow> bool" where
  "served tb now tb' n due \<longleftrightarrow>
     startTime tb' = startTime tb \<and> capacity tb' = capacity tb \<and> quantum tb' = quantum tb \<and> fillInterval tb' = fillInterval tb \<and>
     0 \<le> n \<and> availableTokens tb' \<le> capacity tb \<and> availableTokens tb - n \<le> availableTokens tb' \<and>
     availableTokens tb' + n \<le> availableTokens tb + (latestTick tb' - latestTick tb) * quantum tb \<and>
     latestTick tb \<le> latestTick tb' \<and> latestTick tb' \<le> tick_of tb now \<and> now \<le> due \<and>
     (0 < n \<longrightarrow> 0 \<le> availableTokens tb' + (tick_of tb due - tick_of tb now) * quantum tb)"

lemma refill_served: "now_ok tb T R now \<Longrightarrow> served tb now (refill tb (tick_of tb now)) 0 now"
  by (auto simp: served_def now_ok_def bucket_ok_def refill_def mult_nonneg_nonneg min_def)


lemma served_refl: "now_ok tb T R now \<Longrightarrow> served tb now tb 0 now"
  by (simp add: served_def now_ok_def bucket_ok_def)

lemma tick_of_due: "0 < fillInterval tb \<Longrightarrow> tick_of tb (due_time tb k m) = due_tick tb k m"
  by (simp add: tick_of_def due_time_def)

lemma before_next_tick:
  assumes "0 < fillInterval tb"
  shows "now < startTime tb + (tick_of tb now + 1) * fillInterval tb"
proof -
  let ?d = "now - startTime tb" and ?f = "fillInterval tb"
  have "?d div ?f * ?f + ?d mod ?f = ?d" "?d mod ?f < ?f" using assms by simp_all
  moreover have "(tick_of tb now + 1) * ?f = ?d div ?f * ?f + ?f" by (simp add: tick_of_def algebra_simps)
  ultimately show ?thesis by linarith
qed

text \<open>A wait ends after now, at the first tick by which the missing tokens have come.\<close>

lemma due_later:
  assumes "0 < fillInterval tb" "0 < quantum tb" "0 < m"
  shows "now < due_time tb (tick_of tb now) m" "m \<le> (tick_of tb (due_time tb (tick_of tb now) m) - tick_of tb now) * quantum tb"
    "(tick_of tb (due_time tb (tick_of tb now) m) - tick_of tb now - 1) * quantum tb < m"
proof -
  let ?k = "tick_of tb now" and ?c = "(m + quantum tb - 1) div quantum tb"
  note up = round_up [OF assms(2,3)]
  have "(?k + 1) * fillInterval tb \<le> (?k + ?c) * fillInterval tb" using assms(1) up(3) by (intro mult_right_mono) simp_all
  then show "now < due_time tb ?k m" using before_next_tick [OF assms(1), of now] by (simp add: due_time_def due_tick_def)
  show "m \<le> (tick_of tb (due_time tb ?k m) - ?k) * quantum tb" "(tick_of tb (due_time tb ?k m) - ?k - 1) * quantum tb < m"
    using up(1,2) by (simp_all add: tick_of_due [OF assms(1)] due_tick_def)
qed

lemma served_take:
  assumes "served tb now b 0 now" "0 \<le> n" "now \<le> due" "0 < n \<longrightarrow> 0 \<le> availableTokens b - n + (tick_of tb due - tick_of tb now) * quantum tb"
  shows "served tb now (b\<lparr>availableTokens := availableTokens b - n\<rparr>) n due"
  using assms by (auto simp: served_def)

lemma take_served:
  assumes ok: "now_ok tb T R now" and c: "max 0 c - availableTokens tb \<le> R" "c < 2 ^ 63" and t: "bucket_take tb now c m = (tb', d, acc)"
  shows "served tb now tb' (if acc then max 0 c else 0) (now + d)"
proof (cases "c \<le> 0")
  case True
  then show ?thesis using t served_refl [OF ok] by (auto simp: bucket_take_def max_def)
next
  case False
  let ?b = "refill tb (tick_of tb now)"
  let ?due = "due_time tb (tick_of tb now) (c - availableTokens ?b)"
  have f: "0 < fillInterval tb" "0 < quantum tb" using ok by (simp_all add: now_ok_def bucket_ok_def)
  have s: "served tb now ?b 0 now" by (rule refill_served [OF ok])
  have r: "bucket_take tb now c m =
    (if c \<le> availableTokens ?b then (?b\<lparr>availableTokens := availableTokens ?b - c\<rparr>, 0, True)
     else if ?due - now > m then (?b, 0, False) else (?b\<lparr>availableTokens := availableTokens ?b - c\<rparr>, ?due - now, True))"
    using False c by (intro take_exact [OF ok]) simp_all
  consider "c \<le> availableTokens ?b" | "\<not> c \<le> availableTokens ?b" "?due - now > m" | "\<not> c \<le> availableTokens ?b" "\<not> ?due - now > m" by blast
  then show ?thesis
  proof cases
    case 1
    then have "served tb now (?b\<lparr>availableTokens := availableTokens ?b - c\<rparr>) c now" using False by (intro served_take [OF s]) simp_all
    then show ?thesis using t r 1 False by auto
  next
    case 2
    then show ?thesis using t r s by auto
  next
    case 3
    then have "0 < c - availableTokens ?b" by simp
    note l = due_later [OF f this, of now]
    have "served tb now (?b\<lparr>availableTokens := availableTokens ?b - c\<rparr>) c ?due" using False l(1,2) by (intro served_take [OF s]) simp_all
    then show ?thesis using t r 3 False by auto
  qed
qed

text \<open>\<open>Take\<close> is never refused: no wait is longer than the longest duration.\<close>

lemma time_Sub_le: "\<not> time_Sub t u > infinityDuration"
  by (simp add: time_Sub_def infinityDuration_def)

lemma take_infinity: "bucket_take tb now c infinityDuration = (tb', d, acc) \<Longrightarrow> acc"
  by (simp only: bucket_take_def Let_def time_Sub_le if_False split: if_splits) simp_all

lemma takeAvailable_served:
  assumes ok: "now_ok tb T R now" and t: "takeAvailable tb now c = (tb', n)"
  shows "served tb now tb' n now \<and> (n = 0 \<or> 0 \<le> availableTokens tb')"
proof -
  let ?b = "refill tb (tick_of tb now)"
  have s: "served tb now ?b 0 now" by (rule refill_served [OF ok])
  have "0 \<le> quantum tb * T" using ok elapsed(2) [OF ok] by (simp add: now_ok_def bucket_ok_def)
  then have "capacity tb < 2 ^ 63" using ok by (simp add: now_ok_def in_range_def)
  then have b: "availableTokens ?b < 2 ^ 63" using refill_bounds(2) [OF ok] by simp
  have r: "takeAvailable tb now c =
      (if c \<le> 0 then (tb, 0) else if availableTokens ?b \<le> 0 then (?b, 0)
       else (?b\<lparr>availableTokens := wrap64 (availableTokens ?b - min c (availableTokens ?b))\<rparr>, min c (availableTokens ?b)))"
    by (simp add: takeAvailable_def Let_def adjust_exact [OF ok] min_def)
  show ?thesis
  proof (cases "c \<le> 0 \<or> availableTokens ?b \<le> 0")
    case True
    then show ?thesis using t r s served_refl [OF ok] by (auto split: if_splits)
  next
    case False
    then have n: "n = min c (availableTokens ?b)" "tb' = ?b\<lparr>availableTokens := wrap64 (availableTokens ?b - n)\<rparr>" using t r by auto
    moreover have "0 < n" "n \<le> availableTokens ?b" using False n(1) by simp_all
    moreover from this have "wrap64 (availableTokens ?b - n) = availableTokens ?b - n" using b by (intro wrap64_id) linarith+
    ultimately show ?thesis using served_take [OF s, of n now] by simp
  qed
qed

lemma serve_served:
  assumes ok: "now_ok tb T R now" "asked r - availableTokens tb \<le> R" "is_int64 r" and t: "serve tb now r = (tb', n, due)"
  shows "served tb now tb' n due \<and> (n \<le> asked r \<or> 0 \<le> availableTokens tb')"
proof (cases r)
  case (TakeReq c)
  obtain d acc where b: "bucket_take tb now c infinityDuration = (tb', d, acc)" "due = now + d" "n = max 0 c"
    using t TakeReq by (auto simp: Take_def split: prod.splits)
  then have "acc" using take_infinity by blast
  then show ?thesis using take_served [OF ok(1) _ _ b(1)] ok(2,3) b(2,3) TakeReq by simp
next
  case (TakeMaxReq c m)
  then obtain d acc where "bucket_take tb now c m = (tb', d, acc)" "due = now + d" "n = (if acc then max 0 c else 0)"
    using t by (auto simp: TakeMaxDuration_def split: prod.splits)
  then show ?thesis using take_served [OF ok(1)] ok TakeMaxReq by fastforce
next
  case (TakeAvailableReq c)
  then show ?thesis using takeAvailable_served [OF ok(1), of c tb' n] t by (auto simp: TakeAvailable_def split: prod.splits)
next
  case AvailableReq
  then show ?thesis using refill_served [OF ok(1)] adjust_exact [OF ok(1)] t by (auto simp: Available_def Let_def)
qed


text \<open>The clock never goes back, and stays within the ticks the bounds allow.\<close>

fun clock_ok :: "Bucket \<Rightarrow> int \<Rightarrow> (Time \<times> request) list \<Rightarrow> bool" where
  "clock_ok tb T [] \<longleftrightarrow> True"
| "clock_ok tb T ((now, r) # rs) \<longleftrightarrow> startTime tb \<le> now \<and> latestTick tb \<le> tick_of tb now \<and> tick_of tb now \<le> T \<and> is_int64 r \<and> clock_ok tb T rs"

abbreviation total_asked :: "(Time \<times> request) list \<Rightarrow> int" where
  "total_asked rs \<equiv> sum_list (map (\<lambda>(now, r). asked r) rs)"

lemma asked_nonneg [simp]: "0 \<le> asked r"
  by (cases r) simp_all

lemma total_asked_nonneg: "0 \<le> total_asked rs"
  by (intro sum_list_nonneg) auto

lemma tick_mono: "0 < fillInterval tb \<Longrightarrow> t \<le> u \<Longrightarrow> tick_of tb t \<le> tick_of tb u"
  by (simp add: tick_of_def zdiv_mono1)

lemma clock_served:
  assumes "served tb now tb' n due" "0 < fillInterval tb"
  shows "clock_ok tb T rs \<Longrightarrow> \<forall>t \<in> fst ` set rs. now \<le> t \<Longrightarrow> clock_ok tb' T rs"
proof (induction rs)
  case (Cons x rs)
  obtain t r where [simp]: "x = (t, r)" by (cases x)
  have "tick_of tb' u = tick_of tb u" for u using assms(1) by (simp add: served_def tick_of_def)
  moreover have "latestTick tb' \<le> tick_of tb t"
    using assms(1) tick_mono [OF assms(2), of now t] Cons.prems(2) unfolding served_def by force
  ultimately show ?case using Cons assms(1) by (simp add: served_def)
qed simp

lemma due_by_nonneg: "list_all (\<lambda>(n, d). 0 \<le> n) gs \<Longrightarrow> 0 \<le> due_by t gs"
  by (induction gs) auto

text \<open>
  With \<open>S\<close> tokens granted before, the tokens granted so far and those left are at most the initial ones and
  the fill; whatever is granted from here and due by \<open>t\<close> then fits the fill up to \<open>t\<close>.
\<close>

lemma serve_all_bound:
  assumes "serve_all tb rs = (tb', gs)" "bucket_ok tb" "in_range tb T R" "clock_ok tb T rs" "sorted (map fst rs)"
    "total_asked rs \<le> R" "total_asked rs - availableTokens tb \<le> R" "S + availableTokens tb \<le> capacity tb + quantum tb * latestTick tb"
  shows "list_all (\<lambda>(n, d). 0 \<le> n) gs \<and> (0 < due_by t gs \<longrightarrow> S + due_by t gs \<le> capacity tb + quantum tb * tick_of tb t)"
  using assms
proof (induction rs arbitrary: tb S gs)
  case (Cons x rs)
  obtain now r where x: "x = (now, r)" by (cases x)
  obtain b n due where b: "serve tb now r = (b, n, due)" using prod_cases3 by blast
  obtain gs' where gs: "serve_all b rs = (tb', gs')" "gs = (n, due) # gs'"
    using Cons.prems(1) b by (auto simp: x split: prod.splits)
  have f: "0 < quantum tb" "0 < fillInterval tb" using Cons.prems(2) by (simp_all add: bucket_ok_def)
  have a: "asked r + total_asked rs \<le> R" "asked r + total_asked rs - availableTokens tb \<le> R" using Cons.prems(6,7) by (simp_all add: x)
  note a0 = total_asked_nonneg [of rs] asked_nonneg [of r]
  have "- R \<le> availableTokens tb" using a a0 by linarith
  then have ok: "now_ok tb T R now" using Cons.prems(2-4) by (simp add: now_ok_def x)
  have s: "served tb now b n due" and na: "n \<le> asked r \<or> 0 \<le> availableTokens b"
    using serve_served [OF ok _ _ b] a a0 Cons.prems(4) by (simp_all add: x)
  note s' = s [unfolded served_def]
  have tk: "tick_of b u = tick_of tb u" for u using s' by (simp add: tick_of_def)
  have mul: "(latestTick b - latestTick tb) * quantum tb = quantum tb * latestTick b - quantum tb * latestTick tb" by (simp add: algebra_simps)
  have S: "S + n + availableTokens b \<le> capacity tb + quantum tb * latestTick b"
    using s' Cons.prems(8) mul by linarith
  have IH: "list_all (\<lambda>(n, d). 0 \<le> n) gs' \<and> (0 < due_by t gs' \<longrightarrow> S + n + due_by t gs' \<le> capacity b + quantum b * tick_of b t)"
  proof (rule Cons.IH [OF gs(1)])
    show "bucket_ok b" using s' Cons.prems(2) by (simp add: bucket_ok_def)
    show "in_range b T R" using s' Cons.prems(3) by (simp add: in_range_def)
    show "clock_ok b T rs" using clock_served [OF s f(2)] Cons.prems(4,5) by (simp add: x)
    show "sorted (map fst rs)" using Cons.prems(5) by (simp add: x)
    show "total_asked rs \<le> R" using a a0 by linarith
    show "total_asked rs - availableTokens b \<le> R" using a a0 na s' by linarith
    show "S + n + availableTokens b \<le> capacity b + quantum b * latestTick b" using S s' by simp
  qed
  have bt: "capacity b + quantum b * tick_of b t = capacity tb + quantum tb * tick_of tb t" using s' tk by simp
  have n: "0 \<le> n" using s' by simp
  show ?case
  proof (cases "0 < due_by t gs'")
    case True
    then show ?thesis using IH n bt gs(2) by auto
  next
    case False
    then have z: "due_by t gs' = 0" using due_by_nonneg [of gs' t] IH by linarith
    have "S + n \<le> capacity tb + quantum tb * tick_of tb t" if "due \<le> t" "0 < n"
    proof -
      have "quantum tb * latestTick b \<le> quantum tb * tick_of tb now" using s' f by simp
      moreover have "quantum tb * tick_of tb due \<le> quantum tb * tick_of tb t" using tick_mono [OF f(2) that(1)] f by simp
      moreover have "0 \<le> availableTokens b + (tick_of tb due - tick_of tb now) * quantum tb" using s' that by simp
      moreover have "(tick_of tb due - tick_of tb now) * quantum tb = quantum tb * tick_of tb due - quantum tb * tick_of tb now" by (simp add: algebra_simps)
      ultimately show ?thesis using S by linarith
    qed
    then show ?thesis using IH n z gs(2) by auto
  qed
qed simp


section \<open>Waiting\<close>

lemma Available_exact: "now_ok tb T R now \<Longrightarrow> snd (Available tb now) = availableTokens (refill tb (tick_of tb now))"
  by (simp add: Available_def Let_def adjust_exact)

lemma refill_refill:
  assumes "bucket_ok tb" "latestTick tb \<le> k" "k \<le> l"
  shows "availableTokens (refill (refill tb k) l) = availableTokens (refill tb l)"
proof -
  have "(k - latestTick tb) * quantum tb + (l - k) * quantum tb = (l - latestTick tb) * quantum tb" by (simp add: algebra_simps)
  moreover have "0 \<le> (l - k) * quantum tb" using assms by (simp add: bucket_ok_def)
  ultimately show ?thesis using assms(1) by (auto simp: refill_def bucket_ok_def min_def)
qed

lemma now_ok_later:
  assumes "now_ok tb T R now" "now \<le> t" "tick_of tb t \<le> T"
  shows "now_ok tb T R t"
  using assms tick_mono [of tb now t] by (auto simp: now_ok_def bucket_ok_def)

lemma now_ok_taken:
  assumes "now_ok tb T R now" "0 \<le> c" "c - availableTokens tb \<le> R" "now \<le> t" "tick_of tb t \<le> T"
  shows "now_ok ((refill tb (tick_of tb now))\<lparr>availableTokens := availableTokens (refill tb (tick_of tb now)) - c\<rparr>) T R t"
  using assms refill_bounds [OF assms(1)] tick_mono [of tb now t]
  by (auto simp: now_ok_def bucket_ok_def in_range_def tick_of_def)


lemma taken_available:
  assumes "now_ok tb T R now" "now \<le> t" "tick_of tb t \<le> T" "0 \<le> c" "c - availableTokens tb \<le> R"
  defines "b \<equiv> refill tb (tick_of tb now)"
  shows "snd (Available (b\<lparr>availableTokens := availableTokens b - c\<rparr>) t) =
    availableTokens (refill (b\<lparr>availableTokens := availableTokens b - c\<rparr>) (tick_of tb t))"
  unfolding b_def using Available_exact [OF now_ok_taken [OF assms(1,4,5,2,3)]] by simp

lemma refused_available:
  assumes ok: "now_ok tb T R now" and t: "now \<le> t" "tick_of tb t \<le> T"
  shows "snd (Available (refill tb (tick_of tb now)) t) = snd (Available tb t)"
proof -
  have b: "bucket_ok tb" "0 < fillInterval tb" "latestTick tb \<le> tick_of tb now" using ok by (simp_all add: now_ok_def bucket_ok_def)
  have "now_ok (refill tb (tick_of tb now)) T R t"
    using now_ok_later [OF ok t] refill_bounds [OF ok] tick_mono [OF b(2) t(1)]
    by (auto simp: now_ok_def bucket_ok_def in_range_def)
  then show ?thesis
    using Available_exact [of "refill tb (tick_of tb now)"] Available_exact [OF now_ok_later [OF ok t]]
      refill_refill [OF b(1,3) tick_mono [OF b(2) t(1)]] by simp
qed

lemma tick_before_due:
  assumes "0 < fillInterval tb" "t < due_time tb k m"
  shows "tick_of tb t < due_tick tb k m"
proof (rule ccontr)
  let ?d = "t - startTime tb" and ?f = "fillInterval tb"
  assume "\<not> tick_of tb t < due_tick tb k m"
  then have "due_tick tb k m * ?f \<le> ?d div ?f * ?f" using assms(1) by (intro mult_right_mono) (simp_all add: tick_of_def)
  moreover have "?d div ?f * ?f + ?d mod ?f = ?d" "0 \<le> ?d mod ?f" using assms(1) by simp_all
  moreover have "?d < due_tick tb k m * ?f" using assms(2) by (simp add: due_time_def)
  ultimately show False by linarith
qed

text \<open>The tokens at tick \<open>l\<close> of a bucket that was refilled at tick \<open>k\<close> and from which \<open>c\<close> tokens were then taken.\<close>

lemma taken_refill:
  assumes "bucket_ok tb" "0 < c" "latestTick tb \<le> k" "k \<le> l"
  defines "b \<equiv> refill tb k"
  defines "a \<equiv> availableTokens (refill (b\<lparr>availableTokens := availableTokens b - c\<rparr>) l)"
  shows "0 \<le> availableTokens b - c + (l - k) * quantum tb \<Longrightarrow> 0 \<le> a"
    "availableTokens tb < capacity tb \<Longrightarrow> availableTokens b - c + (l - k) * quantum tb < 0 \<Longrightarrow> a < 0"
proof -
  have b: "availableTokens b \<le> capacity tb" "latestTick b \<le> k" "0 < capacity tb" "0 < quantum tb" "capacity b = capacity tb" "quantum b = quantum tb"
    using assms(1,3) by (auto simp: b_def refill_def bucket_ok_def)
  have a: "a = min (capacity tb) (availableTokens b - c + (l - latestTick b) * quantum tb)"
    using b assms(2) by (simp add: a_def refill_def)
  have "(l - k) * quantum tb \<le> (l - latestTick b) * quantum tb" using b by (intro mult_right_mono) simp_all
  then have "0 \<le> availableTokens b - c + (l - latestTick b) * quantum tb" if "0 \<le> availableTokens b - c + (l - k) * quantum tb" using that by linarith
  then show "0 \<le> availableTokens b - c + (l - k) * quantum tb \<Longrightarrow> 0 \<le> a" using a b(3) by simp
  have "availableTokens tb < capacity tb \<Longrightarrow> latestTick b = k" by (simp add: b_def refill_def)
  then show "availableTokens tb < capacity tb \<Longrightarrow> availableTokens b - c + (l - k) * quantum tb < 0 \<Longrightarrow> a < 0" using a by simp
qed

text \<open>Until the missing tokens are due, the bucket does not have as many as were asked for.\<close>

lemma refill_short:
  assumes "bucket_ok tb" "latestTick tb \<le> k" "k \<le> l" "availableTokens (refill tb k) - c + (l - k) * quantum tb < 0"
  shows "availableTokens (refill tb l) < c"
proof -
  have "availableTokens (refill tb l) = availableTokens (refill (refill tb k) l)" using refill_refill [OF assms(1-3)] by simp
  moreover have "0 \<le> (l - k) * quantum tb" using assms(1,3) by (simp add: bucket_ok_def)
  moreover have "latestTick (refill tb k) = k" if "availableTokens (refill tb k) \<noteq> capacity tb"
    using that by (auto simp: refill_def split: if_splits)
  ultimately show ?thesis using assms(4) by (auto simp: refill_def [of "refill tb k"])
qed

section \<open>Properties\<close>

text \<open>C13: A bucket never gives out tokens faster than it fills. Whatever clients ask of a new bucket, in any order
  and at any moments of a clock that does not go back, the tokens that may be used by moment \<open>t\<close>, counting a
  delayed take from the end of its wait, are at most the capacity and a quantum for every tick since the
  start. The bounds say when no number of the computation leaves \<open>int64\<close>.\<close>

theorem bucket_rate_bound:
  assumes "NewBucketWithQuantum start fi c q = Ret tb" "serve_all tb rs = (tb', gs)"
    "sorted (map fst rs)" "\<forall>(now, r) \<in> set rs. start \<le> now \<and> now \<le> stop \<and> is_int64 r" "start \<le> stop"
    "c + q * ((stop - start) div fi) < 2 ^ 63" "total_asked rs + q \<le> 2 ^ 63" "((stop - start) div fi + total_asked rs + 1) * fi < 2 ^ 63" "start \<le> t"
  shows "due_by t gs \<le> c + q * ((t - start) div fi)"
proof -
  have tb: "tb = \<lparr>startTime = start, capacity = c, quantum = q, fillInterval = fi, availableTokens = c, latestTick = 0\<rparr>"
    and pos: "0 < fi" "0 < c" "0 < q"
    using assms(1) by (auto simp: NewBucketWithQuantum_def NewBucketWithQuantumAndClock_def split: if_splits)
  have "clock_ok tb ((stop - start) div fi) rs" using assms(4)
  proof (induction rs)
    case (Cons x rs)
    then show ?case using pos by (cases x) (auto simp: tb tick_of_def zdiv_mono1 pos_imp_zdiv_nonneg_iff)
  qed simp
  moreover have "in_range tb ((stop - start) div fi) (total_asked rs)" using assms(6-8) total_asked_nonneg by (simp add: in_range_def tb)
  moreover have "bucket_ok tb" using pos by (simp add: bucket_ok_def tb)
  ultimately have "list_all (\<lambda>(n, d). 0 \<le> n) gs \<and> (0 < due_by t gs \<longrightarrow> 0 + due_by t gs \<le> capacity tb + quantum tb * tick_of tb t)"
    using assms(3) pos by (intro serve_all_bound [OF assms(2), where T = "(stop - start) div fi" and R = "total_asked rs"]) (simp_all add: tb)
  moreover have "0 \<le> c + q * ((t - start) div fi)" using pos assms(9) by (simp add: pos_imp_zdiv_nonneg_iff)
  ultimately show ?thesis by (cases "0 < due_by t gs") (simp_all add: tb tick_of_def)
qed


text \<open>Three clients of a bucket of 5 tokens that gets 2 more every 10 ns: one takes 4, one waits for 4, one gets what is there.\<close>

definition example_bucket :: Bucket where
  "example_bucket = \<lparr>startTime = 100, capacity = 5, quantum = 2, fillInterval = 10, availableTokens = 5, latestTick = 0\<rparr>"

definition example_requests :: "(Time \<times> request) list" where
  "example_requests = [(100, TakeMaxReq 4 0), (103, TakeReq 4), (125, TakeAvailableReq 3)]"

theorem bucket_rate_bound_witness:
  "snd (serve_all example_bucket example_requests) = [(4, 100), (4, 120), (1, 125)] \<and>
   due_by 125 (snd (serve_all example_bucket example_requests)) \<le> 5 + 2 * ((125 - 100) div 10)"
proof -
  have "NewBucketWithQuantum 100 10 5 2 = Ret example_bucket" by code_simp
  moreover have "snd (serve_all example_bucket example_requests) = [(4, 100), (4, 120), (1, 125)]" by code_simp
  moreover have "sorted (map fst example_requests)" "total_asked example_requests = 8"
    "\<forall>(now, r) \<in> set example_requests. 100 \<le> now \<and> now \<le> 125 \<and> is_int64 r"
    by (simp_all add: example_requests_def)
  ultimately show ?thesis
    using bucket_rate_bound [of 100 10 5 2 example_bucket example_requests "fst (serve_all example_bucket example_requests)"
        "snd (serve_all example_bucket example_requests)" 125 125] by simp
qed

text \<open>C17: A take reports the right wait. If it succeeds, the tokens have come in when the wait is over (nobody is
  owed any); and unless the bucket was full before the take, they had not at any earlier moment, so no
  client waits longer than it must. If it is refused, at no moment within the longest wait the client
  accepts would the bucket have had that many tokens, and nothing was taken: the bucket shows the same
  number of tokens at every later moment as if it had not been asked.\<close>

theorem take_wait_exact:
  assumes ok: "now_ok tb T R now" and c: "0 < count" "count < 2 ^ 63" "count - availableTokens tb \<le> R" "tick_of tb now + R \<le> T"
    and t: "TakeMaxDuration tb now count m = (tb', d, acc)"
  shows "(acc \<longrightarrow> 0 \<le> d \<and> 0 \<le> snd (Available tb' (now + d)) \<and>
      (availableTokens tb < capacity tb \<longrightarrow> (\<forall>t. now \<le> t \<and> t < now + d \<longrightarrow> snd (Available tb' t) < 0))) \<and>
    (\<not> acc \<longrightarrow> (\<forall>t. now \<le> t \<and> t \<le> now + m \<longrightarrow> snd (Available tb t) < count) \<and>
      (\<forall>t. now \<le> t \<and> tick_of tb t \<le> T \<longrightarrow> snd (Available tb' t) = snd (Available tb t)))"
proof -
  let ?k = "tick_of tb now"
  let ?b = "refill tb ?k"
  let ?tb' = "?b\<lparr>availableTokens := availableTokens ?b - count\<rparr>" and ?m = "count - availableTokens ?b"
  let ?due = "due_time tb ?k ?m"
  have f: "bucket_ok tb" "0 < fillInterval tb" "0 < quantum tb" "latestTick tb \<le> ?k" "0 \<le> R" "?k \<le> T"
    using ok by (simp_all add: now_ok_def bucket_ok_def in_range_def)
  have r: "bucket_take tb now count m =
    (if count \<le> availableTokens ?b then (?tb', 0, True) else if ?due - now > m then (?b, 0, False) else (?tb', ?due - now, True))"
    using c by (intro take_exact [OF ok]) simp_all
  have av: "snd (Available ?tb' t) = availableTokens (refill ?tb' (tick_of tb t))" if "now \<le> t" "tick_of tb t \<le> T" for t
    using taken_available [OF ok that _ c(3)] c(1) by simp
  note mono = tick_mono [OF f(2)] and tr = taken_refill [OF f(1) c(1) f(4)]
  show ?thesis
  proof (cases "count \<le> availableTokens ?b")
    case True
    then have "0 \<le> snd (Available ?tb' now)" using av [of now] tr(1) [of ?k] f(6) by simp
    then show ?thesis using t r True by (auto simp: TakeMaxDuration_def)
  next
    case False
    then have m: "0 < ?m" by simp
    note l = due_later [OF f(2,3) m, of now]
    have due: "tick_of tb ?due = due_tick tb ?k ?m" by (rule tick_of_due [OF f(2)])
    have "?m \<le> R" using refill_bounds(1) [OF ok] c(3) by simp
    then have dT: "tick_of tb ?due \<le> T" using round_up(4) [OF f(3) m] c(4) unfolding due due_tick_def by simp
    have early: "tick_of tb t \<le> T \<and> ?k \<le> tick_of tb t \<and> availableTokens ?b - count + (tick_of tb t - ?k) * quantum tb < 0"
      if "now \<le> t" "t < ?due" for t
    proof -
      have "tick_of tb t \<le> tick_of tb ?due - 1" using tick_before_due [OF f(2) that(2)] due by simp
      then have "(tick_of tb t - ?k) * quantum tb \<le> (tick_of tb ?due - ?k - 1) * quantum tb" using f(3) by (intro mult_right_mono) simp_all
      then have "(tick_of tb t - ?k) * quantum tb < ?m" using l(3) by (rule le_less_trans)
      moreover have "tick_of tb t \<le> tick_of tb ?due" "?k \<le> tick_of tb t" using that by (simp_all add: mono)
      ultimately show ?thesis using dT by simp
    qed
    show ?thesis
    proof (cases "?due - now > m")
      case True
      have "snd (Available tb t) < count" if "now \<le> t" "t \<le> now + m" for t
      proof -
        have e: "tick_of tb t \<le> T \<and> ?k \<le> tick_of tb t \<and> availableTokens ?b - count + (tick_of tb t - ?k) * quantum tb < 0"
          using that True by (intro early) simp_all
        then show ?thesis
          using Available_exact [OF now_ok_later [OF ok that(1)]] refill_short [OF f(1,4), of "tick_of tb t" count] by simp
      qed
      then show ?thesis using t r False True refused_available [OF ok] by (auto simp: TakeMaxDuration_def)
    next
      case le: False
      have "0 \<le> availableTokens (refill ?tb' (tick_of tb ?due))" using l(1,2) mono [of now ?due] by (intro tr(1)) simp_all
      then have "0 \<le> snd (Available ?tb' ?due)" using av [of ?due] l(1) dT by simp
      moreover have "snd (Available ?tb' t) < 0" if "availableTokens tb < capacity tb" "now \<le> t" "t < ?due" for t
        using av [of t] early [OF that(2,3)] tr(2) [OF _ that(1)] that(2) by simp
      ultimately show ?thesis using t r False le l(1) by (auto simp: TakeMaxDuration_def)
    qed
  qed
qed


text \<open>A bucket that owes a token at moment 103, of which 3 more are asked: they are there at 120, 17 ns later.\<close>

definition owing_bucket :: Bucket where
  "owing_bucket = \<lparr>startTime = 100, capacity = 5, quantum = 2, fillInterval = 10, availableTokens = -1, latestTick = 0\<rparr>"

theorem take_wait_exact_witness:
  "TakeMaxDuration owing_bucket 103 3 17 = (owing_bucket\<lparr>availableTokens := -4\<rparr>, 17, True) \<and>
   0 \<le> snd (Available (owing_bucket\<lparr>availableTokens := -4\<rparr>) 120) \<and> snd (Available (owing_bucket\<lparr>availableTokens := -4\<rparr>) 119) < 0 \<and>
   TakeMaxDuration owing_bucket 103 3 16 = (owing_bucket, 0, False) \<and> snd (Available owing_bucket 119) < 3"
proof -
  have ok: "now_ok owing_bucket 4 4 103" by code_simp
  have side: "(3 :: int) - availableTokens owing_bucket \<le> 4" "tick_of owing_bucket 103 + 4 \<le> 4" "availableTokens owing_bucket < capacity owing_bucket"
    by code_simp+
  have yes: "TakeMaxDuration owing_bucket 103 3 17 = (owing_bucket\<lparr>availableTokens := -4\<rparr>, 17, True)" by code_simp
  have no: "TakeMaxDuration owing_bucket 103 3 16 = (owing_bucket, 0, False)" by code_simp
  show ?thesis using yes no take_wait_exact [OF ok _ _ side(1,2) yes] take_wait_exact [OF ok _ _ side(1,2) no] side(3) by simp
qed

text \<open>C32: The capacity does not bound a burst. A full bucket does not note the current tick when it is asked for
  tokens, so once it has been idle long enough to be filled, all its tokens can be taken twice at one and
  the same moment: the ticks before the first take fill the emptied bucket again.\<close>

theorem bucket_double_burst:
  assumes "NewBucketWithQuantum start fi c q = Ret tb" "start \<le> now" "c \<le> q * ((now - start) div fi)"
    "c + q * ((now - start) div fi) < 2 ^ 63" "((now - start) div fi + 1) * fi < 2 ^ 63"
  shows "snd (serve_all tb [(now, TakeAvailableReq c), (now, TakeAvailableReq c)]) = [(c, now), (c, now)]"
proof -
  let ?t = "(now - start) div fi"
  have tb: "tb = \<lparr>startTime = start, capacity = c, quantum = q, fillInterval = fi, availableTokens = c, latestTick = 0\<rparr>"
    and pos: "0 < fi" "0 < c" "0 < q"
    using assms(1) by (auto simp: NewBucketWithQuantum_def NewBucketWithQuantumAndClock_def split: if_splits)
  have t: "0 \<le> ?t" using pos assms(2) by (simp add: pos_imp_zdiv_nonneg_iff)
  then have "q * 1 \<le> q * ?t" using pos assms(3) by (intro mult_left_mono) (cases "?t = 0", simp_all)
  then have q: "q < 2 ^ 63" using assms(4) pos by linarith
  let ?e = "tb\<lparr>availableTokens := 0\<rparr>"
  have "now_ok tb ?t 0 now" "now_ok ?e ?t 0 now"
    using pos t q assms(2,4,5) by (simp_all add: now_ok_def bucket_ok_def in_range_def tb tick_of_def)
  note ex = this [THEN adjust_exact]
  have r: "refill tb (tick_of tb now) = tb" "refill ?e (tick_of tb now) = tb\<lparr>latestTick := ?t\<rparr>"
    using pos assms(3) by (simp_all add: refill_def tb tick_of_def mult.commute)
  have "takeAvailable tb now c = (?e, c)" using ex(1) r(1) pos by (simp add: takeAvailable_def Let_def) (simp add: tb)
  moreover have "takeAvailable ?e now c = (?e\<lparr>latestTick := ?t\<rparr>, c)" using ex(2) r(2) pos by (simp add: takeAvailable_def Let_def) (simp add: tb)
  ultimately show ?thesis by (simp add: TakeAvailable_def)
qed

theorem bucket_double_burst_witness:
  "snd (serve_all example_bucket [(125, TakeAvailableReq 5), (125, TakeAvailableReq 5)]) \<noteq> [(5, 125), (5, 125)] \<and>
   snd (serve_all example_bucket [(130, TakeAvailableReq 5), (130, TakeAvailableReq 5)]) = [(5, 130), (5, 130)]"
proof -
  have "NewBucketWithQuantum 100 10 5 2 = Ret example_bucket" by code_simp
  moreover have "snd (serve_all example_bucket [(125, TakeAvailableReq 5), (125, TakeAvailableReq 5)]) \<noteq> [(5, 125), (5, 125)]" by code_simp
  ultimately show ?thesis using bucket_double_burst [of 100 10 5 2 example_bucket 130] by simp
qed


end
