(* ===== verification/Rate_Limiters.thy ===== *)
theory Rate_Limiters
  imports Token_Bucket
begin

text \<open>
  The rate limiters of the work queue (k8s.io/client-go/util/workqueue/default_rate_limiters.go and
  rate_limitting_queue.go). The \<open>RateLimiter\<close> interface is the datatype of its implementations, a call of a
  method dispatches on it. The exponential limiter computes with \<open>float64\<close>; the values it meets are integers
  and infinities. What a conversion to \<open>int64\<close> gives for a value it cannot represent depends on the
  implementation of Go, so it is an argument. The failures of an item are counted by a natural number.
\<close>

section \<open>float64\<close>

datatype float64 = Finite int | PosInf | NegInf | NaN

text \<open>The conversion of an \<open>int64\<close> rounds to 53 bits, ties to even.\<close>

fun excess_bits :: "nat \<Rightarrow> nat" where
  "excess_bits n = (if n < 2 ^ 53 then 0 else Suc (excess_bits (n div 2)))"

declare excess_bits.simps [simp del]

definition round53 :: "nat \<Rightarrow> nat" where
  "round53 n =
     (let k = excess_bits n; q = n div 2 ^ k; r = n mod 2 ^ k
      in if 2 * r > 2 ^ k \<or> 2 * r = 2 ^ k \<and> odd q then (q + 1) * 2 ^ k else q * 2 ^ k)"

definition float64_of_int64 :: "int64 \<Rightarrow> int" where
  "float64_of_int64 x = (if x \<ge> 0 then int (round53 (nat x)) else - int (round53 (nat (- x))))"

definition math_Pow2 :: "nat \<Rightarrow> float64" where
  "math_Pow2 e = (if e < 1024 then Finite (2 ^ e) else PosInf)"

text \<open>A converted integer times a power of two: exact up to the largest exponent.\<close>

definition float64_times :: "int \<Rightarrow> float64 \<Rightarrow> float64" where
  "float64_times a p =
     (case p of
        Finite b \<Rightarrow> if \<bar>a * b\<bar> < 2 ^ 1024 then Finite (a * b) else if a * b > 0 then PosInf else NegInf
      | _ \<Rightarrow> if a > 0 then PosInf else if a < 0 then NegInf else NaN)"

definition float64_greater :: "float64 \<Rightarrow> int \<Rightarrow> bool" where
  "float64_greater f c = (case f of Finite b \<Rightarrow> b > c | PosInf \<Rightarrow> True | NegInf \<Rightarrow> False | NaN \<Rightarrow> False)"

definition int64_of_float64 :: "(float64 \<Rightarrow> int64) \<Rightarrow> float64 \<Rightarrow> int64" where
  "int64_of_float64 conv f =
     (case f of Finite b \<Rightarrow> if - (2 ^ 63) \<le> b \<and> b < 2 ^ 63 then b else conv f | _ \<Rightarrow> conv f)"

definition MaxInt64 :: int where
  "MaxInt64 = 2 ^ 63 - 1"

section \<open>The limiters\<close>

record 'i ItemExponentialFailureRateLimiter =
  failures :: "'i \<rightharpoonup> nat"
  baseDelay :: Duration
  maxDelay :: Duration

definition NewItemExponentialFailureRateLimiter :: "Duration \<Rightarrow> Duration \<Rightarrow> 'i ItemExponentialFailureRateLimiter" where
  "NewItemExponentialFailureRateLimiter b m = \<lparr>failures = Map.empty, baseDelay = b, maxDelay = m\<rparr>"

definition exponential_When ::
  "(float64 \<Rightarrow> int64) \<Rightarrow> 'i ItemExponentialFailureRateLimiter \<Rightarrow> 'i \<Rightarrow> 'i ItemExponentialFailureRateLimiter \<times> Duration" where
  "exponential_When conv r item =
     (let exp = map_get (failures r) item;
          r = r\<lparr>failures := (failures r)(item \<mapsto> map_get (failures r) item + 1)\<rparr>;
          backoff = float64_times (float64_of_int64 (baseDelay r)) (math_Pow2 exp)
      in if float64_greater backoff (float64_of_int64 MaxInt64) then (r, maxDelay r)
         else let calculated = int64_of_float64 conv backoff
              in if calculated > maxDelay r then (r, maxDelay r) else (r, calculated))"

definition exponential_NumRequeues :: "'i ItemExponentialFailureRateLimiter \<Rightarrow> 'i \<Rightarrow> nat" where
  "exponential_NumRequeues r item = map_get (failures r) item"

definition exponential_Forget :: "'i ItemExponentialFailureRateLimiter \<Rightarrow> 'i \<Rightarrow> 'i ItemExponentialFailureRateLimiter" where
  "exponential_Forget r item = r\<lparr>failures := (failures r)(item := None)\<rparr>"

record 'i ItemFastSlowRateLimiter =
  fs_failures :: "'i \<rightharpoonup> nat"
  maxFastAttempts :: int
  fastDelay :: Duration
  slowDelay :: Duration

definition NewItemFastSlowRateLimiter :: "Duration \<Rightarrow> Duration \<Rightarrow> int \<Rightarrow> 'i ItemFastSlowRateLimiter" where
  "NewItemFastSlowRateLimiter fast slow n = \<lparr>fs_failures = Map.empty, maxFastAttempts = n, fastDelay = fast, slowDelay = slow\<rparr>"

definition fast_slow_When :: "'i ItemFastSlowRateLimiter \<Rightarrow> 'i \<Rightarrow> 'i ItemFastSlowRateLimiter \<times> Duration" where
  "fast_slow_When r item =
     (let r = r\<lparr>fs_failures := (fs_failures r)(item \<mapsto> map_get (fs_failures r) item + 1)\<rparr>
      in if int (map_get (fs_failures r) item) \<le> maxFastAttempts r then (r, fastDelay r) else (r, slowDelay r))"

definition fast_slow_NumRequeues :: "'i ItemFastSlowRateLimiter \<Rightarrow> 'i \<Rightarrow> nat" where
  "fast_slow_NumRequeues r item = map_get (fs_failures r) item"

definition fast_slow_Forget :: "'i ItemFastSlowRateLimiter \<Rightarrow> 'i \<Rightarrow> 'i ItemFastSlowRateLimiter" where
  "fast_slow_Forget r item = r\<lparr>fs_failures := (fs_failures r)(item := None)\<rparr>"

datatype 'i RateLimiter =
    BucketRateLimiter Bucket
  | Exponential "'i ItemExponentialFailureRateLimiter"
  | FastSlow "'i ItemFastSlowRateLimiter"
  | MaxOfRateLimiter "'i RateLimiter list"

text \<open>The loop of \<open>MaxOfRateLimiter\<close> calls every limiter in turn and keeps the longest delay.\<close>

fun When :: "(float64 \<Rightarrow> int64) \<Rightarrow> Time \<Rightarrow> 'i \<Rightarrow> 'i RateLimiter \<Rightarrow> 'i RateLimiter \<times> Duration"
  and When_loop :: "(float64 \<Rightarrow> int64) \<Rightarrow> Time \<Rightarrow> 'i \<Rightarrow> Duration \<Rightarrow> 'i RateLimiter list \<Rightarrow> 'i RateLimiter list \<times> Duration" where
  "When conv now item (BucketRateLimiter tb) = (case Take tb now 1 of (tb, d) \<Rightarrow> (BucketRateLimiter tb, d))"
| "When conv now item (Exponential r) = (case exponential_When conv r item of (r, d) \<Rightarrow> (Exponential r, d))"
| "When conv now item (FastSlow r) = (case fast_slow_When r item of (r, d) \<Rightarrow> (FastSlow r, d))"
| "When conv now item (MaxOfRateLimiter ls) = (case When_loop conv now item 0 ls of (ls, d) \<Rightarrow> (MaxOfRateLimiter ls, d))"
| "When_loop conv now item ret [] = ([], ret)"
| "When_loop conv now item ret (l # ls) =
     (case When conv now item l of (l, cur) \<Rightarrow>
      case When_loop conv now item (if cur > ret then cur else ret) ls of (ls, d) \<Rightarrow> (l # ls, d))"

fun NumRequeues :: "'i \<Rightarrow> 'i RateLimiter \<Rightarrow> nat"
  and NumRequeues_loop :: "'i \<Rightarrow> nat \<Rightarrow> 'i RateLimiter list \<Rightarrow> nat" where
  "NumRequeues item (BucketRateLimiter tb) = 0"
| "NumRequeues item (Exponential r) = exponential_NumRequeues r item"
| "NumRequeues item (FastSlow r) = fast_slow_NumRequeues r item"
| "NumRequeues item (MaxOfRateLimiter ls) = NumRequeues_loop item 0 ls"
| "NumRequeues_loop item ret [] = ret"
| "NumRequeues_loop item ret (l # ls) =
     (let cur = NumRequeues item l in NumRequeues_loop item (if cur > ret then cur else ret) ls)"

fun Forget :: "'i \<Rightarrow> 'i RateLimiter \<Rightarrow> 'i RateLimiter" where
  "Forget item (BucketRateLimiter tb) = BucketRateLimiter tb"
| "Forget item (Exponential r) = Exponential (exponential_Forget r item)"
| "Forget item (FastSlow r) = FastSlow (fast_slow_Forget r item)"
| "Forget item (MaxOfRateLimiter ls) = MaxOfRateLimiter (map (Forget item) ls)"

text \<open>The default limiter of a controller; its bucket is made by \<open>NewBucketWithRate(10, 100)\<close>.\<close>

definition DefaultControllerRateLimiter :: "Bucket \<Rightarrow> 'i RateLimiter" where
  "DefaultControllerRateLimiter tb =
     MaxOfRateLimiter [Exponential (NewItemExponentialFailureRateLimiter 5000000 1000000000000), BucketRateLimiter tb]"

definition DefaultItemBasedRateLimiter :: "'i RateLimiter" where
  "DefaultItemBasedRateLimiter = Exponential (NewItemExponentialFailureRateLimiter 1000000 1000000000000)"

text \<open>\<open>AddRateLimited\<close>: the limiter after it, and the arguments of the \<open>AddAfter\<close> it calls.\<close>

definition AddRateLimited :: "(float64 \<Rightarrow> int64) \<Rightarrow> Time \<Rightarrow> 'i \<Rightarrow> 'i RateLimiter \<Rightarrow> 'i RateLimiter \<times> 'i \<times> Duration" where
  "AddRateLimited conv now item l = (case When conv now item l of (l, d) \<Rightarrow> (l, item, d))"

section \<open>The backoff\<close>

lemma round53_small: "n < 2 ^ 53 \<Longrightarrow> round53 n = n"
  by (simp add: round53_def excess_bits.simps)

lemma float64_small: "0 \<le> x \<Longrightarrow> x < 2 ^ 53 \<Longrightarrow> float64_of_int64 x = x"
  by (simp add: float64_of_int64_def round53_small nat_less_iff)

text \<open>The largest \<open>int64\<close> is not a \<open>float64\<close>: it is rounded up.\<close>

lemma float64_MaxInt64: "float64_of_int64 MaxInt64 = 2 ^ 63"
proof -
  have "excess_bits 9223372036854775807 = 10" by (simp add: excess_bits.simps)
  then have "round53 9223372036854775807 = 9223372036854775808" by (simp add: round53_def Let_def)
  then show ?thesis by (simp add: float64_of_int64_def MaxInt64_def)
qed

lemma backoff_exact:
  assumes b: "0 < baseDelay r" "baseDelay r < 2 ^ 53" "\<forall>n. baseDelay r * 2 ^ n \<noteq> 2 ^ 63" and m: "maxDelay r < 2 ^ 63"
  shows "snd (exponential_When conv r item) = min (maxDelay r) (baseDelay r * 2 ^ map_get (failures r) item)"
proof -
  let ?k = "map_get (failures r) item" and ?c = "baseDelay r * 2 ^ map_get (failures r) item"
  have fl: "float64_of_int64 (baseDelay r) = baseDelay r" using b by (intro float64_small) simp_all
  have pos: "0 < ?c" using b by simp
  show ?thesis
  proof (cases "?c < 2 ^ 63")
    case True
    have "?k < 63"
    proof (rule ccontr)
      assume "\<not> ?k < 63"
      then have "(2 :: int) ^ 63 \<le> 2 ^ ?k" by (intro power_increasing) simp_all
      also have "\<dots> \<le> ?c" using b(1) by simp
      finally show False using True by simp
    qed
    moreover have "?c < 2 ^ 1024" using True by (rule less_trans) simp
    ultimately show ?thesis using True pos
      by (simp add: exponential_When_def Let_def fl math_Pow2_def float64_times_def float64_greater_def float64_MaxInt64 int64_of_float64_def)
  next
    case False
    then have gt: "2 ^ 63 < ?c" using b(3) by (metis linorder_cases)
    then have "float64_greater (float64_times (baseDelay r) (math_Pow2 ?k)) (2 ^ 63)"
      using b(1) by (auto simp: math_Pow2_def float64_times_def float64_greater_def)
    then show ?thesis using gt m by (simp add: exponential_When_def Let_def fl float64_MaxInt64)
  qed
qed


section \<open>Sessions\<close>

text \<open>Calls of the limiter's methods that change it, and what they leave.\<close>

datatype 'i call = CallWhen Time 'i | CallForget 'i

fun after_call :: "(float64 \<Rightarrow> int64) \<Rightarrow> 'i RateLimiter \<Rightarrow> 'i call \<Rightarrow> 'i RateLimiter" where
  "after_call conv l (CallWhen now i) = fst (When conv now i l)"
| "after_call conv l (CallForget i) = Forget i l"

definition after_calls :: "(float64 \<Rightarrow> int64) \<Rightarrow> 'i RateLimiter \<Rightarrow> 'i call list \<Rightarrow> 'i RateLimiter" where
  "after_calls conv l cs = foldl (after_call conv) l cs"

text \<open>How often an item failed since it was last forgotten, and the tokens the calls took from the bucket.\<close>

fun retry :: "'i \<Rightarrow> nat \<Rightarrow> 'i call \<Rightarrow> nat" where
  "retry i n (CallWhen now j) = (if j = i then n + 1 else n)"
| "retry i n (CallForget j) = (if j = i then 0 else n)"

definition retries :: "'i call list \<Rightarrow> 'i \<Rightarrow> nat" where
  "retries cs i = foldl (retry i) 0 cs"

fun draw :: "Bucket \<Rightarrow> 'i call \<Rightarrow> Bucket" where
  "draw tb (CallWhen now j) = fst (Take tb now 1)"
| "draw tb (CallForget j) = tb"

definition drawn :: "Bucket \<Rightarrow> 'i call list \<Rightarrow> Bucket" where
  "drawn tb cs = foldl draw tb cs"

abbreviation controller :: "'i ItemExponentialFailureRateLimiter \<Rightarrow> Bucket \<Rightarrow> 'i RateLimiter" where
  "controller r tb \<equiv> MaxOfRateLimiter [Exponential r, BucketRateLimiter tb]"

lemma exponential_When_state:
  "fst (exponential_When conv r i) = r\<lparr>failures := (failures r)(i \<mapsto> map_get (failures r) i + 1)\<rparr>"
  by (simp add: exponential_When_def Let_def)

lemma controller_When:
  "When conv now i (controller r tb) =
     (controller (fst (exponential_When conv r i)) (fst (Take tb now 1)), max 0 (max (snd (exponential_When conv r i)) (snd (Take tb now 1))))"
  by (auto simp: max_def split: prod.splits)

lemma after_calls_controller:
  "\<exists>r'. after_calls conv (controller r tb) cs = controller r' (drawn tb cs) \<and> baseDelay r' = baseDelay r \<and> maxDelay r' = maxDelay r \<and>
     (\<forall>i. map_get (failures r') i = foldl (retry i) (map_get (failures r) i) cs)"
proof (induction cs rule: rev_induct)
  case (snoc c cs)
  then obtain r' where r': "after_calls conv (controller r tb) cs = controller r' (drawn tb cs)" "baseDelay r' = baseDelay r" "maxDelay r' = maxDelay r"
    "\<And>i. map_get (failures r') i = foldl (retry i) (map_get (failures r) i) cs" by blast
  have step: "after_calls conv (controller r tb) (cs @ [c]) = after_call conv (controller r' (drawn tb cs)) c"
    using r'(1) by (simp add: after_calls_def)
  show ?case
  proof (cases c)
    case (CallWhen now j)
    show ?thesis unfolding step
      by (rule exI [of _ "fst (exponential_When conv r' j)"])
        (use r' in \<open>simp add: CallWhen controller_When exponential_When_state drawn_def map_get_def del: When.simps\<close>)
  next
    case (CallForget j)
    show ?thesis unfolding step
      by (rule exI [of _ "exponential_Forget r' j"]) (use r' in \<open>simp add: CallForget exponential_Forget_def drawn_def map_get_def\<close>)
  qed
qed (auto simp: after_calls_def drawn_def)

section \<open>Properties\<close>

text \<open>C14: What a controller's rate limiter promises. After any calls for any items, the next delay of an item is the
  longer of two: its own backoff, the base delay doubled for each failure since it was last forgotten and at
  most the maximal delay; and the wait for one more token of the bucket that all calls share. \<open>NumRequeues\<close> is
  the number of those failures. No count of failures overflows the computation, unless some doubling of
  the base delay is exactly \<open>2 ^ 63\<close>.\<close>

theorem controller_backoff:
  assumes "0 < base" "base < 2 ^ 53" "\<forall>n. base * 2 ^ n \<noteq> 2 ^ 63" "m < 2 ^ 63"
    "l = after_calls conv (MaxOfRateLimiter [Exponential (NewItemExponentialFailureRateLimiter base m), BucketRateLimiter tb]) cs"
  shows "snd (When conv now i l) = max 0 (max (min m (base * 2 ^ retries cs i)) (snd (Take (drawn tb cs) now 1))) \<and>
    NumRequeues i l = retries cs i"
proof -
  let ?r = "NewItemExponentialFailureRateLimiter base m"
  obtain r' where r': "l = controller r' (drawn tb cs)" "baseDelay r' = base" "maxDelay r' = m" "map_get (failures r') i = retries cs i"
    using after_calls_controller [of conv ?r tb cs] assms(5)
    by (auto simp: NewItemExponentialFailureRateLimiter_def retries_def map_get_def)
  have "snd (exponential_When conv r' i) = min m (base * 2 ^ retries cs i)"
    using backoff_exact [of r' conv i] r'(2-4) assms(1-4) by simp
  then show ?thesis using controller_When [of conv now i r' "drawn tb cs"] r'(1,4)
    by (simp add: exponential_NumRequeues_def Let_def del: When.simps)
qed


text \<open>Item 7 fails three times with the default limiter of controllers, item 8 is forgotten: item 7 waits 40 ms next.\<close>

definition example_tokens :: Bucket where
  "example_tokens = \<lparr>startTime = 0, capacity = 100, quantum = 1, fillInterval = 100000000, availableTokens = 100, latestTick = 0\<rparr>"

definition example_calls :: "nat call list" where
  "example_calls = [CallWhen 0 7, CallWhen 3 7, CallForget 8, CallWhen 9 7]"

theorem controller_backoff_witness:
  "snd (When (\<lambda>f. 0) 20 7 (after_calls (\<lambda>f. 0) (DefaultControllerRateLimiter example_tokens) example_calls)) = 40000000 \<and>
   NumRequeues 7 (after_calls (\<lambda>f. 0) (DefaultControllerRateLimiter example_tokens) example_calls) = 3"
proof -
  have "(5000000 :: int) * 2 ^ n \<noteq> 2 ^ 63" for n
  proof
    assume eq: "(5000000 :: int) * 2 ^ n = 2 ^ 63"
    have "(5 :: int) dvd 5000000 * 2 ^ n" by (rule dvd_mult2) simp
    then show False unfolding eq by simp
  qed
  moreover have "snd (Take (drawn example_tokens example_calls) 20 1) = 0" by code_simp
  moreover have "retries example_calls 7 = 3" by (simp add: retries_def example_calls_def)
  ultimately show ?thesis
    using controller_backoff [where base = 5000000 and m = 1000000000000 and conv = "\<lambda>f. 0" and tb = example_tokens and cs = example_calls and now = 20 and i = 7, OF _ _ _ _ refl]
    by (simp add: DefaultControllerRateLimiter_def)
qed

text \<open>
  The exception is real. With a base delay of 1 ns the backoff of the 64th failure is exactly \<open>2 ^ 63\<close>, which
  passes the check against \<open>math.MaxInt64\<close>, a constant that is rounded up to \<open>2 ^ 63\<close>; the conversion to a
  duration then overflows. Where it gives the least \<open>int64\<close>, as on amd64, the delay is negative.
\<close>

lemma backoff_overflow:
  assumes "baseDelay r = 1" "map_get (failures r) i = 63" "conv (Finite (2 ^ 63)) \<le> maxDelay r"
  shows "snd (exponential_When conv r i) = conv (Finite (2 ^ 63))"
  using assms float64_small [of 1]
  by (simp add: exponential_When_def Let_def math_Pow2_def float64_times_def float64_greater_def float64_MaxInt64 int64_of_float64_def)

end
