(* ===== verification/Spec2Isabelle.thy ===== *)
theory Spec2Isabelle
  imports Http2_Meta_Roundtrip Http2_Flow Http2_Pipe Http2_Priority_Pop Delaying_Queue Rate_Limiters
begin

text \<open>
  A verification of algorithmic packages among the dependencies vendored by Istio: the HTTP/2 stack
  below the connection loops (golang.org/x/net), and the queues and rate limiters on which Kubernetes
  controllers run (k8s.io/client-go/util/workqueue with github.com/juju/ratelimit). File names below are
  relative to src/.

  \<^bold>\<open>Conventions.\<close> A struct is a record, an interface a datatype or a locale, a function of the source one
  definition of the same name where that is free. \<open>Go_Prelude\<close> has the outcome of a Go call, \<open>Ret\<close>, \<open>Fail\<close> (an
  error) or \<open>Panic\<close>; integers are words where their width matters (\<open>sint\<close> reads the signed ones) or integers
  that go through \<open>wrap64\<close> (\<open>Go_Time\<close>). Objects that are shared by pointer live in a store, a function from
  addresses. Methods under a mutex are functions, goroutines are step relations over them. What is
  modelled of the standard library: byte order and numerals (\<open>Go_Binary\<close>), ranging over a string
  (\<open>Go_Strings\<close>), durations (\<open>Go_Time\<close>), \<open>container/heap\<close> (\<open>Go_Heap\<close>).

  \<^bold>\<open>HPACK\<close> (golang.org/x/net/http2/hpack). \<open>Hpack_Varint\<close>: prefixed integers. \<open>Hpack_Table\<close>: static and dynamic
  tables; the indexed table behaves like a queue of fields, and its searches like a scan. \<open>Hpack_Huffman\<close>,
  \<open>Bit_Lists\<close>, \<open>Huffman_Tree\<close>, \<open>Huffman_Code\<close>, \<open>Huffman_Decode\<close>, \<open>Huffman_Encode\<close>: huffman.go and the code of
  tables.go; the code is prefix-free, the tree built by \<open>init\<close> recognises it, decoder and encoder are
  inverse. The locale \<open>huffman_code\<close> is what the decoder needs of its tree. \<open>Hpack_Codec\<close>: \<open>Encoder\<close> and
  \<open>Decoder\<close>. \<open>Hpack_Roundtrip\<close>: a session of fields and table size changes is read back. \<open>Hpack_Stream\<close>: on
  any input the decoder does not panic and keeps its limits, and input may be cut anywhere.

  \<^bold>\<open>Framer\<close> (golang.org/x/net/http2/frame.go, errors.go, http2.go). \<open>Http2_Frame\<close>: all parsers and writers and
  \<open>ReadFrame\<close>. \<open>Http2_Roundtrip\<close>: what is written is read back. \<open>Http2_Read\<close>: safety on any input, and the
  sequences of frames the order check accepts. \<open>Http2_Meta\<close>: merging and decoding header blocks, on top of
  the HPACK decoder and the lexical rules of \<open>Httplex\<close> (golang.org/x/net/lex/httplex). \<open>Http2_Meta_Roundtrip\<close>:
  header lists from the HPACK encoder over frames to \<open>ReadFrame\<close> on the other side. The locale
  \<open>stream_reader\<close> is the contract of readers that may be given their input in pieces.

  \<^bold>\<open>Streams of a connection\<close> (golang.org/x/net/http2). \<open>Http2_Flow\<close>: flow-control windows of flow.go, with the
  connection window shared by its streams. \<open>Http2_DataBuffer\<close>, \<open>Http2_Pipe\<close>: the chunked buffer implements a
  byte queue, and a pipe over any buffer with that contract (locale \<open>pipe_buffer\<close>) delivers the bytes in
  order and then its error. \<open>Http2_Sched\<close>: write requests, their queues and the random scheduler (locale
  \<open>write_scheduler\<close>); they use the windows of \<open>Http2_Flow\<close>. \<open>Http2_Priority\<close>, \<open>Http2_Priority_Tree\<close>,
  \<open>Http2_Priority_Pop\<close>: the priority scheduler as a linked tree in a store; what the operations do to the
  tree, and that \<open>Pop\<close> ends and finds what flow control lets through.

  \<^bold>\<open>Controller queues\<close> (k8s.io/client-go/util/workqueue). \<open>Workqueue\<close>: queue.go with producers and workers; in
  every interleaving an item is held by one worker at most, no wakeup is lost, nothing added is forgotten.
  \<open>Delaying_Queue\<close>: delaying_queue.go, whose waiting loop keeps a heap of entries (an instance of the locale
  \<open>heap_container\<close>, which extends \<open>heap_interface\<close>, of \<open>Go_Heap\<close>); it adds on time, and without the delays it
  is a work queue. \<open>Token_Bucket\<close>: github.com/juju/ratelimit; the rate is bounded, waits are exact as long as
  the numbers fit \<open>int64\<close>. \<open>Rate_Limiters\<close>: default_rate_limiters.go over the bucket, and \<open>AddRateLimited\<close>.

  \<^bold>\<open>Bounds and termination.\<close> No result depends on a choice of fuel. Loops are structural or have a termination
  proof; those over linked nodes or readers that might not end are partial functions into options, and the
  properties prove that they return. Bounds in hypotheses state when a number fits its width, or limits the
  protocol itself sets. The interleavings are of any number of steps; the workers of a queue are finitely
  many. The waiting loop's timers fire at any moment not before they are due, its heartbeat at any moment.

  \<^bold>\<open>Where the code does not do what it says.\<close> The following are proved as properties of the code as it is: \<open>add\<close> on a negative
  flow-control window (\<open>Http2_Flow\<close>), the error of a pipe that was closed and then broken (\<open>Http2_Pipe\<close>), a
  PUSH_PROMISE that is to be continued (\<open>Http2_Read\<close>), orphaned children, the maximal weight and the
  eviction of open streams (\<open>Http2_Priority_Tree\<close>), a double burst and a wrapped wait (\<open>Token_Bucket\<close>). The
  overflow of a backoff of exactly \<open>2 ^ 63\<close> is a lemma of \<open>Rate_Limiters\<close>.

  \<^bold>\<open>Not modelled.\<close> Logging, metrics and debugging output; the reuse of memory between frames; \<open>PunycodeHostPort\<close>,
  which needs generated Unicode tables; \<open>NewBucketWithRate\<close> and \<open>Rate\<close>, which divide floating-point numbers; the
  server and client of HTTP/2 (server.go, transport.go), whose goroutines, timers and sockets surround the
  parts above. The sorting of siblings in the priority scheduler is an argument, of which any
  permutation is allowed; so are the pools of the data buffer, the readers and writers below the framer,
  and the result of converting a number that is out of range. Of the other vendored repositories most are
  generated API types and clients, clients of remote services, encoders that work by reflection on Go
  types, command line and test support: their behaviour is that of code which is not there, or of the
  network. Some are libraries of algorithms that none of the packages above calls, such as
  compressors, caches and search trees; they are independent of this development and left out of it.
\<close>

end
